(* ===== verification/Rust_Str.thy ===== *)
theory Rust_Str
  imports Main "HOL-Library.Word" "HOL-Library.Char_ord" "HOL-Library.List_Lexorder" "HOL-Library.Sublist"
begin

text \<open>
  The prelude: the operations of Rust's standard library the sources call on \<open>str\<close> and on
  unsigned integers, and the generic lemmas the components share.

  A Rust \<open>String\<close> is valid UTF-8; here it is the list of its bytes, so \<open>len()\<close> is \<open>length\<close>.
  Patterns and separators of the sources are ASCII, where bytes and characters agree;
  \<open>trim\<close> also removes the multi-byte characters with the Unicode property White_Space, by
  their encodings (UTF-8 is self-synchronising, so an encoding at either end of a valid string is
  a whole character).

  The collections: \<open>str_simps\<close> for the string functions, \<open>frame_simps\<close> for projections of
  updated states, \<open>handler_defs\<close> for the small definitions that proofs unfold together.
\<close>

named_theorems str_simps
named_theorems frame_simps
named_theorems handler_defs

section \<open>Prefixes, splitting, replacing\<close>

text \<open>\<open>str::strip_prefix\<close>.\<close>

fun strip_prefix :: "string \<Rightarrow> string \<Rightarrow> string option" where
  "strip_prefix [] s = Some s"
| "strip_prefix (p # ps) [] = None"
| "strip_prefix (p # ps) (c # s) = (if p = c then strip_prefix ps s else None)"

definition starts_with :: "string \<Rightarrow> string \<Rightarrow> bool" where
  "starts_with s p \<longleftrightarrow> strip_prefix p s \<noteq> None"

lemma strip_prefix_append [simp, str_simps]: "strip_prefix p (p @ s) = Some s"
  by (induction p) auto

lemma strip_prefix_iff: "strip_prefix p s = Some r \<longleftrightarrow> s = p @ r"
  by (induction p s rule: strip_prefix.induct) auto

lemma strip_prefix_None_iff: "strip_prefix p s = None \<longleftrightarrow> (\<forall>r. s \<noteq> p @ r)"
  using strip_prefix_iff [of p s] by (cases "strip_prefix p s") auto

lemma starts_with_iff: "starts_with s p \<longleftrightarrow> (\<exists>r. s = p @ r)"
  by (auto simp: starts_with_def strip_prefix_None_iff)

text \<open>\<open>str::contains\<close> with a string pattern.\<close>

fun contains_str :: "string \<Rightarrow> string \<Rightarrow> bool" where
  "contains_str [] p \<longleftrightarrow> p = []"
| "contains_str (c # s) p \<longleftrightarrow> starts_with (c # s) p \<or> contains_str s p"

lemma contains_str_iff: "contains_str s p \<longleftrightarrow> (\<exists>a b. s = a @ p @ b)"
proof (induction s)
  case Nil
  then show ?case by auto
next
  case (Cons c s)
  have "(\<exists>a b. c # s = a @ p @ b) \<longleftrightarrow> starts_with (c # s) p \<or> (\<exists>a b. s = a @ p @ b)"
    by (auto simp: starts_with_iff Cons_eq_append_conv)
  with Cons show ?case by simp
qed

text \<open>\<open>str::split\<close> with a character: the pieces between the separators, empty ones included.\<close>

fun split_on :: "char \<Rightarrow> string \<Rightarrow> string list" where
  "split_on c [] = [[]]"
| "split_on c (x # s) =
     (if x = c then [] # split_on c s
      else (case split_on c s of [] \<Rightarrow> [[x]] | w # ws \<Rightarrow> (x # w) # ws))"

lemma split_on_nonempty [simp]: "split_on c s \<noteq> []"
  by (induction s) (auto split: list.splits)

lemma split_on_no_sep: "w \<in> set (split_on c s) \<Longrightarrow> c \<notin> set w"
proof (induction s arbitrary: w)
  case Nil
  then show ?case by simp
next
  case (Cons x s)
  obtain v vs where vs: "split_on c s = v # vs"
    using split_on_nonempty by (metis list.exhaust)
  have "c \<notin> set v" by (rule Cons.IH) (simp add: vs)
  moreover have "\<And>u. u \<in> set vs \<Longrightarrow> c \<notin> set u" by (rule Cons.IH) (simp add: vs)
  ultimately show ?case using Cons.prems by (auto simp: vs split: if_splits)
qed

lemma split_on_single: "c \<notin> set s \<Longrightarrow> split_on c s = [s]"
  by (induction s) auto

lemma split_on_append: "c \<notin> set w \<Longrightarrow> split_on c (w @ c # s) = w # split_on c s"
  by (induction w) auto

text \<open>\<open>str::replace\<close> with a character pattern.\<close>

definition replace_char :: "char \<Rightarrow> string \<Rightarrow> string \<Rightarrow> string" where
  "replace_char c r s = concat (map (\<lambda>x. if x = c then r else [x]) s)"

lemma replace_char_Nil [simp]: "replace_char c r [] = []"
  by (simp add: replace_char_def)

lemma replace_char_Cons [simp]:
  "replace_char c r (x # s) = (if x = c then r else [x]) @ replace_char c r s"
  by (simp add: replace_char_def)

lemma replace_char_append [simp]:
  "replace_char c r (s @ t) = replace_char c r s @ replace_char c r t"
  by (simp add: replace_char_def)

lemma replace_char_absent: "c \<notin> set s \<Longrightarrow> replace_char c r s = s"
  by (induction s) auto

lemma set_replace_char: "c \<notin> set r \<Longrightarrow> c \<notin> set (replace_char c r s)"
  by (induction s) auto

section \<open>Trimming and case\<close>

text \<open>The UTF-8 encodings of the characters with the property White_Space.\<close>

definition whitespace :: "string list" where
  "whitespace =
     [[CHR 0x09], [CHR 0x0A], [CHR 0x0B], [CHR 0x0C], [CHR 0x0D], [CHR 0x20],
      [CHR 0xC2, CHR 0x85], [CHR 0xC2, CHR 0xA0], [CHR 0xE1, CHR 0x9A, CHR 0x80],
      [CHR 0xE2, CHR 0x80, CHR 0x80], [CHR 0xE2, CHR 0x80, CHR 0x81], [CHR 0xE2, CHR 0x80, CHR 0x82],
      [CHR 0xE2, CHR 0x80, CHR 0x83], [CHR 0xE2, CHR 0x80, CHR 0x84], [CHR 0xE2, CHR 0x80, CHR 0x85],
      [CHR 0xE2, CHR 0x80, CHR 0x86], [CHR 0xE2, CHR 0x80, CHR 0x87], [CHR 0xE2, CHR 0x80, CHR 0x88],
      [CHR 0xE2, CHR 0x80, CHR 0x89], [CHR 0xE2, CHR 0x80, CHR 0x8A], [CHR 0xE2, CHR 0x80, CHR 0xA8],
      [CHR 0xE2, CHR 0x80, CHR 0xA9], [CHR 0xE2, CHR 0x80, CHR 0xAF], [CHR 0xE2, CHR 0x81, CHR 0x9F],
      [CHR 0xE3, CHR 0x80, CHR 0x80]]"

fun first_strip :: "string list \<Rightarrow> string \<Rightarrow> string option" where
  "first_strip [] s = None"
| "first_strip (w # ws) s =
     (if w = [] then first_strip ws s
      else (case strip_prefix w s of Some r \<Rightarrow> Some r | None \<Rightarrow> first_strip ws s))"

lemma first_strip_Some:
  "first_strip ws s = Some r \<Longrightarrow> \<exists>w \<in> set ws. w \<noteq> [] \<and> s = w @ r"
  by (induction ws) (auto split: if_splits option.splits simp: strip_prefix_iff)

lemma first_strip_None:
  "first_strip ws s = None \<longleftrightarrow> (\<forall>w \<in> set ws. w \<noteq> [] \<longrightarrow> strip_prefix w s = None)"
  by (induction ws) (auto split: option.splits)

function strip_all :: "string list \<Rightarrow> string \<Rightarrow> string" where
  "strip_all ws s = (case first_strip ws s of Some r \<Rightarrow> strip_all ws r | None \<Rightarrow> s)"
  by pat_completeness auto
termination
  by (relation "measure (\<lambda>(ws, s). length s)") (auto dest!: first_strip_Some)

declare strip_all.simps [simp del]

definition trim :: "string \<Rightarrow> string" where
  "trim s = rev (strip_all (map rev whitespace) (rev (strip_all whitespace s)))"

lemma strip_all_suffix: "\<exists>p. s = p @ strip_all ws s"
proof (induction ws s rule: strip_all.induct)
  case (1 ws s)
  show ?case
  proof (cases "first_strip ws s")
    case None
    then show ?thesis by (simp add: strip_all.simps)
  next
    case (Some r)
    then obtain w where "s = w @ r" using first_strip_Some by blast
    moreover obtain p where "r = p @ strip_all ws r" using 1 [OF Some] by blast
    moreover have "strip_all ws s = strip_all ws r" using Some by (simp add: strip_all.simps [of ws s])
    ultimately have "s = (w @ p) @ strip_all ws s" by (metis append.assoc)
    then show ?thesis by blast
  qed
qed

lemma strip_all_stuck: "first_strip ws (strip_all ws s) = None"
proof (induction ws s rule: strip_all.induct)
  case (1 ws s)
  then show ?case by (cases "first_strip ws s") (simp_all add: strip_all.simps [of ws s])
qed

lemma strip_all_id: "first_strip ws s = None \<Longrightarrow> strip_all ws s = s"
  by (simp add: strip_all.simps)

lemma first_strip_prefix_None:
  assumes "first_strip ws (s @ t) = None"
  shows "first_strip ws s = None"
  using assms by (auto simp: first_strip_None strip_prefix_None_iff)

text \<open>A trimmed string is left alone: neither end holds white space any more.\<close>

lemma trim_front_stuck: "first_strip whitespace (trim s) = None"
proof -
  let ?t = "strip_all whitespace s"
  obtain p where "rev ?t = p @ strip_all (map rev whitespace) (rev ?t)"
    using strip_all_suffix by blast
  then have "?t = trim s @ rev p"
    unfolding trim_def by (metis rev_append rev_rev_ident)
  then show ?thesis
    using strip_all_stuck [of whitespace s] first_strip_prefix_None by metis
qed

lemma trim_back_stuck: "first_strip (map rev whitespace) (rev (trim s)) = None"
  unfolding trim_def by (simp add: strip_all_stuck)

lemma trim_trim [simp, str_simps]: "trim (trim s) = trim s"
  unfolding trim_def [of "trim s"]
  using trim_back_stuck [of s] trim_front_stuck [of s] by (simp add: strip_all_id)

lemma trim_sublist: "\<exists>a b. s = a @ trim s @ b"
proof -
  let ?t = "strip_all whitespace s"
  obtain p where "s = p @ ?t" using strip_all_suffix by blast
  moreover obtain q where "rev ?t = q @ strip_all (map rev whitespace) (rev ?t)"
    using strip_all_suffix by blast
  then have "?t = trim s @ rev q"
    unfolding trim_def by (metis rev_append rev_rev_ident)
  ultimately show ?thesis by metis
qed

lemma set_trim: "set (trim s) \<subseteq> set s"
proof -
  obtain a b where s: "s = a @ trim s @ b" using trim_sublist by blast
  have "set (trim s) \<subseteq> set (a @ trim s @ b)" by auto
  then show ?thesis using s by simp
qed

lemma trim_stuck:
  "first_strip whitespace s = None \<Longrightarrow> first_strip (map rev whitespace) (rev s) = None \<Longrightarrow> trim s = s"
  by (simp add: trim_def strip_all_id)

lemma trim_fixed:
  "trim s = s \<longleftrightarrow> first_strip whitespace s = None \<and> first_strip (map rev whitespace) (rev s) = None"
  using trim_front_stuck [of s] trim_back_stuck [of s] trim_stuck [of s] by auto

text \<open>A separator that is no part of any white space keeps both ends apart.\<close>

lemma first_strip_separated:
  assumes "first_strip ws u = None" and "\<forall>w \<in> set ws. c \<notin> set w"
  shows "first_strip ws (u @ c # r) = None"
  unfolding first_strip_None strip_prefix_None_iff
proof (intro ballI impI allI notI)
  fix w t
  assume w: "w \<in> set ws" "w \<noteq> []" and eq: "u @ c # r = w @ t"
  from assms(1) w have "u \<noteq> w @ t'" for t'
    by (auto simp: first_strip_None strip_prefix_None_iff)
  then have "u \<noteq> w" by (metis append_Nil2)
  with eq \<open>\<And>t'. u \<noteq> w @ t'\<close> obtain q where "w = u @ q" and "q @ t = c # r" and "q \<noteq> []"
    by (metis append_Nil2 append_eq_append_conv2)
  then have "c \<in> set w" by (auto simp: append_eq_Cons_conv)
  with assms(2) w show False by blast
qed

lemma comma_not_whitespace: "\<forall>w \<in> set whitespace. CHR '','' \<notin> set w"
  by (simp add: whitespace_def)

text \<open>\<open>str::to_ascii_lowercase\<close> and \<open>char::is_ascii_hexdigit\<close>, on bytes.\<close>

definition ascii_lower :: "char \<Rightarrow> char" where
  "ascii_lower c =
     (if (65 :: nat) \<le> of_char c \<and> of_char c \<le> (90 :: nat) then char_of (of_char c + 32 :: nat) else c)"

definition to_ascii_lowercase :: "string \<Rightarrow> string" where
  "to_ascii_lowercase s = map ascii_lower s"

definition is_ascii_digit :: "char \<Rightarrow> bool" where
  "is_ascii_digit c \<longleftrightarrow> (48 :: nat) \<le> of_char c \<and> of_char c \<le> (57 :: nat)"

definition is_ascii_hexdigit :: "char \<Rightarrow> bool" where
  "is_ascii_hexdigit c \<longleftrightarrow>
     is_ascii_digit c \<or> (65 :: nat) \<le> of_char c \<and> of_char c \<le> (70 :: nat)
     \<or> (97 :: nat) \<le> of_char c \<and> of_char c \<le> (102 :: nat)"

section \<open>Parsing unsigned integers\<close>

text \<open>
  \<open>str::parse\<close> at an unsigned type: an optional \<open>+\<close>, then at least one decimal digit, and the
  value must fit. A lone \<open>+\<close> and a \<open>-\<close> are invalid digits.
\<close>

fun digits_value :: "nat \<Rightarrow> string \<Rightarrow> nat" where
  "digits_value n [] = n"
| "digits_value n (c # s) = digits_value (10 * n + (of_char c - 48)) s"

definition unsigned_digits :: "string \<Rightarrow> string" where
  "unsigned_digits s = (case s of c # r \<Rightarrow> if c = CHR ''+'' \<and> r \<noteq> [] then r else s | [] \<Rightarrow> s)"

definition parse_uint :: "nat \<Rightarrow> string \<Rightarrow> nat option" where
  "parse_uint bound s =
     (let ds = unsigned_digits s in
      if ds = [] \<or> \<not> list_all is_ascii_digit ds then None
      else if digits_value 0 ds < bound then Some (digits_value 0 ds) else None)"

lemma parse_uint_bound: "parse_uint b s = Some n \<Longrightarrow> n < b"
  by (auto simp: parse_uint_def Let_def split: if_splits)

type_synonym u16 = "16 word"
type_synonym u64 = "64 word"

definition parse_u16 :: "string \<Rightarrow> u16 option" where
  "parse_u16 s = map_option of_nat (parse_uint (2 ^ 16) s)"

definition parse_u64 :: "string \<Rightarrow> u64 option" where
  "parse_u64 s = map_option of_nat (parse_uint (2 ^ 64) s)"

text \<open>\<open>u16::checked_add\<close>.\<close>

definition checked_add_u16 :: "u16 \<Rightarrow> u16 \<Rightarrow> u16 option" where
  "checked_add_u16 a b = (if unat a + unat b < 2 ^ 16 then Some (a + b) else None)"

lemma unat_checked_add_u16: "checked_add_u16 a b = Some c \<Longrightarrow> unat c = unat a + unat b"
  by (auto simp: checked_add_u16_def unat_word_ariths split: if_splits)

text \<open>Decimal printing of a natural number (\<open>Display\<close> of the unsigned types).\<close>

fun show_nat :: "nat \<Rightarrow> string" where
  "show_nat n = (if n < 10 then [char_of (n + 48)] else show_nat (n div 10) @ [char_of (n mod 10 + 48)])"

declare show_nat.simps [simp del]

lemma digits_value_append: "digits_value n (s @ t) = digits_value (digits_value n s) t"
  by (induction s arbitrary: n) auto

lemma of_char_digit: "d < 10 \<Longrightarrow> of_char (char_of (d + 48 :: nat)) = d + 48"
  by (simp add: of_char_of)

lemma digits_value_show_nat: "digits_value 0 (show_nat n) = n"
proof (induction n rule: show_nat.induct)
  case (1 n)
  then show ?case
    by (cases "n < 10") (simp_all add: show_nat.simps [of n] of_char_digit digits_value_append)
qed

lemma is_ascii_digit_char: "d < 10 \<Longrightarrow> is_ascii_digit (char_of (d + 48 :: nat))"
  unfolding is_ascii_digit_def by (simp only: of_char_digit) simp

lemma show_nat_digits: "list_all is_ascii_digit (show_nat n)"
proof (induction n rule: show_nat.induct)
  case (1 n)
  have last: "is_ascii_digit (char_of (n mod 10 + 48))" by (rule is_ascii_digit_char) simp
  show ?case
  proof (cases "n < 10")
    case True
    then have "show_nat n = [char_of (n + 48)]" by (subst show_nat.simps) simp
    with True show ?thesis by (simp add: is_ascii_digit_char)
  next
    case False
    then have "show_nat n = show_nat (n div 10) @ [char_of (n mod 10 + 48)]"
      by (subst show_nat.simps) simp
    with 1 [OF False] last show ?thesis by simp
  qed
qed

lemma show_nat_nonempty [simp]: "show_nat n \<noteq> []"
  by (subst show_nat.simps) simp

lemma digit_not_plus: "\<not> is_ascii_digit (CHR ''+'')"
  by (simp add: is_ascii_digit_def)

lemma parse_uint_show_nat: "n < b \<Longrightarrow> parse_uint b (show_nat n) = Some n"
proof -
  assume "n < b"
  have "unsigned_digits (show_nat n) = show_nat n"
    using show_nat_digits [of n] digit_not_plus
    by (auto simp: unsigned_digits_def split: list.splits)
  with \<open>n < b\<close> show ?thesis
    by (simp add: parse_uint_def show_nat_digits digits_value_show_nat)
qed

lemma parse_u16_show [str_simps]: "parse_u16 (show_nat (unat p)) = Some p"
proof -
  have "unat p < 2 ^ LENGTH(16)" by (rule unsigned_less)
  then show ?thesis by (simp add: parse_u16_def parse_uint_show_nat)
qed

lemma parse_u64_show [str_simps]: "parse_u64 (show_nat (unat p)) = Some p"
proof -
  have "unat p < 2 ^ LENGTH(64)" by (rule unsigned_less)
  then show ?thesis by (simp add: parse_u64_def parse_uint_show_nat)
qed

text \<open>Decimal numerals hold no white space, so trimming leaves them alone.\<close>

lemma trim_id:
  assumes "\<And>w. w \<in> set whitespace \<Longrightarrow> set w \<inter> set s = {}"
  shows "trim s = s"
proof -
  have "first_strip whitespace s = None"
    using assms by (auto simp: first_strip_None strip_prefix_None_iff) (metis Int_iff emptyE list.set_sel(1) hd_append2 UnI1 set_append)
  moreover have "first_strip (map rev whitespace) (rev s) = None"
    using assms by (auto simp: first_strip_None strip_prefix_None_iff)
      (metis Int_iff emptyE list.set_sel(1) UnI1 set_append set_rev rev_is_Nil_conv)
  ultimately show ?thesis by (simp add: trim_def strip_all_id)
qed

lemma digit_not_whitespace: "w \<in> set whitespace \<Longrightarrow> list_all is_ascii_digit s \<Longrightarrow> set w \<inter> set s = {}"
proof -
  have "list_all (\<lambda>w. list_all (\<lambda>c. \<not> is_ascii_digit c) w) whitespace"
    by (simp add: whitespace_def is_ascii_digit_def)
  then show "w \<in> set whitespace \<Longrightarrow> list_all is_ascii_digit s \<Longrightarrow> set w \<inter> set s = {}"
    by (auto simp: list_all_iff)
qed

lemma trim_show_nat [simp, str_simps]: "trim (show_nat n) = show_nat n"
  by (rule trim_id) (simp add: digit_not_whitespace show_nat_digits)

section \<open>Lists and results\<close>

text \<open>\<open>Iterator::collect\<close> into a \<open>Result\<close>: the first error wins.\<close>

fun collect_results :: "('e + 'a) list \<Rightarrow> 'e + 'a list" where
  "collect_results [] = Inr []"
| "collect_results (Inl e # rs) = Inl e"
| "collect_results (Inr x # rs) =
     (case collect_results rs of Inl e \<Rightarrow> Inl e | Inr xs \<Rightarrow> Inr (x # xs))"

lemma collect_results_map_Inr [simp]: "collect_results (map Inr xs) = Inr xs"
  by (induction xs) auto

lemma collect_results_Inr_D: "collect_results rs = Inr xs \<Longrightarrow> rs = map Inr xs"
  by (induction rs arbitrary: xs rule: collect_results.induct) (auto split: sum.splits)

lemma collect_results_Inr: "collect_results rs = Inr xs \<longleftrightarrow> rs = map Inr xs"
  by (auto dest: collect_results_Inr_D)

lemma collect_results_Inl: "collect_results rs = Inl e \<Longrightarrow> Inl e \<in> set rs"
  by (induction rs rule: collect_results.induct) (auto split: sum.splits)

lemma map_filter_append [simp]: "List.map_filter f (xs @ ys) = List.map_filter f xs @ List.map_filter f ys"
  by (simp add: List.map_filter_def)

lemma set_map_filter_iff: "y \<in> set (List.map_filter f xs) \<longleftrightarrow> (\<exists>x \<in> set xs. f x = Some y)"
  by (force simp: List.map_filter_def)

section \<open>Signals\<close>

text \<open>What \<open>tokio::signal\<close> gives a process. \<open>ctrl_c\<close> completes with the signal, or at once with the
  error of its own handler.\<close>

datatype signal = Interrupt "string + unit" | Terminate

end
