(* ===== verification/Json_Value.thy ===== *)
theory Json_Value
  imports Rust_Str
begin

text \<open>
  The values of \<open>serde_json\<close> the sources build and take apart. The crate itself is not under
  \<open>src/\<close>: its text printer and parser stay parameters of the definitions that call them; only
  the documented data type \<open>Value\<close> and the accessors \<open>get\<close>, \<open>as_str\<close>, \<open>as_bool\<close>,
  \<open>insert\<close> and \<open>remove\<close> are written out. \<open>Cargo.lock\<close> builds \<open>serde_json\<close> without
  \<open>indexmap\<close>, so an object is the default \<open>BTreeMap\<close>: its entries are ordered by key.
\<close>

datatype json_number = PosInt nat | NegInt nat | Float u64

datatype json =
    JNull
  | JBool bool
  | JNumber json_number
  | JString string
  | JArray "json list"
  | JObject "(string \<times> json) list"

type_synonym json_map = "(string \<times> json) list"

text \<open>\<open>Map::get\<close>, \<open>Map::insert\<close> and \<open>Map::remove\<close> on ordered entries.\<close>

abbreviation obj_get :: "json_map \<Rightarrow> string \<Rightarrow> json option" where
  "obj_get \<equiv> map_of"

fun obj_insert :: "string \<Rightarrow> json \<Rightarrow> json_map \<Rightarrow> json_map" where
  "obj_insert k v [] = [(k, v)]"
| "obj_insert k v ((k', v') # m) =
     (if k = k' then (k, v) # m
      else if k < k' then (k, v) # (k', v') # m
      else (k', v') # obj_insert k v m)"

definition obj_remove :: "string \<Rightarrow> json_map \<Rightarrow> json_map" where
  "obj_remove k m = filter (\<lambda>e. fst e \<noteq> k) m"

text \<open>The well-formed maps: keys strictly increasing.\<close>

definition obj_ok :: "json_map \<Rightarrow> bool" where
  "obj_ok m \<longleftrightarrow> sorted_wrt (<) (map fst m)"

lemma obj_get_insert: "obj_get (obj_insert k v m) = (obj_get m)(k \<mapsto> v)"
  by (induction k v m rule: obj_insert.induct) (auto simp: fun_eq_iff)

lemma obj_get_remove: "obj_get (obj_remove k m) = (obj_get m)(k := None)"
  unfolding obj_remove_def by (induction m) (auto simp: fun_eq_iff)

lemmas obj_simps = obj_get_insert obj_get_remove

lemma fst_set_obj_insert: "fst ` set (obj_insert k v m) = insert k (fst ` set m)"
  by (induction k v m rule: obj_insert.induct) auto

lemma obj_ok_Nil [simp]: "obj_ok []"
  by (simp add: obj_ok_def)

lemma obj_ok_Cons: "obj_ok ((k, v) # m) \<longleftrightarrow> (\<forall>k' \<in> fst ` set m. k < k') \<and> obj_ok m"
  by (auto simp: obj_ok_def)

lemma obj_ok_insert: "obj_ok m \<Longrightarrow> obj_ok (obj_insert k v m)"
proof (induction k v m rule: obj_insert.induct)
  case (1 k v)
  show ?case by (simp add: obj_ok_Cons)
next
  case (2 k v k' v' m)
  then show ?case by (auto simp: obj_ok_Cons fst_set_obj_insert simp del: image_iff)
qed

lemma obj_ok_remove: "obj_ok m \<Longrightarrow> obj_ok (obj_remove k m)"
  unfolding obj_ok_def obj_remove_def sorted_wrt_map by (rule sorted_wrt_filter)

lemmas obj_ok_intros [intro] = obj_ok_Nil obj_ok_insert obj_ok_remove

text \<open>Two well-formed maps with the same entries are the same map.\<close>

lemma obj_ok_ext: "obj_ok m \<Longrightarrow> obj_ok m' \<Longrightarrow> obj_get m = obj_get m' \<Longrightarrow> m = m'"
proof -
  assume ok: "obj_ok m" "obj_ok m'" and eq: "obj_get m = obj_get m'"
  from ok have "distinct (map fst m)" and "distinct (map fst m')"
    by (auto simp: obj_ok_def strict_sorted_iff)
  then have "set m = set m'"
    using eq map_of_eq_Some_iff by (metis subset_antisym subrelI)
  moreover have "sorted (map fst m)" and "sorted (map fst m')"
    using ok by (auto simp: obj_ok_def strict_sorted_iff)
  moreover have "inj_on fst (set m \<union> set m')"
    using \<open>set m = set m'\<close> \<open>distinct (map fst m)\<close> by (simp add: distinct_map)
  ultimately show "m = m'"
    using \<open>distinct (map fst m)\<close> \<open>distinct (map fst m')\<close> map_sorted_distinct_set_unique
    by metis
qed

text \<open>The accessors of \<open>Value\<close>: \<open>get\<close> with a key, \<open>as_str\<close>, \<open>as_bool\<close>, \<open>is_object\<close>.\<close>

fun jget :: "json \<Rightarrow> string \<Rightarrow> json option" where
  "jget (JObject m) k = obj_get m k"
| "jget _ k = None"

fun as_str :: "json \<Rightarrow> string option" where
  "as_str (JString s) = Some s"
| "as_str _ = None"

fun as_bool :: "json \<Rightarrow> bool option" where
  "as_bool (JBool b) = Some b"
| "as_bool _ = None"

fun is_object :: "json \<Rightarrow> bool" where
  "is_object (JObject m) = True"
| "is_object _ = False"

lemma is_object_iff: "is_object v \<longleftrightarrow> (\<exists>m. v = JObject m)"
  by (cases v) auto

lemma as_str_Some: "as_str v = Some s \<longleftrightarrow> v = JString s"
  by (cases v) auto

text \<open>An object literal of the \<open>json!\<close> macro inserts its entries from left to right.\<close>

definition json_object :: "(string \<times> json) list \<Rightarrow> json" where
  "json_object kvs = JObject (fold (\<lambda>(k, v) m. obj_insert k v m) kvs [])"

lemma obj_get_fold_insert:
  "obj_get (fold (\<lambda>(k, v) m. obj_insert k v m) kvs m) = obj_get m ++ map_of (rev kvs)"
  by (induction kvs arbitrary: m) (auto simp: obj_get_insert fun_eq_iff map_add_def split: option.splits)

lemma jget_json_object: "jget (json_object kvs) = map_of (rev kvs)"
  by (simp add: json_object_def fun_eq_iff obj_get_fold_insert)

text \<open>A value is well-formed when all its objects are, at every depth.\<close>

fun json_ok :: "json \<Rightarrow> bool" where
  "json_ok (JArray vs) \<longleftrightarrow> list_all json_ok vs"
| "json_ok (JObject m) \<longleftrightarrow> obj_ok m \<and> list_all (\<lambda>e. json_ok (snd e)) m"
| "json_ok _ \<longleftrightarrow> True"

lemma json_ok_insert: "json_ok (JObject m) \<Longrightarrow> json_ok v \<Longrightarrow> json_ok (JObject (obj_insert k v m))"
proof -
  have "list_all (\<lambda>e. json_ok (snd e)) m \<Longrightarrow> json_ok v \<Longrightarrow> list_all (\<lambda>e. json_ok (snd e)) (obj_insert k v m)"
    by (induction k v m rule: obj_insert.induct) auto
  then show "json_ok (JObject m) \<Longrightarrow> json_ok v \<Longrightarrow> json_ok (JObject (obj_insert k v m))" by auto
qed

lemma json_ok_remove: "json_ok (JObject m) \<Longrightarrow> json_ok (JObject (obj_remove k m))"
  by (auto simp: obj_remove_def list_all_iff obj_ok_remove [unfolded obj_remove_def])

lemma json_ok_get: "json_ok (JObject m) \<Longrightarrow> obj_get m k = Some v \<Longrightarrow> json_ok v"
  by (drule map_of_SomeD) (force simp: list_all_iff)

lemma json_ok_object:
  assumes "list_all (\<lambda>e. json_ok (snd e)) kvs"
  shows "json_ok (json_object kvs)"
proof -
  have "json_ok (JObject m) \<Longrightarrow> json_ok (JObject (fold (\<lambda>(k, v) m. obj_insert k v m) kvs m))" for m
    using assms
  proof (induction kvs arbitrary: m)
    case (Cons e kvs)
    then show ?case using json_ok_insert [of m "snd e" "fst e"] by (cases e) auto
  qed simp
  then show ?thesis by (simp add: json_object_def)
qed

end
