(* ===== verification/Translate.thy ===== *)
theory Translate
  imports Json_Value
begin

text \<open>
  \<open>crates/outlay-shim/src/translate.rs\<close>: the dispatch of inbound client frames and the synthesis of
  OK, NOTICE and CLOSED frames. \<open>from_str\<close> stands for \<open>serde_json::from_str\<close> at \<open>Vec<Value>\<close>
  (\<open>None\<close> for an error), \<open>disp\<close> for the text form of a JSON value.
\<close>

datatype client_msg =
    Req string "json list"
  | Close string
  | ClientPublish json

definition parse_client_frame :: "(string \<Rightarrow> json list option) \<Rightarrow> string \<Rightarrow> client_msg option" where
  "parse_client_frame from_str text =
     (case from_str text of
        None \<Rightarrow> None
      | Some [] \<Rightarrow> None
      | Some (first # args) \<Rightarrow>
          (case as_str first of
             None \<Rightarrow> None
           | Some kind \<Rightarrow>
               if kind = ''REQ'' then
                 (case args of
                    [] \<Rightarrow> None
                  | a # filters \<Rightarrow> (case as_str a of None \<Rightarrow> None | Some sub_id \<Rightarrow> Some (Req sub_id filters)))
               else if kind = ''CLOSE'' then
                 (case args of
                    [] \<Rightarrow> None
                  | a # _ \<Rightarrow> (case as_str a of None \<Rightarrow> None | Some sub_id \<Rightarrow> Some (Close sub_id)))
               else if kind = ''EVENT'' then
                 (case args of [] \<Rightarrow> None | e # _ \<Rightarrow> Some (ClientPublish e))
               else None))"

definition ok_frame :: "(json \<Rightarrow> string) \<Rightarrow> string \<Rightarrow> bool \<Rightarrow> string \<Rightarrow> string" where
  "ok_frame disp eid accepted msg =
     disp (JArray [JString ''OK'', JString eid, JBool accepted, JString msg])"

definition notice_frame :: "(json \<Rightarrow> string) \<Rightarrow> string \<Rightarrow> string" where
  "notice_frame disp msg = disp (JArray [JString ''NOTICE'', JString msg])"

definition closed_frame :: "(json \<Rightarrow> string) \<Rightarrow> string \<Rightarrow> string \<Rightarrow> string" where
  "closed_frame disp sub_id msg = disp (JArray [JString ''CLOSED'', JString sub_id, JString msg])"

lemmas frame_defs [handler_defs] = ok_frame_def notice_frame_def closed_frame_def

text \<open>The arrays a client message can have come from.\<close>

fun client_arrays :: "client_msg \<Rightarrow> json list \<Rightarrow> bool" where
  "client_arrays (Req sub_id filters) arr \<longleftrightarrow> arr = JString ''REQ'' # JString sub_id # filters"
| "client_arrays (Close sub_id) arr \<longleftrightarrow> take 2 arr = [JString ''CLOSE'', JString sub_id]"
| "client_arrays (ClientPublish e) arr \<longleftrightarrow> take 2 arr = [JString ''EVENT'', e]"

lemma take2_iff: "take 2 xs = [a, b] \<longleftrightarrow> (\<exists>rest. xs = a # b # rest)"
  by (cases xs; cases "tl xs") auto

section \<open>Properties\<close>

text \<open>C36: a text frame is a client message exactly when it is a JSON array that starts with that
  message's kind and arguments. REQ keeps every filter in order and unchanged (none at all
  included); elements after the subscription id of CLOSE and after the event of EVENT are ignored,
  so an EVENT array of three elements is taken as a publish of its second one.\<close>
theorem parse_client_frame_iff:
  "parse_client_frame from_str txt = Some m \<longleftrightarrow> (\<exists>arr. from_str txt = Some arr \<and> client_arrays m arr)"
  by (cases m)
    (auto simp: parse_client_frame_def as_str_Some take2_iff
      split: option.splits list.splits if_splits)

text \<open>The frames the shim sends are never taken for client messages when they come back in:
  wherever the parser reads back the array that was printed, OK, NOTICE and CLOSED frames are not
  recognised.\<close>

lemma server_frames_not_client:
  assumes "\<And>kind args. kind \<in> {''OK'', ''NOTICE'', ''CLOSED''} \<Longrightarrow>
             from_str (disp (JArray (JString kind # args))) = Some (JString kind # args)
             \<or> from_str (disp (JArray (JString kind # args))) = None"
  shows "parse_client_frame from_str (ok_frame disp eid b msg) = None
    \<and> parse_client_frame from_str (notice_frame disp msg) = None
    \<and> parse_client_frame from_str (closed_frame disp sub_id msg) = None"
proof -
  have none: "parse_client_frame from_str (disp (JArray (JString kind # args))) = None"
    if "kind \<in> {''OK'', ''NOTICE'', ''CLOSED''}" for kind args
    using assms [OF that, of args] that by (auto simp: parse_client_frame_def)
  show ?thesis by (simp add: frame_defs none)
qed

end
