(* ===== verification/Path.thy ===== *)
theory Path
  imports Rust_Str
begin

text \<open>
  \<open>crates/outlay-shim/src/path.rs\<close>: a path segment as a reference to a server's public key. The
  key and NIP-19 codecs of \<open>nostr-sdk\<close> are arguments: \<open>from_hex\<close>, \<open>to_hex\<close>, \<open>from_bech32\<close> and
  \<open>relay_str\<close> (\<open>RelayUrl::as_str_without_trailing_slash\<close>).
\<close>

record parsed_path =
  hex :: string
  relay_hints :: "string list"

datatype path_error = NotAPubkey | Invalid string

fun path_error_display :: "path_error \<Rightarrow> string" where
  "path_error_display NotAPubkey = ''not a server pubkey (expected 64-char hex, npub, or nprofile)''"
| "path_error_display (Invalid e) = ''invalid pubkey: '' @ e"

datatype ('pk, 'r) nip19 = NPubkey 'pk | NProfile 'pk "'r list" | NOther

definition looks_hex :: "string \<Rightarrow> bool" where
  "looks_hex s \<longleftrightarrow> length s = 64 \<and> list_all is_ascii_hexdigit s"

definition parse_path ::
  "(string \<Rightarrow> string + 'pk) \<Rightarrow> ('pk \<Rightarrow> string) \<Rightarrow> (string \<Rightarrow> string + ('pk, 'r) nip19) \<Rightarrow> ('r \<Rightarrow> string)
   \<Rightarrow> string \<Rightarrow> path_error + parsed_path"
where
  "parse_path from_hex to_hex from_bech32 relay_str raw =
     (let s = trim raw in
      if s = [] then Inl NotAPubkey
      else if looks_hex s then
        (case from_hex s of
           Inl e \<Rightarrow> Inl (Invalid e)
         | Inr pk \<Rightarrow> Inr \<lparr>hex = to_hex pk, relay_hints = []\<rparr>)
      else
        (case from_bech32 s of
           Inr (NPubkey pk) \<Rightarrow> Inr \<lparr>hex = to_hex pk, relay_hints = []\<rparr>
         | Inr (NProfile pk relays) \<Rightarrow> Inr \<lparr>hex = to_hex pk, relay_hints = map relay_str relays\<rparr>
         | Inr NOther \<Rightarrow> Inl NotAPubkey
         | Inl e \<Rightarrow> Inl (Invalid e)))"

text \<open>The key and the hints a segment stands for, however it is encoded.\<close>

definition referenced ::
  "(string \<Rightarrow> string + 'pk) \<Rightarrow> (string \<Rightarrow> string + ('pk, 'r) nip19) \<Rightarrow> string \<Rightarrow> ('pk \<times> 'r list) option"
where
  "referenced from_hex from_bech32 raw =
     (let s = trim raw in
      if s = [] then None
      else if looks_hex s then (case from_hex s of Inr pk \<Rightarrow> Some (pk, []) | Inl _ \<Rightarrow> None)
      else (case from_bech32 s of
              Inr (NPubkey pk) \<Rightarrow> Some (pk, [])
            | Inr (NProfile pk relays) \<Rightarrow> Some (pk, relays)
            | _ \<Rightarrow> None))"

lemma parse_path_referenced:
  "parse_path from_hex to_hex from_bech32 relay_str raw = Inr p \<longleftrightarrow>
     (\<exists>pk rs. referenced from_hex from_bech32 raw = Some (pk, rs)
            \<and> p = \<lparr>hex = to_hex pk, relay_hints = map relay_str rs\<rparr>)"
  by (auto simp: parse_path_def referenced_def Let_def split: sum.splits nip19.splits if_splits)

section \<open>Properties\<close>

text \<open>C38: a segment is accepted exactly when it encodes a public key (64 hex digits, npub or
  nprofile, white space around it ignored); the result is the key's canonical hex form with the
  nprofile's relay hints normalised in order. So two encodings of one key give the same cache key,
  and encodings of keys with different hex forms never do.\<close>
theorem parse_path_canonical:
  "(parse_path from_hex to_hex from_bech32 relay_str raw = Inr p \<longleftrightarrow>
     (\<exists>pk rs. referenced from_hex from_bech32 raw = Some (pk, rs)
            \<and> p = \<lparr>hex = to_hex pk, relay_hints = map relay_str rs\<rparr>))
   \<and> (referenced from_hex from_bech32 raw = Some (pk, rs)
      \<and> referenced from_hex from_bech32 raw' = Some (pk', rs') \<longrightarrow>
        (\<exists>p p'. parse_path from_hex to_hex from_bech32 relay_str raw = Inr p
           \<and> parse_path from_hex to_hex from_bech32 relay_str raw' = Inr p'
           \<and> (hex p = hex p' \<longleftrightarrow> to_hex pk = to_hex pk')))"
  unfolding parse_path_referenced by auto

theorem parse_path_canonical_witness:
  "\<exists>p p'. parse_path (\<lambda>s. Inl s) (\<lambda>k. if k then ''aa'' else ''bb'')
            (\<lambda>s. if s = ''npub1'' then Inr (NPubkey True) else Inr (NProfile True [()])) (\<lambda>_. ''wss://r'')
            '' npub1'' = Inr p
        \<and> parse_path (\<lambda>s. Inl s) (\<lambda>k. if k then ''aa'' else ''bb'')
            (\<lambda>s. if s = ''npub1'' then Inr (NPubkey True) else Inr (NProfile True [()])) (\<lambda>_. ''wss://r'')
            ''nprofile1'' = Inr p'
        \<and> hex p = hex p'"
  using parse_path_canonical [of "\<lambda>s. Inl s" "\<lambda>k. if k then ''aa'' else ''bb''"
      "\<lambda>s. if s = ''npub1'' then Inr (NPubkey True) else Inr (NProfile True [()])" "\<lambda>_. ''wss://r''"
      "'' npub1''" "\<lparr>hex = [], relay_hints = []\<rparr>" True "[]" "''nprofile1''" True "[()]"]
  by (simp add: referenced_def looks_hex_def trim_def whitespace_def strip_all.simps)

text \<open>White space around the segment never matters, and what is rejected is told apart: blank
  segments and other NIP-19 entities are no public key, failures of the codecs are passed on.\<close>

lemma parse_path_errors:
  "parse_path from_hex to_hex from_bech32 relay_str (trim raw)
     = parse_path from_hex to_hex from_bech32 relay_str raw
   \<and> (parse_path from_hex to_hex from_bech32 relay_str raw = Inl NotAPubkey \<longleftrightarrow>
        trim raw = [] \<or> (\<not> looks_hex (trim raw) \<and> from_bech32 (trim raw) = Inr NOther))
   \<and> (parse_path from_hex to_hex from_bech32 relay_str raw = Inl (Invalid e) \<longleftrightarrow>
        trim raw \<noteq> [] \<and> (if looks_hex (trim raw) then from_hex (trim raw) = Inl e
                          else from_bech32 (trim raw) = Inl e))"
  by (auto simp: parse_path_def Let_def split: sum.splits nip19.splits if_splits)

end
