(* ===== verification/Env_Reader.thy ===== *)
theory Env_Reader
  imports Rust_Str
begin

text \<open>
  What the two \<open>config.rs\<close> share. Both crates read an environment map with a helper
  \<open>opt_string\<close> of their own; the locale \<open>env_reader\<close> is the contract of that helper, and the
  facts about comma-separated lists and about padding of values are proved once under it. The
  theories \<open>Config\<close> and \<open>Shim_Config\<close> interpret it on their \<open>opt_string\<close>.
\<close>

type_synonym env = "string \<rightharpoonup> string"

text \<open>The comma-separated lists: pieces trimmed, empty ones dropped.\<close>

definition comma_list :: "string \<Rightarrow> string list" where
  "comma_list raw = filter (\<lambda>s. s \<noteq> []) (map trim (split_on (CHR '','') raw))"

text \<open>A usable list entry: trimmed, not empty, and without a comma.\<close>

definition url_entry :: "string \<Rightarrow> bool" where
  "url_entry u \<longleftrightarrow> u \<noteq> [] \<and> trim u = u \<and> CHR '','' \<notin> set u"

lemma comma_list_entries: "u \<in> set (comma_list raw) \<Longrightarrow> url_entry u"
  unfolding comma_list_def url_entry_def
  using split_on_no_sep set_trim by fastforce

text \<open>Joining usable entries with commas and splitting again gives them back.\<close>

fun comma_join :: "string list \<Rightarrow> string" where
  "comma_join [] = []"
| "comma_join [u] = u"
| "comma_join (u # v # us) = u @ CHR '','' # comma_join (v # us)"

lemma split_comma_join:
  "us \<noteq> [] \<Longrightarrow> \<forall>u \<in> set us. CHR '','' \<notin> set u \<Longrightarrow> split_on (CHR '','') (comma_join us) = us"
  by (induction us rule: comma_join.induct) (auto simp: split_on_single split_on_append)

lemma comma_list_join: "list_all url_entry us \<Longrightarrow> comma_list (comma_join us) = us"
proof (cases "us = []")
  case True
  have "trim [] = []" using trim_sublist [of "[]"] by simp
  with True show ?thesis by (simp add: comma_list_def)
next
  case False
  assume "list_all url_entry us"
  then have "map trim us = us" and "filter (\<lambda>s. s \<noteq> []) us = us" and "\<forall>u \<in> set us. CHR '','' \<notin> set u"
    by (auto simp: list_all_iff url_entry_def map_idI)
  with False show ?thesis by (simp add: comma_list_def split_comma_join)
qed

lemma comma_join_front: "us \<noteq> [] \<Longrightarrow> comma_join us = hd us \<or> (\<exists>r. comma_join us = hd us @ CHR '','' # r)"
  by (cases us rule: comma_join.cases) auto

lemma comma_join_back: "us \<noteq> [] \<Longrightarrow> comma_join us = last us \<or> (\<exists>p. comma_join us = p @ CHR '','' # last us)"
proof (induction us rule: comma_join.induct)
  case (3 u v us)
  then obtain p where "comma_join (v # us) = last (v # us) \<or> comma_join (v # us) = p @ CHR '','' # last (v # us)"
    by blast
  then have "comma_join (u # v # us) = u @ CHR '','' # last (v # us)
      \<or> comma_join (u # v # us) = (u @ CHR '','' # p) @ CHR '','' # last (v # us)"
    by auto
  then show ?case by (metis last_ConsR list.distinct(1))
qed auto

lemma comma_join_nonempty: "us \<noteq> [] \<Longrightarrow> list_all url_entry us \<Longrightarrow> comma_join us \<noteq> []"
  using comma_join_front [of us] by (auto simp: url_entry_def list_all_iff)

lemma trim_comma_join:
  assumes "us \<noteq> []" and "list_all url_entry us"
  shows "trim (comma_join us) = comma_join us"
proof (rule trim_stuck)
  have ends: "trim (hd us) = hd us" "trim (last us) = last us"
    using assms by (auto simp: list_all_iff url_entry_def)
  then show "first_strip whitespace (comma_join us) = None"
    using comma_join_front [OF assms(1)] comma_not_whitespace
    by (auto simp: trim_fixed intro: first_strip_separated)
  have sep: "\<forall>w \<in> set (map rev whitespace). CHR '','' \<notin> set w"
    using comma_not_whitespace by auto
  show "first_strip (map rev whitespace) (rev (comma_join us)) = None"
    using comma_join_back [OF assms(1)] ends(2) first_strip_separated [OF _ sep]
    by (auto simp: trim_fixed)
qed

locale env_reader =
  fixes read :: "env \<Rightarrow> string \<Rightarrow> string option"
  assumes read_unset: "env n = None \<Longrightarrow> read env n = None"
    and read_blank: "env n = Some s \<Longrightarrow> trim s = [] \<Longrightarrow> read env n = None"
    and read_set: "env n = Some s \<Longrightarrow> trim s \<noteq> [] \<Longrightarrow> read env n = Some (trim s)"
begin

lemma read_eq:
  "read env n = (case env n of None \<Rightarrow> None | Some s \<Rightarrow> if trim s = [] then None else Some (trim s))"
  by (cases "env n") (simp_all add: read_unset read_blank read_set)

lemma read_trimmed: "read env n = Some v \<Longrightarrow> v \<noteq> [] \<and> trim v = v"
  by (auto simp: read_eq split: option.splits if_splits)

lemma read_padding:
  "map_option trim (env n) = map_option trim (env' n) \<Longrightarrow> read env n = read env' n"
  by (cases "env n"; cases "env' n") (auto simp: read_eq)

lemma read_blank_unset: "trim s = [] \<Longrightarrow> read (env(n \<mapsto> s)) = read (env(n := None))"
  by (auto simp: read_eq fun_eq_iff)

lemma read_written: "trim v = v \<Longrightarrow> v \<noteq> [] \<Longrightarrow> read (env(n \<mapsto> v)) n = Some v"
  by (simp add: read_eq)

end

end
