(* ===== verification/Config.thy ===== *)
theory Config
  imports Env_Reader
begin

text \<open>
  \<open>crates/outlay/src/config.rs\<close>: the server configuration read from an environment map. The
  compile-time feature \<open>bundled-relay\<close> is the argument \<open>bundled_relay\<close>; without it the field
  \<open>bundled\<close> does not exist, which is \<open>None\<close> here. Loading \<open>.env\<close> files and the live environment
  is the function \<open>load_env\<close>.
\<close>

datatype gift_wrap_mode = GwPersistent | GwEphemeral | GwOptional

record bundled_config =
  backend :: string
  db_path :: string
  bundled_port :: u16

record server_config =
  proxy_relay_url :: "string option"
  cvm_relay_urls :: "string list"
  private_key_hex :: "string option"
  server_name :: string
  server_about :: "string option"
  is_announced :: bool
  server_gift_wrap :: gift_wrap_mode
  bundled :: "bundled_config option"

datatype config_error =
    MissingProxyRelayUrl
  | InvalidBoolean string
  | InvalidGiftWrapMode string

definition default_cvm_relay_urls :: "string list" where
  "default_cvm_relay_urls = [''wss://nostr.wtf'']"

definition opt_string :: "env \<Rightarrow> string \<Rightarrow> string option" where
  "opt_string env name =
     (case map_option trim (env name) of
        Some s \<Rightarrow> if s \<noteq> [] then Some s else None
      | None \<Rightarrow> None)"

interpretation server_env: env_reader opt_string
  by unfold_locales (simp_all add: opt_string_def)

definition opt_bool :: "env \<Rightarrow> string \<Rightarrow> config_error + bool option" where
  "opt_bool env name =
     (case opt_string env name of
        None \<Rightarrow> Inr None
      | Some s \<Rightarrow>
          if s = ''true'' \<or> s = ''1'' then Inr (Some True)
          else if s = ''false'' \<or> s = ''0'' then Inr (Some False)
          else Inl (InvalidBoolean name))"

definition read_bundled :: "env \<Rightarrow> bundled_config" where
  "read_bundled env =
     \<lparr>backend = (case opt_string env ''OUTLAY_BUNDLED_BACKEND'' of Some s \<Rightarrow> s | None \<Rightarrow> ''sqlite''),
      db_path = (case opt_string env ''OUTLAY_BUNDLED_DB_PATH'' of Some s \<Rightarrow> s | None \<Rightarrow> ''outlay-relay.db''),
      bundled_port =
        (case Option.bind (opt_string env ''OUTLAY_BUNDLED_PORT'') parse_u16 of Some p \<Rightarrow> p | None \<Rightarrow> 0)\<rparr>"

definition read_cvm_relay_urls :: "env \<Rightarrow> string list" where
  "read_cvm_relay_urls env =
     (case opt_string env ''OUTLAY_CVM_RELAYS'' of
        Some raw \<Rightarrow> (let urls = comma_list raw in if urls = [] then default_cvm_relay_urls else urls)
      | None \<Rightarrow> default_cvm_relay_urls)"

definition read_gift_wrap :: "env \<Rightarrow> config_error + gift_wrap_mode" where
  "read_gift_wrap env =
     (case opt_string env ''OUTLAY_GIFT_WRAP_MODE'' of
        None \<Rightarrow> Inr GwEphemeral
      | Some s \<Rightarrow>
          if s = ''ephemeral'' then Inr GwEphemeral
          else if s = ''persistent'' then Inr GwPersistent
          else if s = ''optional'' then Inr GwOptional
          else Inl (InvalidGiftWrapMode s))"

definition read_server_config :: "bool \<Rightarrow> env \<Rightarrow> config_error + server_config" where
  "read_server_config bundled_relay env =
     (let proxy_url = opt_string env ''OUTLAY_PROXY_RELAY_URL'' in
      if proxy_url = None \<and> \<not> bundled_relay then Inl MissingProxyRelayUrl
      else
        (case read_gift_wrap env of
           Inl e \<Rightarrow> Inl e
         | Inr gw \<Rightarrow>
             (case opt_bool env ''OUTLAY_ANNOUNCED'' of
                Inl e \<Rightarrow> Inl e
              | Inr announced \<Rightarrow>
                  Inr \<lparr>proxy_relay_url = proxy_url,
                       cvm_relay_urls = read_cvm_relay_urls env,
                       private_key_hex = opt_string env ''OUTLAY_SERVER_PRIVATE_KEY'',
                       server_name =
                         (case opt_string env ''OUTLAY_SERVER_NAME'' of Some s \<Rightarrow> s | None \<Rightarrow> ''outlay''),
                       server_about = opt_string env ''OUTLAY_SERVER_ABOUT'',
                       is_announced = (case announced of Some b \<Rightarrow> b | None \<Rightarrow> False),
                       server_gift_wrap = gw,
                       bundled = (if bundled_relay then Some (read_bundled env) else None)\<rparr>)))"

text \<open>
  \<open>load\<close>: \<open>.env\<close>, then \<open>.env.local\<close> are added to the live environment; a variable that is
  already there keeps its value (the documented behaviour of \<open>dotenvy\<close>), and a file that is missing
  or unreadable is skipped. A file is the environment it parses to.
\<close>

definition add_dotenv :: "env option \<Rightarrow> env \<Rightarrow> env" where
  "add_dotenv file env = (case file of Some m \<Rightarrow> m ++ env | None \<Rightarrow> env)"

definition load_env :: "env option \<Rightarrow> env option \<Rightarrow> env \<Rightarrow> env" where
  "load_env dotenv dotenv_local live = add_dotenv dotenv_local (add_dotenv dotenv live)"

definition load_config :: "bool \<Rightarrow> env option \<Rightarrow> env option \<Rightarrow> env \<Rightarrow> config_error + server_config" where
  "load_config bundled_relay dotenv dotenv_local live =
     read_server_config bundled_relay (load_env dotenv dotenv_local live)"

section \<open>Lemmas\<close>

lemma url_entry_default: "list_all url_entry default_cvm_relay_urls"
  by (simp add: default_cvm_relay_urls_def url_entry_def trim_def whitespace_def strip_all.simps)

lemma read_cvm_relay_urls_ok:
  "read_cvm_relay_urls env \<noteq> [] \<and> list_all url_entry (read_cvm_relay_urls env)"
  using url_entry_default
  by (auto simp: read_cvm_relay_urls_def Let_def list_all_iff default_cvm_relay_urls_def
           dest: comma_list_entries split: option.splits)

lemma read_server_config_cong:
  assumes "\<And>n. opt_string env n = opt_string env' n"
  shows "read_server_config f env = read_server_config f env'"
  unfolding read_server_config_def read_gift_wrap_def opt_bool_def read_bundled_def
    read_cvm_relay_urls_def assms by (rule refl)

text \<open>The environment that spells a configuration out, and when it can.\<close>

definition server_environment :: "server_config \<Rightarrow> env" where
  "server_environment c =
     [''OUTLAY_CVM_RELAYS'' \<mapsto> comma_join (cvm_relay_urls c),
      ''OUTLAY_SERVER_NAME'' \<mapsto> server_name c,
      ''OUTLAY_ANNOUNCED'' \<mapsto> (if is_announced c then ''true'' else ''false''),
      ''OUTLAY_GIFT_WRAP_MODE'' \<mapsto>
        (case server_gift_wrap c of
           GwPersistent \<Rightarrow> ''persistent'' | GwEphemeral \<Rightarrow> ''ephemeral'' | GwOptional \<Rightarrow> ''optional'')]
     (''OUTLAY_PROXY_RELAY_URL'' := proxy_relay_url c,
      ''OUTLAY_SERVER_PRIVATE_KEY'' := private_key_hex c,
      ''OUTLAY_SERVER_ABOUT'' := server_about c,
      ''OUTLAY_BUNDLED_BACKEND'' := map_option backend (bundled c),
      ''OUTLAY_BUNDLED_DB_PATH'' := map_option db_path (bundled c),
      ''OUTLAY_BUNDLED_PORT'' := map_option (\<lambda>b. show_nat (unat (bundled_port b))) (bundled c))"

definition plain_value :: "string \<Rightarrow> bool" where
  "plain_value s \<longleftrightarrow> s \<noteq> [] \<and> trim s = s"

definition plain_option :: "string option \<Rightarrow> bool" where
  "plain_option x \<longleftrightarrow> (case x of None \<Rightarrow> True | Some s \<Rightarrow> plain_value s)"

definition server_config_ok :: "bool \<Rightarrow> server_config \<Rightarrow> bool" where
  "server_config_ok bundled_relay c \<longleftrightarrow>
     cvm_relay_urls c \<noteq> [] \<and> list_all url_entry (cvm_relay_urls c)
     \<and> plain_option (proxy_relay_url c) \<and> plain_option (private_key_hex c)
     \<and> plain_option (server_about c) \<and> plain_value (server_name c)
     \<and> (proxy_relay_url c = None \<longrightarrow> bundled_relay)
     \<and> (case bundled c of
          None \<Rightarrow> \<not> bundled_relay
        | Some b \<Rightarrow> bundled_relay \<and> plain_value (backend b) \<and> plain_value (db_path b))"

lemma plain_option_read: "plain_option (opt_string env n)"
  using server_env.read_trimmed [of env n] by (auto simp: plain_option_def plain_value_def split: option.splits)

lemma plain_value_read:
  "plain_value d \<Longrightarrow> plain_value (case opt_string env n of Some s \<Rightarrow> s | None \<Rightarrow> d)"
  using server_env.read_trimmed [of env n] by (auto simp: plain_value_def split: option.splits)

lemma plain_defaults: "plain_value ''outlay''" "plain_value ''sqlite''" "plain_value ''outlay-relay.db''"
  by (simp_all add: plain_value_def trim_def whitespace_def strip_all.simps)

lemma trim_words:
  "trim ''true'' = ''true''" "trim ''false'' = ''false''" "trim ''persistent'' = ''persistent''"
  "trim ''ephemeral'' = ''ephemeral''" "trim ''optional'' = ''optional''"
  by (simp_all add: trim_def whitespace_def strip_all.simps)

lemma opt_string_plain: "env n = x \<Longrightarrow> plain_option x \<Longrightarrow> opt_string env n = x"
  by (auto simp: opt_string_def plain_option_def plain_value_def split: option.splits)

lemma read_server_config_Inr:
  "read_server_config f env = Inr c \<Longrightarrow>
     proxy_relay_url c = opt_string env ''OUTLAY_PROXY_RELAY_URL''
     \<and> (proxy_relay_url c = None \<longrightarrow> f)
     \<and> cvm_relay_urls c = read_cvm_relay_urls env
     \<and> private_key_hex c = opt_string env ''OUTLAY_SERVER_PRIVATE_KEY''
     \<and> server_about c = opt_string env ''OUTLAY_SERVER_ABOUT''
     \<and> server_name c = (case opt_string env ''OUTLAY_SERVER_NAME'' of Some s \<Rightarrow> s | None \<Rightarrow> ''outlay'')
     \<and> bundled c = (if f then Some (read_bundled env) else None)"
  by (auto simp: read_server_config_def Let_def split: if_splits sum.splits)

section \<open>Properties\<close>

text \<open>Whatever the environment holds, a configuration that is read is well-formed: at least one
  CVM relay, every relay trimmed, non-empty and without a comma, every other string trimmed and
  non-empty, and an upstream URL unless a bundled relay is compiled in.\<close>

lemma server_config_wellformed:
  assumes "read_server_config f env = Inr c"
  shows "server_config_ok f c"
  using read_server_config_Inr [OF assms] read_cvm_relay_urls_ok [of env] plain_option_read
    plain_value_read [OF plain_defaults(1)] plain_value_read [OF plain_defaults(2)]
    plain_value_read [OF plain_defaults(3)]
  by (auto simp: server_config_ok_def read_bundled_def)

text \<open>C40: every error of the configuration, with its precedence: no upstream URL and no bundled
  relay, then a gift-wrap mode outside the three names, then an announcement flag outside the four
  spellings, which is reported by the variable's name.\<close>
theorem server_config_errors:
  "read_server_config f env = Inl e \<longleftrightarrow>
     (if opt_string env ''OUTLAY_PROXY_RELAY_URL'' = None \<and> \<not> f then e = MissingProxyRelayUrl
      else
        (\<exists>s. opt_string env ''OUTLAY_GIFT_WRAP_MODE'' = Some s
           \<and> s \<notin> {''ephemeral'', ''persistent'', ''optional''} \<and> e = InvalidGiftWrapMode s)
        \<or> (opt_string env ''OUTLAY_GIFT_WRAP_MODE''
              \<in> {None, Some ''ephemeral'', Some ''persistent'', Some ''optional''}
           \<and> (\<exists>s. opt_string env ''OUTLAY_ANNOUNCED'' = Some s
                \<and> s \<notin> {''true'', ''1'', ''false'', ''0''})
           \<and> e = InvalidBoolean ''OUTLAY_ANNOUNCED''))"
proof (cases "opt_string env ''OUTLAY_PROXY_RELAY_URL'' = None \<and> \<not> f")
  case True
  then show ?thesis by (auto simp: read_server_config_def)
next
  case False
  then have "read_server_config f env = Inl e \<longleftrightarrow>
     read_gift_wrap env = Inl e
     \<or> (\<exists>gw. read_gift_wrap env = Inr gw) \<and> opt_bool env ''OUTLAY_ANNOUNCED'' = Inl e"
    by (auto simp: read_server_config_def Let_def split: sum.splits)
  moreover have "read_gift_wrap env = Inl e \<longleftrightarrow>
      (\<exists>s. opt_string env ''OUTLAY_GIFT_WRAP_MODE'' = Some s
           \<and> s \<notin> {''ephemeral'', ''persistent'', ''optional''} \<and> e = InvalidGiftWrapMode s)"
    by (auto simp: read_gift_wrap_def split: option.splits if_splits)
  moreover have "(\<exists>gw. read_gift_wrap env = Inr gw) \<longleftrightarrow>
      opt_string env ''OUTLAY_GIFT_WRAP_MODE''
              \<in> {None, Some ''ephemeral'', Some ''persistent'', Some ''optional''}"
    by (auto simp: read_gift_wrap_def split: option.splits if_splits)
  moreover have "opt_bool env ''OUTLAY_ANNOUNCED'' = Inl e \<longleftrightarrow>
      (\<exists>s. opt_string env ''OUTLAY_ANNOUNCED'' = Some s \<and> s \<notin> {''true'', ''1'', ''false'', ''0''})
      \<and> e = InvalidBoolean ''OUTLAY_ANNOUNCED''"
    by (auto simp: opt_bool_def split: option.splits if_splits)
  ultimately show ?thesis using False by presburger
qed

text \<open>C35: every well-formed configuration can be written as an environment and is read back
  unchanged, the port and the list of relays included.\<close>
theorem server_config_roundtrip:
  assumes "server_config_ok f c"
  shows "read_server_config f (server_environment c) = Inr c"
proof -
  let ?env = "server_environment c"
  note ok = assms [unfolded server_config_ok_def]
  have plain: "opt_string ?env ''OUTLAY_PROXY_RELAY_URL'' = proxy_relay_url c"
    "opt_string ?env ''OUTLAY_SERVER_PRIVATE_KEY'' = private_key_hex c"
    "opt_string ?env ''OUTLAY_SERVER_ABOUT'' = server_about c"
    "opt_string ?env ''OUTLAY_SERVER_NAME'' = Some (server_name c)"
    using ok by (auto intro!: opt_string_plain simp: server_environment_def plain_option_def)
  have relays: "read_cvm_relay_urls ?env = cvm_relay_urls c"
  proof -
    have "opt_string ?env ''OUTLAY_CVM_RELAYS'' = Some (comma_join (cvm_relay_urls c))"
      using ok by (intro opt_string_plain)
        (auto simp: server_environment_def plain_option_def plain_value_def trim_comma_join comma_join_nonempty)
    then show ?thesis using ok by (simp add: read_cvm_relay_urls_def comma_list_join)
  qed
  have gw: "read_gift_wrap ?env = Inr (server_gift_wrap c)"
    by (cases "server_gift_wrap c")
      (simp_all add: read_gift_wrap_def opt_string_def server_environment_def trim_words)
  have ann: "opt_bool ?env ''OUTLAY_ANNOUNCED'' = Inr (Some (is_announced c))"
    by (cases "is_announced c")
      (simp_all add: opt_bool_def opt_string_def server_environment_def trim_words)
  have bun: "(if f then Some (read_bundled ?env) else None) = bundled c"
  proof (cases "bundled c")
    case None
    then show ?thesis using ok by simp
  next
    case (Some b)
    then have "opt_string ?env ''OUTLAY_BUNDLED_BACKEND'' = Some (backend b)"
      "opt_string ?env ''OUTLAY_BUNDLED_DB_PATH'' = Some (db_path b)"
      "opt_string ?env ''OUTLAY_BUNDLED_PORT'' = Some (show_nat (unat (bundled_port b)))"
      using ok by (auto intro!: opt_string_plain
          simp: server_environment_def plain_option_def plain_value_def)
    then show ?thesis using ok Some by (simp add: read_bundled_def parse_u16_show)
  qed
  have "\<not> (proxy_relay_url c = None \<and> \<not> f)" using ok by blast
  then have "read_server_config f ?env =
      Inr \<lparr>proxy_relay_url = proxy_relay_url c, cvm_relay_urls = cvm_relay_urls c,
           private_key_hex = private_key_hex c, server_name = server_name c,
           server_about = server_about c, is_announced = is_announced c,
           server_gift_wrap = server_gift_wrap c, bundled = bundled c\<rparr>"
    unfolding read_server_config_def Let_def plain relays gw ann bun by simp
  then show ?thesis by simp
qed

theorem server_config_roundtrip_witness:
  "\<exists>c. bundled_port (the (bundled c)) = 8090 \<and> is_announced c
     \<and> read_server_config True (server_environment c) = Inr c"
proof -
  let ?c = "\<lparr>proxy_relay_url = None, cvm_relay_urls = [''wss://a.test'', ''ws://b''], private_key_hex = None,
     server_name = ''outlay'', server_about = Some ''sqlite'', is_announced = True,
     server_gift_wrap = GwOptional,
     bundled = Some \<lparr>backend = ''sqlite'', db_path = ''outlay-relay.db'', bundled_port = 8090\<rparr>\<rparr>"
  have "server_config_ok True ?c"
    using plain_defaults
    by (simp add: server_config_ok_def plain_option_def plain_value_def url_entry_def
        trim_def whitespace_def strip_all.simps)
  from server_config_roundtrip [OF this] show ?thesis by (intro exI [of _ ?c]) simp
qed

text \<open>Padding any value with white space, and setting a variable to white space only instead of
  leaving it unset, changes nothing.\<close>

lemma server_config_padding:
  assumes "\<And>n. map_option trim (env n) = map_option trim (env' n)
             \<or> (\<forall>x \<in> {env n, env' n}. x = None \<or> map_option trim x = Some [])"
  shows "read_server_config f env = read_server_config f env'"
proof (rule read_server_config_cong)
  fix n
  show "opt_string env n = opt_string env' n"
    using assms [of n] server_env.read_padding [of env n env']
    by (cases "env n"; cases "env' n") (auto simp: opt_string_def)
qed

end
