(* ===== verification/Shim_Config.thy ===== *)
theory Shim_Config
  imports Config
begin

text \<open>
  \<open>crates/outlay-shim/src/config.rs\<close>: the shim's configuration. The crate has an \<open>opt_string\<close> and
  a boolean reader of its own; the contract \<open>env_reader\<close> is interpreted on the former. A
  \<open>Duration\<close> of whole seconds is its number of seconds, \<open>usize\<close> has 64 bits (the targets
  are amd64 and arm64), and the test-only relay pool does not exist outside tests.
\<close>

datatype encryption_mode = EncOptional | EncDisabled | EncRequired

record shim_config =
  listen_addr :: string
  relay_urls :: "string list"
  private_key :: "string option"
  encryption :: encryption_mode
  connect_timeout :: u64
  gift_wrap :: gift_wrap_mode
  max_cached_outlays :: u64
  max_ws_message_bytes :: u64
  enable_relay :: bool
  public_urls :: "string list"

definition public_url :: "shim_config \<Rightarrow> string option" where
  "public_url c =
     (case public_urls c of
        u # _ \<Rightarrow> Some u
      | [] \<Rightarrow> (case relay_urls c of u # _ \<Rightarrow> Some u | [] \<Rightarrow> None))"

datatype shim_config_error =
    InvalidEncryption string
  | ShimInvalidGiftWrapMode string
  | ShimInvalidBoolean string

definition default_relay_urls :: "string list" where
  "default_relay_urls = [''wss://nostr.wtf'']"

definition shim_opt_string :: "env \<Rightarrow> string \<Rightarrow> string option" where
  "shim_opt_string env name =
     (case map_option trim (env name) of
        Some s \<Rightarrow> if s \<noteq> [] then Some s else None
      | None \<Rightarrow> None)"

interpretation shim_env: env_reader shim_opt_string
  by unfold_locales (simp_all add: shim_opt_string_def)

definition opt_bool_env :: "env \<Rightarrow> string \<Rightarrow> shim_config_error + bool option" where
  "opt_bool_env env name =
     (case map_option to_ascii_lowercase (shim_opt_string env name) of
        None \<Rightarrow> Inr None
      | Some s \<Rightarrow>
          if s = ''true'' \<or> s = ''1'' then Inr (Some True)
          else if s = ''false'' \<or> s = ''0'' then Inr (Some False)
          else Inl (ShimInvalidBoolean s))"

definition read_relay_urls :: "env \<Rightarrow> string list" where
  "read_relay_urls env =
     (case shim_opt_string env ''OUTLAY_SHIM_CVM_RELAYS'' of
        Some raw \<Rightarrow> (let urls = comma_list raw in if urls = [] then default_relay_urls else urls)
      | None \<Rightarrow> default_relay_urls)"

definition read_encryption :: "env \<Rightarrow> shim_config_error + encryption_mode" where
  "read_encryption env =
     (case shim_opt_string env ''OUTLAY_SHIM_ENCRYPTION_MODE'' of
        None \<Rightarrow> Inr EncOptional
      | Some s \<Rightarrow>
          if s = ''optional'' then Inr EncOptional
          else if s = ''disabled'' then Inr EncDisabled
          else if s = ''required'' then Inr EncRequired
          else Inl (InvalidEncryption s))"

definition read_shim_gift_wrap :: "env \<Rightarrow> shim_config_error + gift_wrap_mode" where
  "read_shim_gift_wrap env =
     (case shim_opt_string env ''OUTLAY_SHIM_GIFT_WRAP_MODE'' of
        None \<Rightarrow> Inr GwEphemeral
      | Some s \<Rightarrow>
          if s = ''ephemeral'' then Inr GwEphemeral
          else if s = ''persistent'' then Inr GwPersistent
          else if s = ''optional'' then Inr GwOptional
          else Inl (ShimInvalidGiftWrapMode s))"

definition read_u64 :: "env \<Rightarrow> string \<Rightarrow> u64 \<Rightarrow> u64" where
  "read_u64 env name d =
     (case Option.bind (shim_opt_string env name) parse_u64 of Some n \<Rightarrow> n | None \<Rightarrow> d)"

definition read_public_urls :: "env \<Rightarrow> string list" where
  "read_public_urls env =
     (case shim_opt_string env ''OUTLAY_SHIM_PUBLIC_URLS'' of Some raw \<Rightarrow> comma_list raw | None \<Rightarrow> [])"

definition read_shim_config :: "env \<Rightarrow> shim_config_error + shim_config" where
  "read_shim_config env =
     (case read_encryption env of
        Inl e \<Rightarrow> Inl e
      | Inr enc \<Rightarrow>
          (case read_shim_gift_wrap env of
             Inl e \<Rightarrow> Inl e
           | Inr gw \<Rightarrow>
               (case opt_bool_env env ''OUTLAY_SHIM_RELAY'' of
                  Inl e \<Rightarrow> Inl e
                | Inr enable \<Rightarrow>
                    Inr \<lparr>listen_addr =
                           (case shim_opt_string env ''OUTLAY_SHIM_LISTEN_ADDR'' of
                              Some s \<Rightarrow> s | None \<Rightarrow> ''127.0.0.1:8088''),
                         relay_urls = read_relay_urls env,
                         private_key = shim_opt_string env ''OUTLAY_SHIM_PRIVATE_KEY'',
                         encryption = enc,
                         connect_timeout = read_u64 env ''OUTLAY_SHIM_CONNECT_TIMEOUT'' 15,
                         gift_wrap = gw,
                         max_cached_outlays = max (read_u64 env ''OUTLAY_SHIM_MAX_CACHED_OUTLAYS'' 64) 1,
                         max_ws_message_bytes = read_u64 env ''OUTLAY_SHIM_MAX_WS_MESSAGE_BYTES'' 1048576,
                         enable_relay = (case enable of Some b \<Rightarrow> b | None \<Rightarrow> True),
                         public_urls = read_public_urls env\<rparr>)))"

definition load_shim_config :: "env option \<Rightarrow> env option \<Rightarrow> env \<Rightarrow> shim_config_error + shim_config" where
  "load_shim_config dotenv dotenv_local live = read_shim_config (load_env dotenv dotenv_local live)"

section \<open>Lemmas\<close>

lemma read_shim_config_Inr:
  "read_shim_config env = Inr c \<Longrightarrow>
     relay_urls c = read_relay_urls env \<and> public_urls c = read_public_urls env
     \<and> max_cached_outlays c = max (read_u64 env ''OUTLAY_SHIM_MAX_CACHED_OUTLAYS'' 64) 1"
  by (auto simp: read_shim_config_def split: sum.splits)

lemma read_relay_urls_ok: "read_relay_urls env \<noteq> [] \<and> list_all url_entry (read_relay_urls env)"
  using url_entry_default
  by (auto simp: read_relay_urls_def Let_def list_all_iff default_relay_urls_def default_cvm_relay_urls_def
           dest: comma_list_entries split: option.splits)

lemma read_public_urls_ok: "list_all url_entry (read_public_urls env)"
  by (auto simp: read_public_urls_def list_all_iff dest: comma_list_entries split: option.splits)

lemma public_url_mem: "public_url c = Some u \<Longrightarrow> u \<in> set (public_urls c) \<union> set (relay_urls c)"
  by (auto simp: public_url_def split: list.splits)

lemma max_one_nonzero: "max n (1 :: u64) \<noteq> 0"
  by (metis max.cobounded2 word_le_0_iff zero_neq_one)

section \<open>Properties\<close>

text \<open>C39: every shim configuration that is read has at least one relay, only trimmed non-empty
  URLs, a public face taken from them, and a cache bound of at least one, zero and unparsable
  settings included.\<close>
theorem shim_config_wellformed:
  assumes "read_shim_config env = Inr c"
  shows "relay_urls c \<noteq> [] \<and> list_all url_entry (relay_urls c @ public_urls c)
     \<and> (\<exists>u. public_url c = Some u \<and> url_entry u) \<and> max_cached_outlays c \<noteq> 0"
proof -
  have urls: "relay_urls c \<noteq> []" "list_all url_entry (relay_urls c @ public_urls c)"
    using read_shim_config_Inr [OF assms] read_relay_urls_ok [of env] read_public_urls_ok [of env]
    by auto
  moreover obtain u where "public_url c = Some u"
    using urls(1) by (cases "public_urls c"; cases "relay_urls c") (auto simp: public_url_def)
  moreover have "url_entry u"
    using public_url_mem [OF \<open>public_url c = Some u\<close>] urls(2) by (auto simp: list_all_iff)
  ultimately show ?thesis
    using read_shim_config_Inr [OF assms] max_one_nonzero by auto
qed

theorem shim_config_wellformed_witness:
  "\<exists>c. read_shim_config [''OUTLAY_SHIM_MAX_CACHED_OUTLAYS'' \<mapsto> ''0''] = Inr c
     \<and> relay_urls c = [''wss://nostr.wtf''] \<and> max_cached_outlays c \<noteq> 0"
proof -
  let ?env = "[''OUTLAY_SHIM_MAX_CACHED_OUTLAYS'' \<mapsto> ''0'']"
  obtain c where c: "read_shim_config ?env = Inr c" and "relay_urls c = [''wss://nostr.wtf'']"
    by (simp add: read_shim_config_def read_encryption_def read_shim_gift_wrap_def opt_bool_env_def
        shim_opt_string_def read_relay_urls_def default_relay_urls_def)
  then show ?thesis using shim_config_wellformed [OF c] by blast
qed

text \<open>Every error of the shim configuration with its precedence: the encryption mode, the
  gift-wrap mode, then the relay flag. The flag is compared in lower case, and its error carries
  the lowered value where outlay's carries the variable's name.\<close>

lemma shim_config_errors:
  "read_shim_config env = Inl e \<longleftrightarrow>
     (case shim_opt_string env ''OUTLAY_SHIM_ENCRYPTION_MODE'' of
        Some s \<Rightarrow> s \<notin> {''optional'', ''disabled'', ''required''} \<and> e = InvalidEncryption s
      | None \<Rightarrow> False)
     \<or> shim_opt_string env ''OUTLAY_SHIM_ENCRYPTION_MODE''
         \<in> {None, Some ''optional'', Some ''disabled'', Some ''required''}
       \<and> ((case shim_opt_string env ''OUTLAY_SHIM_GIFT_WRAP_MODE'' of
             Some s \<Rightarrow> s \<notin> {''ephemeral'', ''persistent'', ''optional''} \<and> e = ShimInvalidGiftWrapMode s
           | None \<Rightarrow> False)
          \<or> shim_opt_string env ''OUTLAY_SHIM_GIFT_WRAP_MODE''
              \<in> {None, Some ''ephemeral'', Some ''persistent'', Some ''optional''}
            \<and> (case shim_opt_string env ''OUTLAY_SHIM_RELAY'' of
                 Some s \<Rightarrow> to_ascii_lowercase s \<notin> {''true'', ''1'', ''false'', ''0''}
                   \<and> e = ShimInvalidBoolean (to_ascii_lowercase s)
               | None \<Rightarrow> False))"
proof -
  have "read_shim_config env = Inl e \<longleftrightarrow>
     read_encryption env = Inl e
     \<or> (\<exists>m. read_encryption env = Inr m)
       \<and> (read_shim_gift_wrap env = Inl e
          \<or> (\<exists>m. read_shim_gift_wrap env = Inr m) \<and> opt_bool_env env ''OUTLAY_SHIM_RELAY'' = Inl e)"
    by (auto simp: read_shim_config_def split: sum.splits)
  moreover have "read_encryption env = Inl e \<longleftrightarrow>
     (case shim_opt_string env ''OUTLAY_SHIM_ENCRYPTION_MODE'' of
        Some s \<Rightarrow> s \<notin> {''optional'', ''disabled'', ''required''} \<and> e = InvalidEncryption s
      | None \<Rightarrow> False)"
    by (auto simp: read_encryption_def split: option.splits if_splits)
  moreover have "(\<exists>m. read_encryption env = Inr m) \<longleftrightarrow>
     shim_opt_string env ''OUTLAY_SHIM_ENCRYPTION_MODE''
         \<in> {None, Some ''optional'', Some ''disabled'', Some ''required''}"
    by (auto simp: read_encryption_def split: option.splits if_splits)
  moreover have "read_shim_gift_wrap env = Inl e \<longleftrightarrow>
     (case shim_opt_string env ''OUTLAY_SHIM_GIFT_WRAP_MODE'' of
             Some s \<Rightarrow> s \<notin> {''ephemeral'', ''persistent'', ''optional''} \<and> e = ShimInvalidGiftWrapMode s
           | None \<Rightarrow> False)"
    by (auto simp: read_shim_gift_wrap_def split: option.splits if_splits)
  moreover have "(\<exists>m. read_shim_gift_wrap env = Inr m) \<longleftrightarrow>
     shim_opt_string env ''OUTLAY_SHIM_GIFT_WRAP_MODE''
              \<in> {None, Some ''ephemeral'', Some ''persistent'', Some ''optional''}"
    by (auto simp: read_shim_gift_wrap_def split: option.splits if_splits)
  moreover have "opt_bool_env env ''OUTLAY_SHIM_RELAY'' = Inl e \<longleftrightarrow>
     (case shim_opt_string env ''OUTLAY_SHIM_RELAY'' of
                 Some s \<Rightarrow> to_ascii_lowercase s \<notin> {''true'', ''1'', ''false'', ''0''}
                   \<and> e = ShimInvalidBoolean (to_ascii_lowercase s)
               | None \<Rightarrow> False)"
    by (auto simp: opt_bool_env_def split: option.splits if_splits)
  ultimately show ?thesis by presburger
qed

end
