(* ===== verification/Transport.thy ===== *)
theory Transport
  imports Json_Value Shim_Config Path
begin

text \<open>
  \<open>crates/outlay-shim/src/transport.rs\<close> without its cache: the choice of the relay URLs the CVM
  client transport dials, the transport configuration, and the construction of a client. Arguments:
  \<open>parse_url\<close> is \<open>RelayUrl::parse\<close> (\<open>None\<close> for an error), \<open>url_str\<close> its
  \<open>as_str_without_trailing_slash\<close>; for \<open>build_client\<close>, what the key codec, the transport
  constructor and the timed \<open>serve\<close> answer.
\<close>

definition norm_url :: "(string \<Rightarrow> 'u option) \<Rightarrow> ('u \<Rightarrow> string) \<Rightarrow> string \<Rightarrow> string option" where
  "norm_url parse_url url_str u = map_option url_str (parse_url u)"

definition substitute_self ::
  "(string \<Rightarrow> 'u option) \<Rightarrow> ('u \<Rightarrow> string) \<Rightarrow> string list \<Rightarrow> string list \<Rightarrow> string option \<Rightarrow> string list"
where
  "substitute_self parse_url url_str candidates publics loopback =
     (case loopback of
        None \<Rightarrow> candidates
      | Some l \<Rightarrow>
          (let public = set (List.map_filter (norm_url parse_url url_str) publics) in
           map (\<lambda>u. case norm_url parse_url url_str u of
                      Some n \<Rightarrow> if n \<in> public then l else u
                    | None \<Rightarrow> u) candidates))"

definition resolve_relay_urls ::
  "(string \<Rightarrow> 'u option) \<Rightarrow> ('u \<Rightarrow> string) \<Rightarrow> shim_config \<Rightarrow> parsed_path \<Rightarrow> string option \<Rightarrow> string list"
where
  "resolve_relay_urls parse_url url_str cfg parsed loopback =
     (let candidates = (if relay_hints parsed \<noteq> [] then relay_hints parsed else relay_urls cfg);
          publics = (if public_urls cfg \<noteq> [] then public_urls cfg else relay_urls cfg)
      in substitute_self parse_url url_str candidates publics loopback)"

text \<open>Wrapping an object value as tool arguments; anything else gives no arguments.\<close>

fun args :: "json \<Rightarrow> json_map" where
  "args (JObject m) = m"
| "args _ = []"

section \<open>Building a client\<close>

record client_transport_config =
  server_pubkey :: string
  ct_encryption :: encryption_mode
  ct_gift_wrap :: gift_wrap_mode
  ct_stateless :: bool
  ct_open_stream :: bool
  ct_timeout :: u64
  ct_relay_urls :: "string list"

definition client_config ::
  "(string \<Rightarrow> 'u option) \<Rightarrow> ('u \<Rightarrow> string) \<Rightarrow> shim_config \<Rightarrow> parsed_path \<Rightarrow> string option
   \<Rightarrow> client_transport_config"
where
  "client_config parse_url url_str cfg parsed loopback =
     \<lparr>server_pubkey = hex parsed, ct_encryption = encryption cfg, ct_gift_wrap = gift_wrap cfg,
      ct_stateless = True, ct_open_stream = True, ct_timeout = connect_timeout cfg,
      ct_relay_urls = resolve_relay_urls parse_url url_str cfg parsed loopback\<rparr>"

datatype 'c serve_result = ServeTimeout | ServeError string | Served 'c

definition build_client ::
  "(string \<Rightarrow> 'u option) \<Rightarrow> ('u \<Rightarrow> string) \<Rightarrow> (string \<Rightarrow> string + 'key) \<Rightarrow> 'key
   \<Rightarrow> ('key \<Rightarrow> client_transport_config \<Rightarrow> string + 'tr) \<Rightarrow> ('tr \<Rightarrow> 'handle) \<Rightarrow> ('tr \<Rightarrow> 'c serve_result)
   \<Rightarrow> shim_config \<Rightarrow> parsed_path \<Rightarrow> string option \<Rightarrow> string + 'c \<times> 'handle"
where
  "build_client parse_url url_str from_sk generated new_transport open_handle serve cfg parsed loopback =
     (let tcfg = client_config parse_url url_str cfg parsed loopback in
      (case (case private_key cfg of Some k \<Rightarrow> from_sk k | None \<Rightarrow> Inr generated) of
         Inl e \<Rightarrow> Inl e
       | Inr signer \<Rightarrow>
           (case new_transport signer tcfg of
              Inl e \<Rightarrow> Inl e
            | Inr transport \<Rightarrow>
                (let handle = open_handle transport in
                 case serve transport of
                   ServeTimeout \<Rightarrow> Inl ''client transport startup timed out''
                 | ServeError e \<Rightarrow> Inl e
                 | Served client \<Rightarrow> Inr (client, handle)))))"

section \<open>Lemmas\<close>

text \<open>A URL that names one of the shim's own public addresses, up to normalisation.\<close>

definition own_url :: "(string \<Rightarrow> 'u option) \<Rightarrow> ('u \<Rightarrow> string) \<Rightarrow> string list \<Rightarrow> string \<Rightarrow> bool" where
  "own_url parse_url url_str publics u \<longleftrightarrow>
     (case norm_url parse_url url_str u of
        None \<Rightarrow> False
      | Some n \<Rightarrow> list_ex (\<lambda>p. norm_url parse_url url_str p = Some n) publics)"

lemma substitute_self_Some:
  "substitute_self parse_url url_str candidates publics (Some l) =
     map (\<lambda>u. if own_url parse_url url_str publics u then l else u) candidates"
  by (auto simp: substitute_self_def own_url_def list_ex_iff set_map_filter_iff split: option.splits)

lemma substitute_self_None: "substitute_self parse_url url_str candidates publics None = candidates"
  by (simp add: substitute_self_def)

lemma own_url_refl: "u \<in> set publics \<Longrightarrow> own_url parse_url url_str publics u \<longleftrightarrow> parse_url u \<noteq> None"
  by (auto simp: own_url_def norm_url_def list_ex_iff split: option.splits)

definition candidate_urls :: "shim_config \<Rightarrow> parsed_path \<Rightarrow> string list" where
  "candidate_urls cfg parsed = (if relay_hints parsed \<noteq> [] then relay_hints parsed else relay_urls cfg)"

definition self_urls :: "shim_config \<Rightarrow> string list" where
  "self_urls cfg = (if public_urls cfg \<noteq> [] then public_urls cfg else relay_urls cfg)"

lemma resolve_relay_urls_alt:
  "resolve_relay_urls parse_url url_str cfg parsed loopback =
     (case loopback of
        None \<Rightarrow> candidate_urls cfg parsed
      | Some l \<Rightarrow> map (\<lambda>u. if own_url parse_url url_str (self_urls cfg) u then l else u)
                    (candidate_urls cfg parsed))"
  by (cases loopback)
    (auto simp: resolve_relay_urls_def Let_def candidate_urls_def self_urls_def substitute_self_Some
      substitute_self_None)

section \<open>Properties\<close>

text \<open>C25: the loopback shortcut never lets the bridge dial itself. With the colocated relay on,
  every URL to dial is the loopback address or names none of the shim's own public addresses; each
  candidate keeps its place, and the ones that name others, or do not parse, are untouched. With
  the relay off the candidates are dialed as they are.\<close>
theorem no_hairpin:
  "resolve_relay_urls parse_url url_str cfg parsed None = candidate_urls cfg parsed
   \<and> length (resolve_relay_urls parse_url url_str cfg parsed (Some l)) = length (candidate_urls cfg parsed)
   \<and> list_all (\<lambda>u. u = l \<or> \<not> own_url parse_url url_str (self_urls cfg) u)
       (resolve_relay_urls parse_url url_str cfg parsed (Some l))
   \<and> list_all2 (\<lambda>u v. v = (if own_url parse_url url_str (self_urls cfg) u then l else u))
       (candidate_urls cfg parsed) (resolve_relay_urls parse_url url_str cfg parsed (Some l))"
  by (auto simp: resolve_relay_urls_alt list_all_iff list_all2_conv_all_nth)

theorem no_hairpin_witness:
  "resolve_relay_urls (\<lambda>u. Some (filter (\<lambda>c. c \<noteq> CHR ''/'') u)) (\<lambda>u. u)
     \<lparr>listen_addr = [], relay_urls = [''wss://own'', ''wss://other''], private_key = None,
      encryption = EncOptional, connect_timeout = 15, gift_wrap = GwEphemeral, max_cached_outlays = 64,
      max_ws_message_bytes = 1048576, enable_relay = True, public_urls = [''wss://own/'']\<rparr>
     \<lparr>hex = ''aa'', relay_hints = []\<rparr> (Some ''ws://127.0.0.1:8086'')
   = [''ws://127.0.0.1:8086'', ''wss://other'']"
proof -
  let ?parse = "\<lambda>u. Some (filter (\<lambda>c. c \<noteq> CHR ''/'') u)"
  let ?cfg = "\<lparr>listen_addr = [], relay_urls = [''wss://own'', ''wss://other''], private_key = None,
      encryption = EncOptional, connect_timeout = 15, gift_wrap = GwEphemeral, max_cached_outlays = 64,
      max_ws_message_bytes = 1048576, enable_relay = True, public_urls = [''wss://own/'']\<rparr>"
  have "list_all2 (\<lambda>u v. v = (if own_url ?parse (\<lambda>u. u) (self_urls ?cfg) u then ''ws://127.0.0.1:8086'' else u))
     (candidate_urls ?cfg \<lparr>hex = ''aa'', relay_hints = []\<rparr>)
     (resolve_relay_urls ?parse (\<lambda>u. u) ?cfg \<lparr>hex = ''aa'', relay_hints = []\<rparr> (Some ''ws://127.0.0.1:8086''))"
    using no_hairpin [of ?parse "\<lambda>u. u" ?cfg "\<lparr>hex = ''aa'', relay_hints = []\<rparr>" "''ws://127.0.0.1:8086''"]
    by blast
  then show ?thesis
    by (simp add: candidate_urls_def self_urls_def own_url_def norm_url_def list_all2_Cons1)
qed

text \<open>The default deployment needs no configuration. With the colocated relay on, no public
  URLs configured and a path without hints, every configured relay that is a relay URL is replaced
  by the loopback address.\<close>

lemma default_collapse:
  assumes "public_urls cfg = []" and "relay_hints parsed = []"
    and "list_all (\<lambda>u. parse_url u \<noteq> None) (relay_urls cfg)"
  shows "resolve_relay_urls parse_url url_str cfg parsed (Some l) = replicate (length (relay_urls cfg)) l"
proof -
  have "map (\<lambda>u. if own_url parse_url url_str (relay_urls cfg) u then l else u) (relay_urls cfg)
      = map (\<lambda>u. l) (relay_urls cfg)"
    using assms(3) by (auto simp: list_all_iff own_url_refl)
  then show ?thesis
    using assms(1,2)
    by (simp add: resolve_relay_urls_alt candidate_urls_def self_urls_def map_replicate_const)
qed

text \<open>A client is built exactly when the configured key is one, a transport configured for the
  parsed server key, stateless and streaming, with the resolved relay URLs can be made, and serving
  over it succeeds in time; the handle that opens streams belongs to that transport. So a bad key, a
  failing transport and a start-up that takes too long are errors, and no other transport
  configuration is ever used.\<close>

lemma build_client_target:
  "build_client parse_url url_str from_sk generated new_transport open_handle serve cfg parsed loopback
     = Inr (client, handle) \<longleftrightarrow>
   (\<exists>signer tr.
       (case private_key cfg of Some k \<Rightarrow> from_sk k | None \<Rightarrow> Inr generated) = Inr signer
     \<and> new_transport signer
         \<lparr>server_pubkey = hex parsed, ct_encryption = encryption cfg, ct_gift_wrap = gift_wrap cfg,
          ct_stateless = True, ct_open_stream = True, ct_timeout = connect_timeout cfg,
          ct_relay_urls = resolve_relay_urls parse_url url_str cfg parsed loopback\<rparr> = Inr tr
     \<and> serve tr = Served client \<and> handle = open_handle tr)"
  by (auto simp: build_client_def client_config_def Let_def split: sum.splits serve_result.splits)

end
