(* ===== verification/Conn.thy ===== *)
theory Conn
  imports Translate Path Transport "HOL-Library.Multiset"
begin

text \<open>
  \<open>crates/outlay-shim/src/conn.rs\<close>: one WebSocket connection. The main loop, the task behind each
  subscription and the task behind each publish are functions from what they receive (frames,
  answers of the transport, which branch of a \<open>select!\<close> won) to the list of what they do. A task
  of the main loop is named by the number of the subscribe that spawned it; the name stands for its
  \<open>Notify\<close> as well. \<open>order\<close> is the order in which a \<open>HashMap\<close> visits its values.
\<close>

section \<open>The main loop\<close>

datatype inbound = InText string | InClose | InError | InOther

datatype conn_effect =
    SpawnSubscribe nat string "json list"
  | NotifyCancel nat
  | SpawnPublish json
  | Enqueue string
  | SocketSend string
  | SocketClose
  | AwaitWriter

record conn =
  subs :: "(string \<times> nat) list"
  next_task :: nat

text \<open>Taking a subscription out of the map: its cancel signal is notified.\<close>

definition cancel_sub :: "conn \<Rightarrow> string \<Rightarrow> conn_effect list \<times> conn" where
  "cancel_sub s sub_id =
     (case map_of (subs s) sub_id of
        Some n \<Rightarrow> ([NotifyCancel n], s\<lparr>subs := filter (\<lambda>e. fst e \<noteq> sub_id) (subs s)\<rparr>)
      | None \<Rightarrow> ([], s))"

definition handle_text ::
  "(string \<Rightarrow> json list option) \<Rightarrow> (json \<Rightarrow> string) \<Rightarrow> conn \<Rightarrow> string \<Rightarrow> conn_effect list \<times> conn"
where
  "handle_text from_str disp s txt =
     (case parse_client_frame from_str txt of
        Some (Req sub_id filters) \<Rightarrow>
          (let (es, s1) = cancel_sub s sub_id; n = next_task s1 in
           (es @ [SpawnSubscribe n sub_id filters],
            s1\<lparr>subs := (sub_id, n) # subs s1, next_task := Suc n\<rparr>))
      | Some (Close sub_id) \<Rightarrow> cancel_sub s sub_id
      | Some (ClientPublish event) \<Rightarrow> ([SpawnPublish event], s)
      | None \<Rightarrow> ([Enqueue (notice_frame disp ''unrecognized frame'')], s))"

fun read_frames ::
  "(string \<Rightarrow> json list option) \<Rightarrow> (json \<Rightarrow> string) \<Rightarrow> conn \<Rightarrow> inbound list \<Rightarrow> conn_effect list \<times> conn"
where
  "read_frames from_str disp s [] = ([], s)"
| "read_frames from_str disp s (InText txt # fs) =
     (let (es, s1) = handle_text from_str disp s txt; (es', s2) = read_frames from_str disp s1 fs
      in (es @ es', s2))"
| "read_frames from_str disp s (InClose # fs) = ([], s)"
| "read_frames from_str disp s (InError # fs) = ([], s)"
| "read_frames from_str disp s (InOther # fs) = read_frames from_str disp s fs"

definition close_with_notice :: "(json \<Rightarrow> string) \<Rightarrow> string \<Rightarrow> conn_effect list" where
  "close_with_notice disp msg = [SocketSend (notice_frame disp (''error: '' @ msg)), SocketClose]"

definition new_conn :: conn where
  "new_conn = \<lparr>subs = [], next_task = 0\<rparr>"

definition run_session ::
  "(string \<Rightarrow> json list option) \<Rightarrow> (json \<Rightarrow> string) \<Rightarrow> (nat list \<Rightarrow> nat list) \<Rightarrow> inbound list \<Rightarrow> conn_effect list"
where
  "run_session from_str disp order frames =
     (let (es, s) = read_frames from_str disp new_conn frames
      in es @ map NotifyCancel (order (map snd (subs s))) @ [AwaitWriter])"

definition handle_ws ::
  "(string \<Rightarrow> json list option) \<Rightarrow> (json \<Rightarrow> string) \<Rightarrow> (nat list \<Rightarrow> nat list)
   \<Rightarrow> (string \<Rightarrow> path_error + parsed_path) \<Rightarrow> (parsed_path \<Rightarrow> string + 'peer) \<Rightarrow> string \<Rightarrow> inbound list
   \<Rightarrow> conn_effect list"
where
  "handle_ws from_str disp order parse get pubkey frames =
     (case parse pubkey of
        Inl e \<Rightarrow> close_with_notice disp (path_error_display e)
      | Inr parsed \<Rightarrow>
          (case get parsed of
             Inl e \<Rightarrow> close_with_notice disp e
           | Inr _ \<Rightarrow> run_session from_str disp order frames))"

section \<open>The task behind a subscription\<close>

text \<open>
  How the establishing \<open>select!\<close> ends; a cancel that wins it may come before the call was made.
  Then what wins the \<open>select!\<close> of the loop; a chunk carries whether the channel took it.
\<close>

datatype 'tok stream_setup = SetupCancelled bool | SetupFailed string | SetupOk 'tok

datatype stream_event = StreamChunk string bool | StreamError string | StreamEnd | CancelSignal

datatype 'tok task_effect =
    CallTool string json_map
  | TaskSend string
  | HandleCancel 'tok string

fun pump :: "(json \<Rightarrow> string) \<Rightarrow> string \<Rightarrow> 'tok \<Rightarrow> stream_event list \<Rightarrow> 'tok task_effect list" where
  "pump disp sub_id tok [] = []"
| "pump disp sub_id tok (StreamChunk c sent # evs) =
     TaskSend c # (if sent then pump disp sub_id tok evs else [])"
| "pump disp sub_id tok (StreamError e # evs) = [TaskSend (closed_frame disp sub_id e)]"
| "pump disp sub_id tok (StreamEnd # evs) = []"
| "pump disp sub_id tok (CancelSignal # evs) = [HandleCancel tok ''client closed subscription'']"

definition subscribe_args :: "string \<Rightarrow> json list \<Rightarrow> json_map" where
  "subscribe_args sub_id filters =
     args (json_object [(''subscription_id'', JString sub_id), (''filters'', JArray filters)])"

definition subscribe_loop ::
  "(json \<Rightarrow> string) \<Rightarrow> string \<Rightarrow> json list \<Rightarrow> 'tok stream_setup \<Rightarrow> stream_event list \<Rightarrow> 'tok task_effect list"
where
  "subscribe_loop disp sub_id filters opened evs =
     (let call = CallTool ''subscribe'' (subscribe_args sub_id filters) in
      case opened of
        SetupCancelled called \<Rightarrow> (if called then [call] else [])
      | SetupFailed e \<Rightarrow> [call, TaskSend (closed_frame disp sub_id e)]
      | SetupOk tok \<Rightarrow> call # pump disp sub_id tok evs)"

section \<open>Publishing\<close>

text \<open>What \<open>call_tool\<close> came back with: an error, or the structured content if there is any.\<close>

definition json_str :: "json \<Rightarrow> string \<Rightarrow> string option" where
  "json_str v k = Option.bind (jget v k) as_str"

definition publish_frame :: "(json \<Rightarrow> string) \<Rightarrow> json \<Rightarrow> string + json option \<Rightarrow> string" where
  "publish_frame disp event answer =
     (let eid = (case json_str event ''id'' of Some s \<Rightarrow> s | None \<Rightarrow> []) in
      case answer of
        Inr content \<Rightarrow>
          (let sc = (case content of Some v \<Rightarrow> v | None \<Rightarrow> JNull);
               accepted = (case Option.bind (jget sc ''ok'') as_bool of Some b \<Rightarrow> b | None \<Rightarrow> False);
               msg = (case json_str sc ''message'' of Some s \<Rightarrow> s | None \<Rightarrow> []);
               ok_id = (case json_str sc ''event_id'' of Some s \<Rightarrow> s | None \<Rightarrow> eid)
           in ok_frame disp ok_id accepted msg)
      | Inl e \<Rightarrow> ok_frame disp eid False e)"

definition publish_once :: "(json \<Rightarrow> string) \<Rightarrow> json \<Rightarrow> string + json option \<Rightarrow> 'tok task_effect list" where
  "publish_once disp event answer =
     [CallTool ''publish_event'' (args (json_object [(''event'', event)])),
      TaskSend (publish_frame disp event answer)]"

section \<open>Cancels and spawns in a trace\<close>

fun spawns :: "nat \<Rightarrow> conn_effect \<Rightarrow> bool" where
  "spawns n (SpawnSubscribe m i fs) \<longleftrightarrow> m = n"
| "spawns n _ \<longleftrightarrow> False"

definition spawned :: "nat \<Rightarrow> conn_effect list \<Rightarrow> nat" where
  "spawned n es = length (filter (spawns n) es)"

definition notified :: "nat \<Rightarrow> conn_effect list \<Rightarrow> nat" where
  "notified n es = count_list es (NotifyCancel n)"

definition held :: "nat \<Rightarrow> conn \<Rightarrow> nat" where
  "held n s = (if n \<in> snd ` set (subs s) then 1 else 0)"

lemma spawned_simps [simp]:
  "spawned n [] = 0" "spawned n (e # es) = (if spawns n e then 1 else 0) + spawned n es"
  "spawned n (es @ es') = spawned n es + spawned n es'"
  by (simp_all add: spawned_def)

lemma notified_simps [simp]:
  "notified n [] = 0" "notified n (e # es) = (if e = NotifyCancel n then 1 else 0) + notified n es"
  "notified n (es @ es') = notified n es + notified n es'"
  by (simp_all add: notified_def)

text \<open>The map of a connection: one task per subscription id, one id per task, none of the future.\<close>

definition conn_ok :: "conn \<Rightarrow> bool" where
  "conn_ok s \<longleftrightarrow> distinct (map fst (subs s)) \<and> distinct (map snd (subs s)) \<and> (\<forall>n \<in> snd ` set (subs s). n < next_task s)"

lemma conn_ok_new [simp]: "conn_ok new_conn"
  by (simp add: conn_ok_def new_conn_def)

lemma cancel_sub_simps:
  assumes "cancel_sub s i = (es, s')"
  shows "next_task s' = next_task s" "i \<notin> fst ` set (subs s')" "set (subs s') \<subseteq> set (subs s)"
    "subs s' = filter (\<lambda>e. fst e \<noteq> i) (subs s)"
    "es = (case map_of (subs s) i of Some n \<Rightarrow> [NotifyCancel n] | None \<Rightarrow> [])"
proof -
  have "filter (\<lambda>e. fst e \<noteq> i) (subs s) = subs s" if "map_of (subs s) i = None"
    using that by (auto simp: map_of_eq_None_iff filter_id_conv)
  then show "next_task s' = next_task s" and *: "subs s' = filter (\<lambda>e. fst e \<noteq> i) (subs s)"
    and "es = (case map_of (subs s) i of Some n \<Rightarrow> [NotifyCancel n] | None \<Rightarrow> [])"
    using assms by (auto simp: cancel_sub_def split: option.splits)
  show "i \<notin> fst ` set (subs s')" "set (subs s') \<subseteq> set (subs s)"
    using * by auto
qed

lemma distinct_snd_unique:
  "distinct (map snd xs) \<Longrightarrow> (i, n) \<in> set xs \<Longrightarrow> (j, n) \<in> set xs \<Longrightarrow> i = j"
  by (metis distinct_map inj_onD prod.inject snd_conv)

lemma cancel_sub_ok:
  assumes "conn_ok s" "cancel_sub s i = (es, s')"
  shows "conn_ok s'"
  using assms(1) unfolding conn_ok_def cancel_sub_simps(1,4) [OF assms(2)]
  by (auto intro: distinct_map_filter)

lemma cancel_sub_balance:
  assumes "conn_ok s" "cancel_sub s i = (es, s')"
  shows "notified n es + held n s' = held n s" "spawned n es = 0"
proof -
  have d: "distinct (map snd (subs s))" "distinct (map fst (subs s))" using assms(1) by (auto simp: conn_ok_def)
  note c = cancel_sub_simps(4,5) [OF assms(2)]
  show "spawned n es = 0" unfolding c by (auto split: option.splits)
  show "notified n es + held n s' = held n s"
  proof (cases "map_of (subs s) i")
    case None
    then have "subs s' = subs s" using c by (auto simp: map_of_eq_None_iff filter_id_conv)
    then show ?thesis using c None by (simp add: held_def)
  next
    case (Some m)
    then have mem: "(i, m) \<in> set (subs s)" by (rule map_of_SomeD)
    have "(j, n) \<in> set (subs s') \<longleftrightarrow> (j, n) \<in> set (subs s) \<and> n \<noteq> m" for j
      using c(1) distinct_snd_unique [OF d(1) mem, of j] eq_key_imp_eq_value [OF d(2) mem, of n] by auto
    then have "n \<in> snd ` set (subs s') \<longleftrightarrow> n \<in> snd ` set (subs s) \<and> n \<noteq> m"
      by (auto simp: image_iff Bex_def)
    moreover have "m \<in> snd ` set (subs s)" using mem by force
    ultimately show ?thesis using c(2) Some by (auto simp: held_def)
  qed
qed

text \<open>A stretch of the trace between two states of the map, for one task.\<close>

definition balanced :: "nat \<Rightarrow> conn \<Rightarrow> conn_effect list \<Rightarrow> conn \<Rightarrow> bool" where
  "balanced n s es s' \<longleftrightarrow>
     notified n es + held n s' = held n s + spawned n es
     \<and> (\<forall>p q. es = p @ q \<longrightarrow> notified n p \<le> held n s + spawned n p)
     \<and> next_task s \<le> next_task s'
     \<and> spawned n es = (if next_task s \<le> n \<and> n < next_task s' then 1 else 0)"

lemma balanced_refl: "balanced n s [] s"
  by (simp add: balanced_def)

lemma balanced_trans:
  assumes "balanced n s es s1" "balanced n s1 es' s2"
  shows "balanced n s (es @ es') s2"
  unfolding balanced_def
proof (intro conjI allI impI)
  fix p q assume "es @ es' = p @ q"
  then consider r where "es = p @ r" | r where "p = es @ r" "es' = r @ q"
    by (auto simp: append_eq_append_conv2)
  then show "notified n p \<le> held n s + spawned n p"
  proof cases
    case 1
    then show ?thesis using assms(1) by (simp add: balanced_def)
  next
    case 2
    then have "notified n r \<le> held n s1 + spawned n r" using assms(2) by (simp add: balanced_def)
    then show ?thesis using 2(1) assms(1) by (simp add: balanced_def)
  qed
qed (use assms in \<open>auto simp: balanced_def\<close>)

lemma balanced_single:
  assumes "\<And>m. e \<noteq> NotifyCancel m" "\<And>m. \<not> spawns m e"
  shows "balanced n s [e] s"
  using assms by (auto simp: balanced_def Cons_eq_append_conv)

lemma balanced_cancel:
  assumes "conn_ok s" "cancel_sub s i = (es, s')"
  shows "balanced n s es s'"
proof -
  note c = cancel_sub_simps(1,5) [OF assms(2)]
  have "notified n p \<le> held n s + spawned n p" if "es = p @ q" for p q
    using cancel_sub_balance(1) [OF assms, of n] unfolding that by simp
  then show ?thesis
    using cancel_sub_balance [OF assms, of n] c(1) by (simp add: balanced_def)
qed

lemma spawn_ok:
  assumes "conn_ok s" "i \<notin> fst ` set (subs s)"
  shows "conn_ok (s\<lparr>subs := (i, next_task s) # subs s, next_task := Suc (next_task s)\<rparr>)"
  using assms by (auto simp: conn_ok_def less_Suc_eq)

lemma balanced_spawn:
  assumes "conn_ok s"
  shows "balanced n s [SpawnSubscribe (next_task s) i fs]
    (s\<lparr>subs := (i, next_task s) # subs s, next_task := Suc (next_task s)\<rparr>)"
proof -
  have "next_task s \<notin> snd ` set (subs s)" using assms by (auto simp: conn_ok_def)
  then show ?thesis by (auto simp: balanced_def held_def Cons_eq_append_conv)
qed

lemma handle_text_balanced:
  assumes "conn_ok s" "handle_text from_str disp s txt = (es, s')"
  shows "conn_ok s' \<and> balanced n s es s'"
proof (cases "parse_client_frame from_str txt")
  case None
  then show ?thesis using assms by (auto simp: handle_text_def intro: balanced_single)
next
  case (Some m)
  show ?thesis
  proof (cases m)
    case (Req i fs)
    obtain es1 s1 where c: "cancel_sub s i = (es1, s1)" by fastforce
    have "es = es1 @ [SpawnSubscribe (next_task s1) i fs]"
      "s' = s1\<lparr>subs := (i, next_task s1) # subs s1, next_task := Suc (next_task s1)\<rparr>"
      using assms(2) Some Req c by (auto simp: handle_text_def Let_def)
    then show ?thesis
      using spawn_ok [OF cancel_sub_ok [OF assms(1) c] cancel_sub_simps(2) [OF c]]
        balanced_trans [OF balanced_cancel [OF assms(1) c] balanced_spawn [OF cancel_sub_ok [OF assms(1) c]]]
      by simp
  next
    case (Close i)
    then have "cancel_sub s i = (es, s')" using assms(2) Some by (simp add: handle_text_def)
    then show ?thesis using balanced_cancel cancel_sub_ok assms(1) by blast
  next
    case (ClientPublish e)
    then show ?thesis using assms Some by (auto simp: handle_text_def intro: balanced_single)
  qed
qed

lemma read_frames_balanced:
  "conn_ok s \<Longrightarrow> read_frames from_str disp s fs = (es, s') \<Longrightarrow> conn_ok s' \<and> balanced n s es s'"
proof (induction from_str disp s fs arbitrary: es s' rule: read_frames.induct)
  case (2 from_str disp s t fs)
  obtain es1 s1 where h: "handle_text from_str disp s t = (es1, s1)" by fastforce
  obtain es2 s2 where r: "read_frames from_str disp s1 fs = (es2, s2)" by fastforce
  have eq: "es = es1 @ es2" "s' = s2" using 2(3) h r by auto
  have 1: "conn_ok s1" "balanced n s es1 s1" using handle_text_balanced [OF 2(2) h] by auto
  have "conn_ok s2 \<and> balanced n s1 es2 s2" using 2(1) [OF h [symmetric] refl 1(1) r] .
  then show ?case using balanced_trans [OF 1(2)] eq by simp
qed (auto intro: balanced_refl)

lemma balanced_cleanup:
  assumes "conn_ok s" "\<And>xs. mset (order xs) = mset xs"
  shows "notified n (map NotifyCancel (order (map snd (subs s))) @ [AwaitWriter]) = held n s"
    and "spawned n (map NotifyCancel xs @ [AwaitWriter]) = 0"
proof -
  have "notified n (map NotifyCancel xs) = count (mset xs) n" for xs
    by (induction xs) auto
  moreover have "count (mset (map snd (subs s))) n = held n s"
    using assms(1) by (auto simp: held_def conn_ok_def distinct_count_atmost_1 count_mset_0_iff)
  ultimately show "notified n (map NotifyCancel (order (map snd (subs s))) @ [AwaitWriter]) = held n s"
    using assms(2) by (simp del: mset_map)
  show "spawned n (map NotifyCancel xs @ [AwaitWriter]) = 0"
    by (induction xs) auto
qed

text \<open>A whole session: every task that was spawned is told to stop, once.\<close>

lemma run_session_cancels:
  assumes "\<And>xs. mset (order xs) = mset xs"
  shows "notified n (run_session from_str disp order frames) = spawned n (run_session from_str disp order frames)
    \<and> spawned n (run_session from_str disp order frames) \<le> 1
    \<and> (run_session from_str disp order frames = p @ q \<longrightarrow> notified n p \<le> spawned n p)"
proof -
  obtain es s where r: "read_frames from_str disp new_conn frames = (es, s)" by fastforce
  define fin where "fin = map NotifyCancel (order (map snd (subs s))) @ [AwaitWriter]"
  have run: "run_session from_str disp order frames = es @ fin"
    by (simp add: run_session_def r fin_def)
  have b: "conn_ok s" "balanced n new_conn es s"
    using read_frames_balanced [OF conn_ok_new r] by auto
  have fin: "notified n fin = held n s" "spawned n fin = 0"
    unfolding fin_def using balanced_cleanup [OF b(1) assms] by auto
  have h: "held n new_conn = 0" by (simp add: held_def new_conn_def)
  have es: "notified n es + held n s = spawned n es" "spawned n es \<le> 1"
    using b(2) h by (auto simp: balanced_def)
  have "notified n p \<le> spawned n p" if "es @ fin = p @ q" for p q
    using that
  proof (elim append_eq_append_conv2 [THEN iffD1, elim_format] exE disjE conjE)
    fix r assume "es = p @ r"
    then show ?thesis using b(2) h by (simp add: balanced_def)
  next
    fix r assume "es @ r = p" "fin = r @ q"
    then have "notified n r \<le> held n s" using fin(1) by auto
    then show ?thesis using \<open>es @ r = p\<close> es(1) by auto
  qed
  then show ?thesis using run es fin by simp
qed

section \<open>What the client has open\<close>

text \<open>The messages of the frames that are read, and what they leave open.\<close>

fun messages :: "(string \<Rightarrow> json list option) \<Rightarrow> inbound list \<Rightarrow> client_msg option list" where
  "messages from_str [] = []"
| "messages from_str (InText t # fs) = parse_client_frame from_str t # messages from_str fs"
| "messages from_str (InClose # fs) = []"
| "messages from_str (InError # fs) = []"
| "messages from_str (InOther # fs) = messages from_str fs"

fun wants :: "client_msg option \<Rightarrow> (string \<rightharpoonup> json list) \<Rightarrow> (string \<rightharpoonup> json list)" where
  "wants (Some (Req i fs)) m = m(i \<mapsto> fs)"
| "wants (Some (Close i)) m = m(i := None)"
| "wants _ m = m"

text \<open>The tasks of a trace that were not told to stop, with their subscription.\<close>

fun spawned_tasks :: "conn_effect list \<Rightarrow> (nat \<times> string \<times> json list) list" where
  "spawned_tasks [] = []"
| "spawned_tasks (SpawnSubscribe n i fs # es) = (n, i, fs) # spawned_tasks es"
| "spawned_tasks (_ # es) = spawned_tasks es"

definition live_tasks :: "conn_effect list \<Rightarrow> (nat \<times> string \<times> json list) list" where
  "live_tasks tr = filter (\<lambda>t. NotifyCancel (fst t) \<notin> set tr) (spawned_tasks tr)"

definition live_subs :: "conn_effect list \<Rightarrow> (string \<times> json list) list" where
  "live_subs tr = map snd (live_tasks tr)"

lemma spawned_tasks_append [simp]: "spawned_tasks (es @ es') = spawned_tasks es @ spawned_tasks es'"
  by (induction es rule: spawned_tasks.induct) auto

lemma live_tasks_Nil [simp]: "live_tasks [] = []"
  by (simp add: live_tasks_def)

lemma live_tasks_other:
  assumes "\<And>m. e \<noteq> NotifyCancel m" "\<And>m. \<not> spawns m e"
  shows "live_tasks (tr @ [e]) = live_tasks tr"
proof -
  have "spawned_tasks [e] = []" using assms(2) by (cases e) auto
  then show ?thesis using assms(1) by (auto simp: live_tasks_def intro: filter_cong)
qed

lemma live_tasks_spawn:
  "NotifyCancel n \<notin> set tr \<Longrightarrow> live_tasks (tr @ [SpawnSubscribe n i fs]) = live_tasks tr @ [(n, i, fs)]"
  by (simp add: live_tasks_def)

lemma live_tasks_notify:
  "live_tasks (tr @ [NotifyCancel n]) = filter (\<lambda>t. fst t \<noteq> n) (live_tasks tr)"
  by (auto simp: live_tasks_def intro: filter_cong)

text \<open>The map of the connection is exactly the live tasks, and they are what the client wants.\<close>

definition tracks :: "conn_effect list \<Rightarrow> conn \<Rightarrow> (string \<rightharpoonup> json list) \<Rightarrow> bool" where
  "tracks tr s m \<longleftrightarrow>
     conn_ok s \<and> map (\<lambda>t. (fst (snd t), fst t)) (live_tasks tr) = rev (subs s)
     \<and> (\<forall>(n, i, fs) \<in> set (live_tasks tr). m i = Some fs) \<and> dom m = fst ` set (subs s)
     \<and> (\<forall>n. NotifyCancel n \<in> set tr \<longrightarrow> n < next_task s)"

lemma tracks_new: "tracks [] new_conn Map.empty"
  by (simp add: tracks_def new_conn_def conn_ok_def)

lemma tracks_mem:
  assumes "tracks tr s m" "(n, i, fs) \<in> set (live_tasks tr)"
  shows "(i, n) \<in> set (subs s)" "m i = Some fs"
proof -
  have "(i, n) \<in> set (map (\<lambda>t. (fst (snd t), fst t)) (live_tasks tr))" using assms(2) by force
  moreover have "map (\<lambda>t. (fst (snd t), fst t)) (live_tasks tr) = rev (subs s)"
    using assms(1) by (simp add: tracks_def)
  ultimately show "(i, n) \<in> set (subs s)" by (simp only: set_rev)
  show "m i = Some fs" using assms by (auto simp: tracks_def)
qed

lemma tracks_other:
  assumes "tracks tr s m" "\<And>n. e \<noteq> NotifyCancel n" "\<And>n. \<not> spawns n e"
  shows "tracks (tr @ [e]) s m"
  using assms by (auto simp: tracks_def live_tasks_other)

lemma tracks_spawn:
  assumes "tracks tr s m" "i \<notin> fst ` set (subs s)"
  shows "tracks (tr @ [SpawnSubscribe (next_task s) i fs])
    (s\<lparr>subs := (i, next_task s) # subs s, next_task := Suc (next_task s)\<rparr>) (m(i \<mapsto> fs))"
proof -
  have "NotifyCancel (next_task s) \<notin> set tr" using assms(1) by (auto simp: tracks_def)
  note live = live_tasks_spawn [OF this, of i fs]
  have "j \<noteq> i" if "(n, j, gs) \<in> set (live_tasks tr)" for n j gs
    using tracks_mem(1) [OF assms(1) that] assms(2) by force
  then show ?thesis
    using assms spawn_ok [of s i] by (auto simp: tracks_def live less_Suc_eq)
qed

lemma tracks_cancel:
  assumes "tracks tr s m" "cancel_sub s i = (es, s')"
  shows "tracks (tr @ es) s' (m(i := None))"
proof (cases "map_of (subs s) i")
  case None
  then have "m i = None" using assms(1) by (auto simp: tracks_def map_of_eq_None_iff dom_def)
  then have "m(i := None) = m" by auto
  then show ?thesis using assms None by (simp add: cancel_sub_def)
next
  case (Some n)
  note c = cancel_sub_simps [OF assms(2)]
  have ok: "conn_ok s" using assms(1) by (simp add: tracks_def)
  then have mem: "(i, n) \<in> set (subs s)" and d: "distinct (map fst (subs s))" "distinct (map snd (subs s))"
    using Some by (auto simp: conn_ok_def dest: map_of_SomeD)
  have es: "es = [NotifyCancel n]" using c(5) Some by simp
  have same: "k \<noteq> n \<longleftrightarrow> j \<noteq> i" if "(k, j, gs) \<in> set (live_tasks tr)" for k j gs
    using tracks_mem(1) [OF assms(1) that] mem distinct_snd_unique [OF d(2)] eq_key_imp_eq_value [OF d(1)]
    by blast
  have "filter (\<lambda>t. fst t \<noteq> n) (live_tasks tr) = filter (\<lambda>t. fst (snd t) \<noteq> i) (live_tasks tr)"
    by (rule filter_cong [OF refl]) (use same in force)
  moreover have "map (\<lambda>t. (fst (snd t), fst t)) (filter (\<lambda>t. fst (snd t) \<noteq> i) ts)
      = filter (\<lambda>e. fst e \<noteq> i) (map (\<lambda>t. (fst (snd t), fst t)) ts)"
    for ts :: "(nat \<times> string \<times> json list) list"
    by (induction ts) auto
  moreover have "map (\<lambda>t. (fst (snd t), fst t)) (live_tasks tr) = rev (subs s)"
    using assms(1) by (simp add: tracks_def)
  ultimately have live: "map (\<lambda>t. (fst (snd t), fst t)) (live_tasks (tr @ es)) = rev (subs s')"
    by (simp only: es live_tasks_notify c(4) rev_filter)
  have "\<forall>(k, j, gs) \<in> set (live_tasks (tr @ es)). (m(i := None)) j = Some gs"
    using tracks_mem(2) [OF assms(1)] same by (auto simp: es live_tasks_notify)
  moreover have "dom (m(i := None)) = fst ` set (subs s')"
    using assms(1) c(4) by (auto simp: tracks_def)
  moreover have "n < next_task s" using ok mem by (force simp: conn_ok_def)
  ultimately show ?thesis
    using cancel_sub_ok [OF ok assms(2)] live assms(1) c(1) by (auto simp: tracks_def es)
qed

lemma tracks_text:
  assumes "tracks tr s m" "handle_text from_str disp s t = (es, s')"
  shows "tracks (tr @ es) s' (wants (parse_client_frame from_str t) m)"
proof (cases "(parse_client_frame from_str t, m)" rule: wants.cases)
  case (1 i fs m')
  obtain es1 s1 where c: "cancel_sub s i = (es1, s1)" by fastforce
  have "es = es1 @ [SpawnSubscribe (next_task s1) i fs]"
    "s' = s1\<lparr>subs := (i, next_task s1) # subs s1, next_task := Suc (next_task s1)\<rparr>"
    using assms(2) 1 c by (auto simp: handle_text_def Let_def)
  then show ?thesis
    using tracks_spawn [OF tracks_cancel [OF assms(1) c] cancel_sub_simps(2) [OF c], of fs] 1 by simp
next
  case (2 i m')
  then show ?thesis using assms tracks_cancel by (auto simp: handle_text_def)
qed (use assms in \<open>auto simp: handle_text_def intro!: tracks_other\<close>)

lemma tracks_frames:
  "tracks tr s m \<Longrightarrow> read_frames from_str disp s fs = (es, s')
    \<Longrightarrow> tracks (tr @ es) s' (fold wants (messages from_str fs) m)"
proof (induction from_str disp s fs arbitrary: tr m es s' rule: read_frames.induct)
  case (2 from_str disp s t fs)
  obtain es1 s1 where h: "handle_text from_str disp s t = (es1, s1)" by fastforce
  obtain es2 s2 where r: "read_frames from_str disp s1 fs = (es2, s2)" by fastforce
  have "es = es1 @ es2" "s' = s2" using 2(3) h r by auto
  then show ?case
    using 2(1) [OF h [symmetric] refl tracks_text [OF 2(2) h] r] by simp
qed auto

lemma tracks_live:
  assumes "tracks tr s m" "m i = Some fs"
  shows "\<exists>n. (n, i, fs) \<in> set (live_tasks tr)"
proof -
  have map: "map (\<lambda>t. (fst (snd t), fst t)) (live_tasks tr) = rev (subs s)"
    using assms(1) by (simp add: tracks_def)
  have "i \<in> fst ` set (rev (subs s))" using assms by (auto simp: tracks_def)
  then obtain n gs where n: "(n, i, gs) \<in> set (live_tasks tr)" unfolding map [symmetric] by force
  then show ?thesis using tracks_mem(2) [OF assms(1) n] assms(2) by auto
qed

lemma spawned_tasks_spawned: "n \<in> fst ` set (spawned_tasks es) \<longleftrightarrow> 0 < spawned n es"
  by (induction es rule: spawned_tasks.induct) auto

lemma spawned_once:
  "spawned n es \<le> 1 \<Longrightarrow> (n, x) \<in> set (spawned_tasks es) \<Longrightarrow> (n, y) \<in> set (spawned_tasks es) \<Longrightarrow> x = y"
proof (induction es rule: spawned_tasks.induct)
  case (2 m i fs es)
  have "(n, z) \<notin> set (spawned_tasks es)" if "m = n" for z
    using 2(2) that spawned_tasks_spawned [of n es] by force
  then show ?case using 2 by (auto split: if_splits)
qed auto

section \<open>Reactions\<close>

text \<open>The answer to one message, without the cancel of a replaced or closed subscription.\<close>

fun reaction :: "(json \<Rightarrow> string) \<Rightarrow> client_msg option \<Rightarrow> conn_effect list" where
  "reaction disp (Some (Req i fs)) = [SpawnSubscribe 0 i fs]"
| "reaction disp (Some (Close i)) = []"
| "reaction disp (Some (ClientPublish e)) = [SpawnPublish e]"
| "reaction disp None = [Enqueue (notice_frame disp ''unrecognized frame'')]"

fun reactions :: "conn_effect list \<Rightarrow> conn_effect list" where
  "reactions [] = []"
| "reactions (NotifyCancel n # es) = reactions es"
| "reactions (SpawnSubscribe n i fs # es) = SpawnSubscribe 0 i fs # reactions es"
| "reactions (e # es) = e # reactions es"

lemma reactions_append [simp]: "reactions (es @ es') = reactions es @ reactions es'"
  by (induction es rule: reactions.induct) auto

lemma reactions_cancel: "cancel_sub s i = (es, s') \<Longrightarrow> reactions es = []"
  by (auto simp: cancel_sub_def split: option.splits)

lemma reactions_text:
  "handle_text from_str disp s t = (es, s') \<Longrightarrow> reactions es = reaction disp (parse_client_frame from_str t)"
  by (cases "(disp, parse_client_frame from_str t)" rule: reaction.cases)
    (auto simp: handle_text_def Let_def dest: reactions_cancel split: prod.splits)

lemma reactions_frames:
  "read_frames from_str disp s fs = (es, s') \<Longrightarrow>
     reactions es = concat (map (reaction disp) (messages from_str fs))"
  by (induction from_str disp s fs arbitrary: es s' rule: read_frames.induct)
    (auto simp: reactions_text split: prod.splits)

text \<open>What ends the loop of a subscription task, and the last thing it does then.\<close>

fun ends_task :: "stream_event \<Rightarrow> bool" where
  "ends_task (StreamChunk c sent) \<longleftrightarrow> \<not> sent"
| "ends_task _ \<longleftrightarrow> True"

fun event_effects :: "(json \<Rightarrow> string) \<Rightarrow> string \<Rightarrow> 'tok \<Rightarrow> stream_event \<Rightarrow> 'tok task_effect list" where
  "event_effects disp i tok (StreamChunk c sent) = [TaskSend c]"
| "event_effects disp i tok (StreamError e) = [TaskSend (closed_frame disp i e)]"
| "event_effects disp i tok StreamEnd = []"
| "event_effects disp i tok CancelSignal = [HandleCancel tok ''client closed subscription'']"

lemma pump_running: "list_all (\<lambda>e. \<not> ends_task e) evs \<Longrightarrow>
    pump disp i tok (evs @ rest) = concat (map (event_effects disp i tok) evs) @ pump disp i tok rest"
proof (induction evs)
  case (Cons e evs)
  then show ?case by (cases e) auto
qed simp

lemma pump_ends: "ends_task e \<Longrightarrow> pump disp i tok (e # rest) = event_effects disp i tok e"
  by (cases e) auto

text \<open>The frames a task hands to the channel.\<close>

definition task_sends :: "'tok task_effect list \<Rightarrow> string list" where
  "task_sends es = List.map_filter (\<lambda>e. case e of TaskSend f \<Rightarrow> Some f | _ \<Rightarrow> None) es"

lemma task_sends_simps [simp]:
  "task_sends [] = []" "task_sends (es @ es') = task_sends es @ task_sends es'"
  "task_sends (TaskSend c # es) = c # task_sends es"
  "task_sends (CallTool n a # es) = task_sends es"
  "task_sends (HandleCancel t r # es) = task_sends es"
  by (simp_all add: task_sends_def List.map_filter_simps)

lemma pump_chunks: "task_sends (pump disp i tok (map (\<lambda>c. StreamChunk c True) cs @ [StreamEnd])) = cs"
  by (induction cs) auto

section \<open>Properties\<close>

text \<open>C16: over a whole session every subscription task that is spawned is told to stop exactly once,
  never before it was spawned, and nothing else is told to stop: by a REQ that replaces it, by its
  CLOSE, or by the clean-up when the client is gone, in whatever order the map is visited. So no
  upstream subscription is leaked by the connection, and none is cancelled twice.\<close>
theorem session_cancels:
  assumes "\<And>xs. mset (order xs) = mset xs"
  shows "notified n (run_session from_str disp order frames) = spawned n (run_session from_str disp order frames)
    \<and> spawned n (run_session from_str disp order frames) \<le> 1
    \<and> (run_session from_str disp order frames = p @ q \<longrightarrow> notified n p \<le> spawned n p)"
  using run_session_cancels [OF assms] by blast

theorem session_cancels_witness:
  "notified 0 (run_session (\<lambda>t. Some [JString t, JString ''sub1'']) (\<lambda>_. []) rev [InText ''REQ'', InOther, InText ''REQ'']) = 1
   \<and> notified 1 (run_session (\<lambda>t. Some [JString t, JString ''sub1'']) (\<lambda>_. []) rev [InText ''REQ'', InOther, InText ''REQ'']) = 1"
proof -
  let ?run = "run_session (\<lambda>t. Some [JString t, JString ''sub1'']) (\<lambda>_. []) rev [InText ''REQ'', InOther, InText ''REQ'']"
  have "notified n ?run = spawned n ?run" for n
    using session_cancels [of rev n] by simp
  moreover have "spawned 0 ?run = 1" "spawned 1 ?run = 1"
    by (simp_all add: run_session_def handle_text_def cancel_sub_def new_conn_def parse_client_frame_def)
  ultimately show ?thesis by simp
qed

text \<open>C15: at every moment the tasks that are running are what the client asked for: one task for each
  subscription id that was opened by a REQ and not closed since, with the filters of the last REQ of
  that id. Frames that are no messages, and everything behind the end of the connection, change
  nothing.\<close>
theorem session_open_subscriptions:
  "((i, fs) \<in> set (live_subs (fst (read_frames from_str disp new_conn frames)))
      \<longleftrightarrow> fold wants (messages from_str frames) Map.empty i = Some fs)
   \<and> distinct (map fst (live_subs (fst (read_frames from_str disp new_conn frames))))"
proof -
  obtain tr s where r: "read_frames from_str disp new_conn frames = (tr, s)" by fastforce
  define m where "m = fold wants (messages from_str frames) Map.empty"
  have t: "tracks tr s m"
    using tracks_frames [OF tracks_new r] by (simp add: m_def)
  have map: "map (\<lambda>t. (fst (snd t), fst t)) (live_tasks tr) = rev (subs s)" and ok: "conn_ok s"
    and dom: "dom m = fst ` set (subs s)"
    using t by (auto simp: tracks_def)
  have keys: "map fst (live_subs tr) = rev (map fst (subs s))"
    using arg_cong [OF map, of "map fst"] by (simp add: live_subs_def comp_def rev_map)
  have "(i, fs) \<in> set (live_subs tr) \<longleftrightarrow> m i = Some fs"
    using tracks_mem(2) [OF t] tracks_live [OF t, of i fs] by (force simp: live_subs_def)
  moreover have "distinct (map fst (live_subs tr))"
    using ok by (simp add: keys conn_ok_def)
  ultimately show ?thesis by (simp add: r m_def)
qed

text \<open>Every text frame is answered once and in order: a REQ spawns a subscription with the
  client's id and filters, an EVENT spawns one publish of its event, and anything that is no client
  message gets a NOTICE; a bad segment or an unreachable server is answered by one NOTICE with the
  error and the end of the connection, and spawns nothing.\<close>

lemma session_dispatch:
  "reactions (fst (read_frames from_str disp s frames)) = concat (map (reaction disp) (messages from_str frames))
   \<and> handle_ws from_str disp order parse get pubkey frames =
       (case parse pubkey of
          Inl e \<Rightarrow> [SocketSend (notice_frame disp (''error: '' @ path_error_display e)), SocketClose]
        | Inr parsed \<Rightarrow>
            (case get parsed of
               Inl e \<Rightarrow> [SocketSend (notice_frame disp (''error: '' @ e)), SocketClose]
             | Inr peer \<Rightarrow> run_session from_str disp order frames))"
  by (cases "read_frames from_str disp s frames")
    (simp add: reactions_frames handle_ws_def close_with_notice_def split: sum.splits prod.splits)

text \<open>A subscription task hands the client the chunks of the stream verbatim and in order, up to
  the first event that ends it, and then does one last thing: the CLOSED frame with the client's own
  subscription id on an error of the stream, one cancel of the stream's token when it is told to
  stop, nothing more when the stream is over or the connection no longer takes frames. A call that
  fails is a CLOSED frame; a cancel that comes before the stream is there sends nothing.\<close>

lemma subscribe_loop_frames:
  assumes "list_all (\<lambda>e. \<not> ends_task e) before" and "ends_task e"
  shows "subscribe_loop disp i fs (SetupOk tok) (before @ e # rest) =
      CallTool ''subscribe'' (subscribe_args i fs)
        # concat (map (event_effects disp i tok) before) @ event_effects disp i tok e
    \<and> subscribe_loop disp i fs (SetupOk tok) before =
      CallTool ''subscribe'' (subscribe_args i fs) # concat (map (event_effects disp i tok) before)
    \<and> subscribe_loop disp i fs (SetupFailed err) evs =
      [CallTool ''subscribe'' (subscribe_args i fs), TaskSend (closed_frame disp i err)]
    \<and> (\<forall>f. TaskSend f \<notin> set (subscribe_loop disp i fs (SetupCancelled called) evs))"
  using pump_running [OF assms(1), of disp i tok "e # rest"] pump_running [OF assms(1), of disp i tok "[]"]
    pump_ends [OF assms(2), of disp i tok rest]
  by (simp add: subscribe_loop_def Let_def)

text \<open>Publishing answers with exactly one frame, an OK frame. A failed call refuses the client's
  own event id with the error's text. An answer without content, or whose fields are missing or of
  another type, is a refusal without text for the id the client sent (empty when it sent none).\<close>

lemma publish_once_frame:
  "publish_once disp event answer =
     [CallTool ''publish_event'' [(''event'', event)], TaskSend (publish_frame disp event answer)]
   \<and> publish_frame disp event (Inl err) =
       ok_frame disp (case json_str event ''id'' of Some s \<Rightarrow> s | None \<Rightarrow> []) False err
   \<and> publish_frame disp event (Inr None) =
       ok_frame disp (case json_str event ''id'' of Some s \<Rightarrow> s | None \<Rightarrow> []) False []
   \<and> (\<exists>eid b msg. publish_frame disp event answer = ok_frame disp eid b msg
        \<and> (b \<longleftrightarrow> (\<exists>v. answer = Inr (Some v) \<and> jget v ''ok'' = Some (JBool True))))"
proof -
  have bool: "(case Option.bind x as_bool of Some b \<Rightarrow> b | None \<Rightarrow> False) \<longleftrightarrow> x = Some (JBool True)" for x
    by (cases "the x") (auto split: bind_splits option.splits elim: as_bool.elims)
  have obj: "args (json_object [(''event'', event)]) = [(''event'', event)]"
    by (simp add: json_object_def)
  have "\<exists>eid b msg. publish_frame disp event answer = ok_frame disp eid b msg
        \<and> (b \<longleftrightarrow> (\<exists>v. answer = Inr (Some v) \<and> jget v ''ok'' = Some (JBool True)))"
  proof (cases answer)
    case (Inl e)
    then show ?thesis by (auto simp: publish_frame_def Let_def)
  next
    case (Inr content)
    show ?thesis
      unfolding publish_frame_def Let_def Inr bool sum.case
      by (intro exI conjI, rule refl) (cases content, auto)
  qed
  then show ?thesis by (simp add: publish_once_def obj) (simp add: publish_frame_def Let_def json_str_def)
qed

end
