(* ===== verification/Nip11.thy ===== *)
theory Nip11
  imports Json_Value Shim_Config Path
begin

text \<open>
  \<open>crates/outlay-shim/src/nip11.rs\<close>: the NIP-11 document over HTTP, as JSON or as a page. Strings
  are their UTF-8 bytes; a double quote in a literal is \<open>dq\<close>. Arguments: \<open>pretty\<close> is
  \<open>serde_json::to_string_pretty\<close> (\<open>None\<close> for an error), \<open>to_str\<close> is \<open>HeaderValue::to_str\<close>,
  \<open>get\<close> the transport cache, \<open>call\<close> the call of the tool \<open>relay_info\<close>.
\<close>

definition nip11_json :: string where
  "nip11_json = ''application/nostr+json''"

abbreviation dq :: string where
  "dq \<equiv> [CHR 0x22]"

definition esc :: "string \<Rightarrow> string" where
  "esc s = replace_char (CHR 0x22) ''&quot;''
             (replace_char (CHR ''>'') ''&gt;''
               (replace_char (CHR ''<'') ''&lt;''
                 (replace_char (CHR ''&'') ''&amp;'' s)))"

text \<open>The page, in the pieces between what is filled in.\<close>

definition page_head :: string where
  "page_head = ''<!doctype html><html lang='' @ dq @ ''en'' @ dq @ ''><head><meta charset='' @ dq @ ''utf-8'' @ dq @ ''><title>''"

definition page_style :: string where
  "page_style = ''</title><style>body{font-family:system-ui,sans-serif;max-width:46rem;margin:2rem auto;padding:0 1rem}''
     @ ''.btn{display:inline-block;padding:.5rem 1rem;background:#6c4efc;color:#fff;text-decoration:none;border-radius:.5rem}''
     @ ''pre{background:#f5f5f5;padding:1rem;overflow:auto;border-radius:.5rem}</style></head><body><h1>''"

definition page_text :: string where
  "page_text = ''</h1><p>outlay-shim bridge. Nostr clients: request this URL with ''
     @ ''<code>Accept: application/nostr+json</code> for the NIP-11 document.</p>''"

definition jumble_btn :: "string option \<Rightarrow> string" where
  "jumble_btn jumble =
     (case jumble of
        Some relay \<Rightarrow>
          ''<p><a class='' @ dq @ ''btn'' @ dq @ '' href='' @ dq @ ''https://jumble.social/?r='' @ esc relay @ dq
          @ '' target='' @ dq @ ''_blank'' @ dq @ '' rel='' @ dq @ ''noopener noreferrer'' @ dq
          @ ''>Open feed in Jumble '' @ [CHR 0xE2, CHR 0x86, CHR 0x97] @ ''</a></p>''
      | None \<Rightarrow> [])"

definition pretty_or :: "(json \<Rightarrow> string option) \<Rightarrow> json \<Rightarrow> string" where
  "pretty_or pretty doc = (case pretty doc of Some s \<Rightarrow> s | None \<Rightarrow> ''{}'')"

definition doc_name :: "json \<Rightarrow> string" where
  "doc_name doc = (case Option.bind (jget doc ''name'') as_str of Some s \<Rightarrow> s | None \<Rightarrow> ''Nostr relay'')"

definition render_html :: "(json \<Rightarrow> string option) \<Rightarrow> json \<Rightarrow> string option \<Rightarrow> string" where
  "render_html pretty doc jumble =
     (let name = doc_name doc in
      page_head @ esc name @ page_style @ esc name @ page_text @ jumble_btn jumble
      @ ''<pre>'' @ esc (pretty_or pretty doc) @ ''</pre></body></html>'')"

record response =
  status :: nat
  headers :: "(string \<times> string) list"
  body :: string

definition plain :: "nat \<Rightarrow> string \<Rightarrow> response" where
  "plain code msg = \<lparr>status = code, headers = [(''content-type'', ''text/plain; charset=utf-8'')], body = msg\<rparr>"

definition wants_json :: "('h \<Rightarrow> string option) \<Rightarrow> 'h option \<Rightarrow> bool" where
  "wants_json to_str accept =
     (case Option.bind accept to_str of Some s \<Rightarrow> contains_str s nip11_json | None \<Rightarrow> False)"

definition render ::
  "(json \<Rightarrow> string option) \<Rightarrow> ('h \<Rightarrow> string option) \<Rightarrow> json \<Rightarrow> 'h option \<Rightarrow> string option \<Rightarrow> response"
where
  "render pretty to_str doc accept jumble =
     (if wants_json to_str accept
      then \<lparr>status = 200,
            headers = [(''content-type'', nip11_json), (''access-control-allow-origin'', ''*'')],
            body = pretty_or pretty doc\<rparr>
      else \<lparr>status = 200, headers = [(''content-type'', ''text/html; charset=utf-8'')],
            body = render_html pretty doc jumble\<rparr>)"

text \<open>The shim's own document; the package version of \<open>Cargo.toml\<close> is 0.4.0.\<close>

definition synth_root :: json where
  "synth_root =
     json_object [(''name'', JString ''outlay-shim''), (''software'', JString ''outlay-shim''),
       (''version'', JString ''0.4.0''), (''supported_nips'', JArray [JNumber (PosInt 1), JNumber (PosInt 11)]),
       (''limitation'', json_object [(''bridge'', JBool True)]),
       (''description'', JString (''Local NIP-01 bridge to CVM-exposed outlay servers. ''
          @ ''Connect at /<server-pubkey> (hex, npub, or nprofile).''))]"

definition serve_root ::
  "(json \<Rightarrow> string option) \<Rightarrow> ('h \<Rightarrow> string option) \<Rightarrow> 'h option \<Rightarrow> response"
where
  "serve_root pretty to_str accept = render pretty to_str synth_root accept None"

definition fetch_nip11 ::
  "(parsed_path \<Rightarrow> string + 'peer) \<Rightarrow> ('peer \<Rightarrow> string + json option) \<Rightarrow> parsed_path \<Rightarrow> string + json"
where
  "fetch_nip11 get call parsed =
     (case get parsed of
        Inl e \<Rightarrow> Inl e
      | Inr peer \<Rightarrow>
          (case call peer of
             Inl e \<Rightarrow> Inl (''relay_info: '' @ e)
           | Inr content \<Rightarrow> Inr (case content of Some v \<Rightarrow> v | None \<Rightarrow> JNull)))"

definition serve_pubkey ::
  "(json \<Rightarrow> string option) \<Rightarrow> ('h \<Rightarrow> string option) \<Rightarrow> (string \<Rightarrow> path_error + parsed_path)
   \<Rightarrow> (parsed_path \<Rightarrow> string + 'peer) \<Rightarrow> ('peer \<Rightarrow> string + json option) \<Rightarrow> shim_config \<Rightarrow> 'h option \<Rightarrow> string
   \<Rightarrow> response"
where
  "serve_pubkey pretty to_str parse get call cfg accept pubkey =
     (case parse pubkey of
        Inl e \<Rightarrow> plain 400 (path_error_display e)
      | Inr parsed \<Rightarrow>
          (case fetch_nip11 get call parsed of
             Inl e \<Rightarrow> plain 502 e
           | Inr doc \<Rightarrow>
               (let jumble = map_option (\<lambda>u. u @ ''/'' @ hex parsed) (public_url cfg)
                in render pretty to_str doc accept jumble)))"

section \<open>Escaping in one pass\<close>

definition esc_char :: "char \<Rightarrow> string" where
  "esc_char c =
     (if c = CHR ''&'' then ''&amp;'' else if c = CHR ''<'' then ''&lt;''
      else if c = CHR ''>'' then ''&gt;'' else if c = CHR 0x22 then ''&quot;'' else [c])"

lemma esc_single_pass: "esc s = concat (map esc_char s)"
  by (induction s) (auto simp: esc_def esc_char_def replace_char_def)

lemma esc_append [simp]: "esc (s @ t) = esc s @ esc t"
  by (simp add: esc_single_pass)

lemma esc_Cons: "esc (c # s) = esc_char c @ esc s"
  by (simp add: esc_single_pass)

lemma esc_Nil [simp]: "esc [] = []"
  by (simp add: esc_single_pass)

text \<open>A browser's reading of the four entities.\<close>

definition read_char :: "string \<Rightarrow> char \<times> string" where
  "read_char s =
     (case strip_prefix ''&amp;'' s of Some r \<Rightarrow> (CHR ''&'', r) | None \<Rightarrow>
      (case strip_prefix ''&lt;'' s of Some r \<Rightarrow> (CHR ''<'', r) | None \<Rightarrow>
       (case strip_prefix ''&gt;'' s of Some r \<Rightarrow> (CHR ''>'', r) | None \<Rightarrow>
        (case strip_prefix ''&quot;'' s of Some r \<Rightarrow> (CHR 0x22, r) | None \<Rightarrow> (hd s, tl s)))))"

lemma read_char_esc: "read_char (esc_char c @ t) = (c, t)"
  by (simp add: read_char_def esc_char_def)

lemma strip_prefix_length: "strip_prefix p s = Some r \<Longrightarrow> length s = length p + length r"
  by (induction p s rule: strip_prefix.induct) (auto split: if_splits)

lemma read_char_length: "s \<noteq> [] \<Longrightarrow> length (snd (read_char s)) < length s"
  by (auto simp: read_char_def dest: strip_prefix_length split: option.splits)

function unescape :: "string \<Rightarrow> string" where
  "unescape s = (if s = [] then [] else fst (read_char s) # unescape (snd (read_char s)))"
  by auto
termination by (relation "measure length") (auto simp: read_char_length)

declare unescape.simps [simp del]

lemma unescape_esc: "unescape (esc s) = s"
proof (induction s)
  case Nil
  then show ?case by (simp add: unescape.simps)
next
  case (Cons c s)
  have "esc_char c \<noteq> []" by (simp add: esc_char_def)
  then show ?case
    by (subst unescape.simps) (simp add: esc_Cons read_char_esc Cons.IH)
qed

text \<open>The characters that are markup in a page.\<close>

definition markup :: "string \<Rightarrow> string" where
  "markup s = filter (\<lambda>c. c \<in> {CHR ''<'', CHR ''>'', CHR 0x22}) s"

lemma markup_append [simp]: "markup (s @ t) = markup s @ markup t"
  by (simp add: markup_def)

lemma markup_simps:
  "markup [] = []"
  "markup (c # s) = (if c = CHR ''<'' \<or> c = CHR ''>'' \<or> c = CHR 0x22 then [c] else []) @ markup s"
  by (simp_all add: markup_def)

lemma markup_esc [simp]: "markup (esc s) = []"
  by (induction s) (auto simp: esc_Cons esc_char_def markup_def)

lemma markup_jumble: "markup (jumble_btn (Some relay)) = markup (jumble_btn (Some []))"
  by (simp only: jumble_btn_def option.case markup_append markup_esc)

lemma markup_jumble_nonempty: "markup (jumble_btn (Some [])) \<noteq> []"
proof -
  have "CHR ''<'' \<in> set (jumble_btn (Some []))" by (simp add: jumble_btn_def)
  then show ?thesis by (auto simp: markup_def filter_empty_conv)
qed

lemma jumble_btn_None: "jumble_btn None = []"
  by (simp add: jumble_btn_def)

lemma markup_page:
  "markup (render_html pretty doc jumble) =
     (markup page_head @ markup page_style @ markup page_text) @ markup (jumble_btn jumble)
     @ markup ''<pre></pre></body></html>''"
proof -
  have "''<pre></pre></body></html>'' = ''<pre>'' @ ''</pre></body></html>''" by simp
  then show ?thesis
    by (simp only: render_html_def Let_def markup_append markup_esc append_Nil append_assoc)
qed

lemma markup_template:
  "\<exists>a m z. m \<noteq> [] \<and> (\<forall>pretty doc jumble.
     markup (render_html pretty doc jumble) = a @ (if jumble = None then [] else m) @ z)"
proof -
  have btn: "markup (jumble_btn jumble) = (if jumble = None then [] else markup (jumble_btn (Some [])))" for jumble
  proof (cases jumble)
    case None
    then show ?thesis by (simp add: jumble_btn_None markup_simps(1))
  next
    case (Some relay)
    then show ?thesis using markup_jumble [of relay] by simp
  qed
  show ?thesis
    by (rule exI [of _ "markup page_head @ markup page_style @ markup page_text"],
        rule exI [of _ "markup (jumble_btn (Some []))"],
        rule exI [of _ "markup ''<pre></pre></body></html>''"],
        intro conjI allI, rule markup_jumble_nonempty, subst markup_page, subst btn, rule refl)
qed

section \<open>Properties\<close>

text \<open>C30: escaping is one pass that replaces each of the four special characters by its entity, although
  the code replaces in four passes; it loses nothing, since reading the entities back gives the
  text; and its result has no character that could open a tag or leave an attribute.\<close>
theorem esc_correct:
  "esc s = concat (map esc_char s) \<and> unescape (esc s) = s
   \<and> set (esc s) \<inter> {CHR ''<'', CHR ''>'', CHR 0x22} = {}"
proof -
  have "\<forall>c \<in> set (esc s). c \<notin> {CHR ''<'', CHR ''>'', CHR 0x22}"
    using markup_esc [of s] unfolding markup_def filter_empty_conv .
  then have "set (esc s) \<inter> {CHR ''<'', CHR ''>'', CHR 0x22} = {}"
    by blast
  then show ?thesis using esc_single_pass unescape_esc by simp
qed

text \<open>C31: no document and no link can inject markup into the page: the tags and attribute quotes of a
  rendered page are those of the template, the same for every document and every link.\<close>
theorem render_html_no_injection:
  "markup (render_html pretty doc jumble) = markup (render_html pretty' doc' jumble')
   \<longleftrightarrow> (jumble = None \<longleftrightarrow> jumble' = None)"
proof -
  obtain a m z where "m \<noteq> []"
    and page: "\<And>pretty doc jumble. markup (render_html pretty doc jumble) = a @ (if jumble = None then [] else m) @ z"
    using markup_template by blast
  then show ?thesis unfolding page by (cases jumble; cases jumble') simp_all
qed

text \<open>Every request for a server's page is answered, and the status tells why: 400 exactly for a
  segment that is no public key, 502 exactly when the server cannot be reached or its
  \<open>relay_info\<close> fails, and 200 otherwise, with the document as JSON and open to other origins when
  the client accepts NIP-11 JSON, and as a page otherwise. A server that answers without content
  gives the document null, not an error.\<close>

lemma serve_pubkey_status:
  "status (serve_pubkey pretty to_str parse get call cfg accept pubkey) =
     (case parse pubkey of
        Inl e \<Rightarrow> 400
      | Inr p \<Rightarrow> (case fetch_nip11 get call p of Inl e \<Rightarrow> 502 | Inr doc \<Rightarrow> 200))
   \<and> (parse pubkey = Inr p \<and> get p = Inr peer \<and> call peer = Inr c \<longrightarrow>
        body (serve_pubkey pretty to_str parse get call cfg accept pubkey) =
          (let doc = (case c of Some v \<Rightarrow> v | None \<Rightarrow> JNull) in
           if \<exists>h s a b. accept = Some h \<and> to_str h = Some s \<and> s = a @ nip11_json @ b
           then pretty_or pretty doc
           else render_html pretty doc (map_option (\<lambda>u. u @ ''/'' @ hex p) (public_url cfg))))"
proof -
  have wants: "wants_json to_str accept \<longleftrightarrow> (\<exists>h s a b. accept = Some h \<and> to_str h = Some s \<and> s = a @ nip11_json @ b)"
  proof (cases "Option.bind accept to_str")
    case None
    then have "accept = None \<or> (\<exists>h. accept = Some h \<and> to_str h = None)" by (cases accept) auto
    then show ?thesis using None by (auto simp: wants_json_def)
  next
    case (Some s)
    then obtain h where "accept = Some h" "to_str h = Some s" by (auto simp: bind_eq_Some_conv)
    then show ?thesis by (simp add: wants_json_def contains_str_iff)
  qed
  have status: "status (render pretty to_str doc accept jumble) = 200" for doc jumble
    by (simp add: render_def)
  have "status (serve_pubkey pretty to_str parse get call cfg accept pubkey) =
     (case parse pubkey of
        Inl e \<Rightarrow> 400
      | Inr p \<Rightarrow> (case fetch_nip11 get call p of Inl e \<Rightarrow> 502 | Inr doc \<Rightarrow> 200))"
    by (simp add: serve_pubkey_def Let_def plain_def status split: sum.split)
  moreover have "body (serve_pubkey pretty to_str parse get call cfg accept pubkey) =
      (let doc = (case c of Some v \<Rightarrow> v | None \<Rightarrow> JNull) in
       if wants_json to_str accept then pretty_or pretty doc
       else render_html pretty doc (map_option (\<lambda>u. u @ ''/'' @ hex p) (public_url cfg)))"
    if "parse pubkey = Inr p" "get p = Inr peer" "call peer = Inr c"
    using that by (simp add: serve_pubkey_def fetch_nip11_def render_def Let_def)
  ultimately show ?thesis unfolding wants by blast
qed

end
