(* ===== verification/Relay_Pipe.thy ===== *)
theory Relay_Pipe
  imports Rust_Str
begin

text \<open>
  \<open>crates/outlay-shim/src/relay.rs\<close>: the pipe between a client's WebSocket and the colocated
  relay. A message carries its text or its bytes; the close frame is a code and a reason. The loop
  consumes a list of what won the \<open>select!\<close>, with the answer of the sink where one was written to.
\<close>

type_synonym close_frame = "(nat \<times> string) option"

datatype axum_msg =
    AxText string
  | AxBinary string
  | AxPing string
  | AxPong string
  | AxClose close_frame

datatype tg_msg =
    TgText string
  | TgBinary string
  | TgPing string
  | TgPong string
  | TgClose close_frame
  | TgFrame string

fun to_tungstenite :: "axum_msg \<Rightarrow> tg_msg" where
  "to_tungstenite (AxText t) = TgText t"
| "to_tungstenite (AxBinary b) = TgBinary b"
| "to_tungstenite (AxPing b) = TgPing b"
| "to_tungstenite (AxPong b) = TgPong b"
| "to_tungstenite (AxClose _) = TgClose None"

fun from_tungstenite :: "tg_msg \<Rightarrow> axum_msg option" where
  "from_tungstenite (TgText t) = Some (AxText t)"
| "from_tungstenite (TgBinary b) = Some (AxBinary b)"
| "from_tungstenite (TgPing b) = Some (AxPing b)"
| "from_tungstenite (TgPong b) = Some (AxPong b)"
| "from_tungstenite (TgClose _) = None"
| "from_tungstenite (TgFrame _) = None"

text \<open>\<open>None\<close> is the end of a stream or an error of it; the flag is whether the send succeeded.\<close>

datatype pipe_event =
    FromClient "axum_msg option" bool
  | FromRelay "tg_msg option" bool

datatype pipe_effect = ToRelay tg_msg | ToClient axum_msg | CloseRelay | CloseClient

text \<open>The loop: what it sends, and whether it has been left.\<close>

fun pipe_loop :: "pipe_event list \<Rightarrow> pipe_effect list \<times> bool" where
  "pipe_loop [] = ([], False)"
| "pipe_loop (FromClient (Some m) sent # evs) =
     (if \<not> sent then ([ToRelay (to_tungstenite m)], True)
      else (let (es, fin) = pipe_loop evs in (ToRelay (to_tungstenite m) # es, fin)))"
| "pipe_loop (FromClient None sent # evs) = ([], True)"
| "pipe_loop (FromRelay (Some m) sent # evs) =
     (case from_tungstenite m of
        Some a \<Rightarrow>
          if \<not> sent then ([ToClient a], True)
          else (let (es, fin) = pipe_loop evs in (ToClient a # es, fin))
      | None \<Rightarrow> ([], True))"
| "pipe_loop (FromRelay None sent # evs) = ([], True)"

definition forward_pipe :: "string + unit \<Rightarrow> pipe_event list \<Rightarrow> pipe_effect list" where
  "forward_pipe connected evs =
     (case connected of
        Inl e \<Rightarrow> []
      | Inr _ \<Rightarrow> (let (es, fin) = pipe_loop evs in if fin then es @ [CloseRelay, CloseClient] else es))"

section \<open>The two directions\<close>

text \<open>When two messages are the same: one kind, and one text or payload. A Close is the same as a Close
  that has lost its code and reason. A Close of the relay and a raw frame are not passed on.\<close>

fun same_message :: "axum_msg \<Rightarrow> tg_msg \<Rightarrow> bool" where
  "same_message (AxText a) (TgText b) \<longleftrightarrow> a = b"
| "same_message (AxBinary a) (TgBinary b) \<longleftrightarrow> a = b"
| "same_message (AxPing a) (TgPing b) \<longleftrightarrow> a = b"
| "same_message (AxPong a) (TgPong b) \<longleftrightarrow> a = b"
| "same_message (AxClose c) (TgClose d) \<longleftrightarrow> d = None"
| "same_message _ _ \<longleftrightarrow> False"

fun passed_on :: "tg_msg \<Rightarrow> bool" where
  "passed_on (TgClose c) \<longleftrightarrow> False"
| "passed_on (TgFrame f) \<longleftrightarrow> False"
| "passed_on _ \<longleftrightarrow> True"

lemma same_to: "same_message m (to_tungstenite m)"
  by (cases m) auto

lemma same_from: "from_tungstenite t = Some a \<Longrightarrow> same_message a t"
  by (cases t) auto

lemma from_None_iff: "from_tungstenite t = None \<longleftrightarrow> \<not> passed_on t"
  by (cases t) auto

fun client_event :: "pipe_event \<Rightarrow> axum_msg option" where
  "client_event (FromClient m sent) = m"
| "client_event (FromRelay m sent) = None"

fun relay_event :: "pipe_event \<Rightarrow> tg_msg option" where
  "relay_event (FromClient m sent) = None"
| "relay_event (FromRelay m sent) = m"

fun ends_pipe :: "pipe_event \<Rightarrow> bool" where
  "ends_pipe (FromClient m sent) \<longleftrightarrow> m = None \<or> \<not> sent"
| "ends_pipe (FromRelay m sent) \<longleftrightarrow> m = None \<or> \<not> sent \<or> (\<exists>x. m = Some x \<and> \<not> passed_on x)"

definition to_relay :: "pipe_effect list \<Rightarrow> tg_msg list" where
  "to_relay es = List.map_filter (\<lambda>e. case e of ToRelay m \<Rightarrow> Some m | _ \<Rightarrow> None) es"

definition to_client :: "pipe_effect list \<Rightarrow> axum_msg list" where
  "to_client es = List.map_filter (\<lambda>e. case e of ToClient m \<Rightarrow> Some m | _ \<Rightarrow> None) es"

lemma to_relay_simps [simp]:
  "to_relay [] = []" "to_relay (ToRelay m # es) = m # to_relay es" "to_relay (ToClient a # es) = to_relay es"
  "to_relay (CloseRelay # es) = to_relay es" "to_relay (CloseClient # es) = to_relay es"
  "to_relay (es @ es') = to_relay es @ to_relay es'"
  by (simp_all add: to_relay_def List.map_filter_def)

lemma to_client_simps [simp]:
  "to_client [] = []" "to_client (ToClient m # es) = m # to_client es" "to_client (ToRelay a # es) = to_client es"
  "to_client (CloseRelay # es) = to_client es" "to_client (CloseClient # es) = to_client es"
  "to_client (es @ es') = to_client es @ to_client es'"
  by (simp_all add: to_client_def List.map_filter_def)

lemma map_filter_simps [simp]:
  "List.map_filter f [] = []"
  "List.map_filter f (x # xs) = (case f x of Some y \<Rightarrow> y # List.map_filter f xs | None \<Rightarrow> List.map_filter f xs)"
  by (simp_all add: List.map_filter_def split: option.split)

text \<open>The events before the loop is left, and the one that leaves it.\<close>

lemma pipe_loop_running:
  "list_all (\<lambda>e. \<not> ends_pipe e) evs \<Longrightarrow>
     to_relay (fst (pipe_loop (evs @ rest))) =
       map to_tungstenite (List.map_filter client_event evs) @ to_relay (fst (pipe_loop rest))
     \<and> to_client (fst (pipe_loop (evs @ rest))) =
       List.map_filter (\<lambda>e. Option.bind (relay_event e) from_tungstenite) evs @ to_client (fst (pipe_loop rest))
     \<and> snd (pipe_loop (evs @ rest)) = snd (pipe_loop rest)"
  by (induction evs rule: pipe_loop.induct) (auto simp: from_None_iff [symmetric] split: prod.splits option.splits)

lemma pipe_loop_ends: "ends_pipe e \<Longrightarrow> snd (pipe_loop (e # rest))"
  by (cases "e # rest" rule: pipe_loop.cases) (auto simp: from_None_iff [symmetric] split: prod.splits option.splits)

lemma pipe_loop_last:
  "ends_pipe e \<Longrightarrow>
     to_relay (fst (pipe_loop (e # rest))) = map to_tungstenite (List.map_filter client_event [e])
     \<and> to_client (fst (pipe_loop (e # rest))) =
         List.map_filter (\<lambda>e. Option.bind (relay_event e) from_tungstenite) [e]"
  by (cases "e # rest" rule: pipe_loop.cases) (auto simp: from_None_iff [symmetric] split: prod.splits option.splits)

text \<open>What is passed on, message by message.\<close>

lemma same_to_relay: "list_all2 same_message ms (map to_tungstenite ms)"
  by (induction ms) (simp_all add: same_to)

lemma same_to_client:
  "list_all2 (\<lambda>t a. same_message a t) (filter passed_on (List.map_filter relay_event evs))
     (List.map_filter (\<lambda>e. Option.bind (relay_event e) from_tungstenite) evs)"
proof (induction evs)
  case (Cons e evs)
  then show ?case
    using from_None_iff same_from by (cases "relay_event e") (auto split: option.splits, force+)
qed simp

section \<open>Properties\<close>

text \<open>C37: the pipe interprets nothing. Until one side ends it, every text, binary, ping and pong message
  reaches the other side as a message of the same kind with the same content, and each direction
  keeps its order; a Close of the client reaches the relay as a Close, without its code and reason.
  The pipe ends with the end or an error of either side, with a failed send, and with a Close or a
  raw frame of the relay, which are not passed on; then nothing more is sent and both sides are
  closed exactly once.\<close>
theorem pipe_verbatim:
  assumes "list_all (\<lambda>e. \<not> ends_pipe e) before" and "ends_pipe e"
  shows "\<exists>es. forward_pipe (Inr ()) (before @ e # rest) = es @ [CloseRelay, CloseClient]
      \<and> CloseRelay \<notin> set es \<and> CloseClient \<notin> set es
      \<and> list_all2 same_message (List.map_filter client_event (before @ [e])) (to_relay es)
      \<and> list_all2 (\<lambda>t a. same_message a t) (filter passed_on (List.map_filter relay_event (before @ [e]))) (to_client es)"
proof -
  let ?es = "fst (pipe_loop (before @ e # rest))"
  have fin: "snd (pipe_loop (before @ e # rest))"
    using pipe_loop_running [OF assms(1)] pipe_loop_ends [OF assms(2)] by simp
  have once: "CloseRelay \<notin> set (fst (pipe_loop evs)) \<and> CloseClient \<notin> set (fst (pipe_loop evs))" for evs
    by (induction evs rule: pipe_loop.induct) (auto split: prod.splits option.splits)
  have run: "forward_pipe (Inr ()) (before @ e # rest) = ?es @ [CloseRelay, CloseClient]"
    using fin by (cases "pipe_loop (before @ e # rest)") (simp add: forward_pipe_def)
  have sent: "to_relay ?es = map to_tungstenite (List.map_filter client_event (before @ [e]))"
    "to_client ?es = List.map_filter (\<lambda>e. Option.bind (relay_event e) from_tungstenite) (before @ [e])"
    using pipe_loop_running [OF assms(1), of "e # rest"] pipe_loop_last [OF assms(2), of rest] by simp_all
  show ?thesis
    by (intro exI [of _ ?es] conjI run once [THEN conjunct1] once [THEN conjunct2])
      (simp_all only: sent same_to_relay same_to_client)
qed

theorem pipe_verbatim_witness:
  "\<exists>es. forward_pipe (Inr ())
      [FromClient (Some (AxText ''req'')) True, FromRelay (Some (TgText ''eose'')) True,
       FromRelay (Some (TgClose None)) True, FromClient (Some (AxText ''late'')) True] = es @ [CloseRelay, CloseClient]
     \<and> list_all2 same_message [AxText ''req''] (to_relay es)
     \<and> list_all2 (\<lambda>t a. same_message a t) [TgText ''eose''] (to_client es)"
  using pipe_verbatim [of "[FromClient (Some (AxText ''req'')) True, FromRelay (Some (TgText ''eose'')) True]"
      "FromRelay (Some (TgClose None)) True" "[FromClient (Some (AxText ''late'')) True]"]
  by auto

text \<open>Translating a message to the relay's library and back gives the message, for every message
  that is not a Close; a Close goes to the relay without its code and reason, and one that comes
  from the relay, like a raw frame, has no counterpart.\<close>

lemma tungstenite_roundtrip:
  "from_tungstenite (to_tungstenite m) = (case m of AxClose c \<Rightarrow> None | _ \<Rightarrow> Some m)
   \<and> (from_tungstenite t = Some m \<longleftrightarrow> to_tungstenite m = t \<and> (\<forall>c. m \<noteq> AxClose c))
   \<and> (from_tungstenite t = None \<longleftrightarrow> (\<exists>c. t = TgClose c) \<or> (\<exists>f. t = TgFrame f))"
  by (cases m; cases t) auto

end
