(* ===== verification/Transport_Cache.thy ===== *)
theory Transport_Cache
  imports Transport
begin

text \<open>
  The transport cache of \<open>crates/outlay-shim/src/transport.rs\<close>: one shared transport per server
  key. The bounded map is the \<open>lru\<close> crate's; its documented contract is the locale \<open>lru_cache\<close>,
  and the model takes its \<open>get\<close> and \<open>put\<close> as arguments. A recency list is an implementation of
  the contract. The cells the map points to live in a store, because an evicted cell is still
  held by the calls that looked it up: \<open>Arc<OnceCell<SharedTransport>>\<close> is an address.

  \<open>get\<close> runs concurrently. Its locked block is the function \<open>cache_lookup\<close>; the rest is a step
  relation: one caller at a time builds into an empty cell, the others wait for the cell; a failed
  or abandoned build leaves the cell empty.
\<close>

section \<open>The contract of the bounded map\<close>

abbreviation others :: "string \<Rightarrow> (string \<times> 'v) list \<Rightarrow> (string \<times> 'v) list" where
  "others k es \<equiv> filter (\<lambda>e. fst e \<noteq> k) es"

locale lru_cache =
  fixes lget :: "'m \<Rightarrow> string \<Rightarrow> 'v option \<times> 'm"
    and lput :: "'m \<Rightarrow> string \<Rightarrow> 'v \<Rightarrow> 'm"
    and entries :: "'m \<Rightarrow> (string \<times> 'v) list"
    and cap :: "'m \<Rightarrow> nat"
  assumes get_value: "fst (lget m k) = map_of (entries m) k"
    and get_hit: "map_of (entries m) k = Some v \<Longrightarrow> entries (snd (lget m k)) = (k, v) # others k (entries m)"
    and get_miss: "map_of (entries m) k = None \<Longrightarrow> entries (snd (lget m k)) = entries m"
    and put_entries: "entries (lput m k v) = take (cap m) ((k, v) # others k (entries m))"
    and cap_get: "cap (snd (lget m k)) = cap m"
    and cap_put: "cap (lput m k v) = cap m"

text \<open>The recency list, most recent first.\<close>

record 'v recency =
  rl_cap :: nat
  rl_entries :: "(string \<times> 'v) list"

definition rl_get :: "'v recency \<Rightarrow> string \<Rightarrow> 'v option \<times> 'v recency" where
  "rl_get m k =
     (case map_of (rl_entries m) k of
        Some v \<Rightarrow> (Some v, m\<lparr>rl_entries := (k, v) # others k (rl_entries m)\<rparr>)
      | None \<Rightarrow> (None, m))"

definition rl_put :: "'v recency \<Rightarrow> string \<Rightarrow> 'v \<Rightarrow> 'v recency" where
  "rl_put m k v = m\<lparr>rl_entries := take (rl_cap m) ((k, v) # others k (rl_entries m))\<rparr>"

interpretation recency: lru_cache rl_get rl_put rl_entries rl_cap
  by unfold_locales (auto simp: rl_get_def rl_put_def split: option.splits)

section \<open>The cache and its callers\<close>

datatype transport = Transport (for_key: string) (serial: nat)

datatype cell = CellEmpty | CellBuilding nat | CellReady transport

datatype caller =
    Idle
  | Waiting string nat
  | Building string nat
  | Returned string nat "string + transport"

record 'm cache =
  lru :: 'm
  cells :: "nat \<Rightarrow> cell"
  next_cell :: nat
  callers :: "nat \<Rightarrow> caller"
  builds :: nat

definition new_cache :: "'m \<Rightarrow> 'm cache" where
  "new_cache m = \<lparr>lru = m, cells = (\<lambda>_. CellEmpty), next_cell = 0, callers = (\<lambda>_. Idle), builds = 0\<rparr>"

text \<open>The block under the lock: the cell of a key, a fresh one put into the map on a miss.\<close>

definition cache_lookup ::
  "('m \<Rightarrow> string \<Rightarrow> nat option \<times> 'm) \<Rightarrow> ('m \<Rightarrow> string \<Rightarrow> nat \<Rightarrow> 'm) \<Rightarrow> 'm cache \<Rightarrow> string \<Rightarrow> nat \<times> 'm cache"
where
  "cache_lookup lget lput s k =
     (case lget (lru s) k of
        (Some a, m) \<Rightarrow> (a, s\<lparr>lru := m\<rparr>)
      | (None, m) \<Rightarrow> (next_cell s, s\<lparr>lru := lput m k (next_cell s), next_cell := Suc (next_cell s)\<rparr>))"

text \<open>
  \<open>TransportCache::get\<close> as steps of its callers: the lookup, then \<open>get_or_try_init\<close>. The
  transport that is built is configured for the key that was looked up (\<open>client_config\<close>).
\<close>

inductive cache_step ::
  "('m \<Rightarrow> string \<Rightarrow> nat option \<times> 'm) \<Rightarrow> ('m \<Rightarrow> string \<Rightarrow> nat \<Rightarrow> 'm) \<Rightarrow> 'm cache \<Rightarrow> 'm cache \<Rightarrow> bool"
  for lget lput
where
  lookup: "callers s i = Idle \<Longrightarrow> cache_lookup lget lput s k = (a, s') \<Longrightarrow>
     cache_step lget lput s (s'\<lparr>callers := (callers s')(i := Waiting k a)\<rparr>)"
| join: "callers s i = Waiting k a \<Longrightarrow> cells s a = CellReady t \<Longrightarrow>
     cache_step lget lput s (s\<lparr>callers := (callers s)(i := Returned k a (Inr t))\<rparr>)"
| start: "callers s i = Waiting k a \<Longrightarrow> cells s a = CellEmpty \<Longrightarrow>
     cache_step lget lput s
       (s\<lparr>cells := (cells s)(a := CellBuilding i), callers := (callers s)(i := Building k a)\<rparr>)"
| built: "callers s i = Building k a \<Longrightarrow>
     cache_step lget lput s
       (s\<lparr>cells := (cells s)(a := CellReady (Transport k (builds s))), builds := Suc (builds s),
          callers := (callers s)(i := Returned k a (Inr (Transport k (builds s))))\<rparr>)"
| failed: "callers s i = Building k a \<Longrightarrow>
     cache_step lget lput s
       (s\<lparr>cells := (cells s)(a := CellEmpty), callers := (callers s)(i := Returned k a (Inl e))\<rparr>)"
| abandoned: "callers s i = Building k a \<Longrightarrow>
     cache_step lget lput s (s\<lparr>cells := (cells s)(a := CellEmpty), callers := (callers s)(i := Idle)\<rparr>)"
| leave: "callers s i = Returned k a r \<or> callers s i = Waiting k a \<Longrightarrow>
     cache_step lget lput s (s\<lparr>callers := (callers s)(i := Idle)\<rparr>)"

inductive cache_reachable ::
  "('m \<Rightarrow> string \<Rightarrow> nat option \<times> 'm) \<Rightarrow> ('m \<Rightarrow> string \<Rightarrow> nat \<Rightarrow> 'm) \<Rightarrow> 'm \<Rightarrow> 'm cache \<Rightarrow> bool"
  for lget lput m
where
  fresh: "cache_reachable lget lput m (new_cache m)"
| step: "cache_reachable lget lput m s \<Longrightarrow> cache_step lget lput s s' \<Longrightarrow> cache_reachable lget lput m s'"

inductive_cases cache_stepE: "cache_step lget lput s s'"

section \<open>The invariant\<close>

text \<open>
  \<open>key_of\<close> assigns to every allocated cell the key it was made for. The map and all callers agree
  with it, so does the transport in a cell; a cell is being built by exactly the caller that says
  so; what a caller was handed is what its cell holds.
\<close>

fun caller_cell :: "caller \<Rightarrow> (string \<times> nat) option" where
  "caller_cell Idle = None"
| "caller_cell (Waiting k a) = Some (k, a)"
| "caller_cell (Building k a) = Some (k, a)"
| "caller_cell (Returned k a r) = Some (k, a)"

definition callers_ok :: "(nat \<Rightarrow> string) \<Rightarrow> 'm cache \<Rightarrow> bool" where
  "callers_ok key_of s \<longleftrightarrow>
     (\<forall>i k a. caller_cell (callers s i) = Some (k, a) \<longrightarrow> key_of a = k \<and> a < next_cell s)"

definition builders_ok :: "'m cache \<Rightarrow> bool" where
  "builders_ok s \<longleftrightarrow>
     (\<forall>i a. cells s a = CellBuilding i \<longleftrightarrow> (\<exists>k. callers s i = Building k a))"

definition handed_ok :: "'m cache \<Rightarrow> bool" where
  "handed_ok s \<longleftrightarrow> (\<forall>i k a t. callers s i = Returned k a (Inr t) \<longrightarrow> cells s a = CellReady t)"

definition cells_ok :: "(nat \<Rightarrow> string) \<Rightarrow> 'm cache \<Rightarrow> bool" where
  "cells_ok key_of s \<longleftrightarrow>
     (\<forall>a t. cells s a = CellReady t \<longrightarrow> for_key t = key_of a \<and> a < next_cell s \<and> serial t < builds s)
     \<and> (\<forall>a b t. cells s a = CellReady t \<and> cells s b = CellReady t \<longrightarrow> a = b)"

definition map_ok :: "('m \<Rightarrow> (string \<times> nat) list) \<Rightarrow> ('m \<Rightarrow> nat) \<Rightarrow> (nat \<Rightarrow> string) \<Rightarrow> 'm cache \<Rightarrow> bool" where
  "map_ok entries cap key_of s \<longleftrightarrow>
     distinct (map fst (entries (lru s))) \<and> length (entries (lru s)) \<le> cap (lru s)
     \<and> (\<forall>(k, a) \<in> set (entries (lru s)). key_of a = k \<and> a < next_cell s)"

definition cache_inv ::
  "('m \<Rightarrow> (string \<times> nat) list) \<Rightarrow> ('m \<Rightarrow> nat) \<Rightarrow> (nat \<Rightarrow> string) \<Rightarrow> 'm cache \<Rightarrow> bool"
where
  "cache_inv entries cap key_of s \<longleftrightarrow>
     callers_ok key_of s \<and> builders_ok s \<and> handed_ok s \<and> cells_ok key_of s \<and> map_ok entries cap key_of s"

lemmas inv_defs = callers_ok_def builders_ok_def handed_ok_def cells_ok_def

text \<open>The lookup leaves callers, cells and builds alone.\<close>

lemma cache_lookup_frame [frame_simps]:
  assumes "cache_lookup lget lput s k = (a, s')"
  shows "callers s' = callers s" "cells s' = cells s" "builds s' = builds s"
    and "next_cell s \<le> next_cell s'"
  using assms by (auto simp: cache_lookup_def split: prod.splits option.splits)

text \<open>Each of the other steps keeps the parts of the invariant about callers and cells.\<close>

definition cell_inv :: "(nat \<Rightarrow> string) \<Rightarrow> 'm cache \<Rightarrow> bool" where
  "cell_inv key_of s \<longleftrightarrow> callers_ok key_of s \<and> builders_ok s \<and> handed_ok s \<and> cells_ok key_of s"

lemma cell_inv_caller:
  assumes "cell_inv key_of s"
  shows "callers s i = Waiting k a \<Longrightarrow> key_of a = k \<and> a < next_cell s"
    and "callers s i = Building k a \<Longrightarrow> key_of a = k \<and> a < next_cell s \<and> cells s a = CellBuilding i"
    and "callers s i = Returned k a r \<Longrightarrow> key_of a = k \<and> a < next_cell s"
    and "cells s a = CellBuilding i \<Longrightarrow> callers s i = Building (key_of a) a"
    and "callers s i = Returned k a (Inr t) \<Longrightarrow> cells s a = CellReady t"
proof -
  have c: "caller_cell (callers s i) = Some (k, a) \<Longrightarrow> key_of a = k \<and> a < next_cell s" for k
    using assms by (simp add: cell_inv_def callers_ok_def)
  have b: "cells s a = CellBuilding i \<longleftrightarrow> (\<exists>k. callers s i = Building k a)"
    using assms by (simp add: cell_inv_def builders_ok_def)
  show "callers s i = Waiting k a \<Longrightarrow> key_of a = k \<and> a < next_cell s" using c [of k] by simp
  show "callers s i = Returned k a r \<Longrightarrow> key_of a = k \<and> a < next_cell s" using c [of k] by simp
  show "callers s i = Building k a \<Longrightarrow> key_of a = k \<and> a < next_cell s \<and> cells s a = CellBuilding i"
    using c [of k] b by simp
  show "cells s a = CellBuilding i \<Longrightarrow> callers s i = Building (key_of a) a"
    using b c by fastforce
  show "callers s i = Returned k a (Inr t) \<Longrightarrow> cells s a = CellReady t"
    using assms by (simp add: cell_inv_def handed_ok_def)
qed

lemma cell_inv_cell:
  assumes "cell_inv key_of s" "cells s a = CellReady t"
  shows "for_key t = key_of a" "a < next_cell s" "serial t < builds s"
    and "cells s b = CellReady t \<Longrightarrow> a = b"
  using assms unfolding cell_inv_def cells_ok_def by blast+

lemma cell_invI:
  assumes "\<And>i k a. caller_cell (callers s i) = Some (k, a) \<Longrightarrow> key_of a = k \<and> a < next_cell s"
    and "\<And>i a. cells s a = CellBuilding i \<Longrightarrow> \<exists>k. callers s i = Building k a"
    and "\<And>i k a. callers s i = Building k a \<Longrightarrow> cells s a = CellBuilding i"
    and "\<And>i k a t. callers s i = Returned k a (Inr t) \<Longrightarrow> cells s a = CellReady t"
    and "\<And>a t. cells s a = CellReady t \<Longrightarrow> for_key t = key_of a \<and> a < next_cell s \<and> serial t < builds s"
    and "\<And>a b t. cells s a = CellReady t \<Longrightarrow> cells s b = CellReady t \<Longrightarrow> a = b"
  shows "cell_inv key_of s"
  unfolding cell_inv_def inv_defs using assms by blast

lemma caller_cell_inv:
  "cell_inv key_of s \<Longrightarrow> caller_cell (callers s i) = Some (k, a) \<Longrightarrow> key_of a = k \<and> a < next_cell s"
  by (simp add: cell_inv_def callers_ok_def)

lemma cell_inv_building:
  assumes "cell_inv key_of s" "callers s i = Building k a"
  shows "callers s j = Building k' a \<Longrightarrow> j = i" "callers s j \<noteq> Returned k' a (Inr t)"
proof -
  have c: "cells s a = CellBuilding i"
    using cell_inv_caller(2) [OF assms] by simp
  show "callers s j = Building k' a \<Longrightarrow> j = i"
    using cell_inv_caller(2) [OF assms(1), of j k' a] c by simp
  show "callers s j \<noteq> Returned k' a (Inr t)"
    using cell_inv_caller(5) [OF assms(1), of j k' a t] c by auto
qed

lemmas cell_inv_facts = cell_inv_caller cell_inv_cell caller_cell_inv

lemma cell_inv_leave:
  assumes "cell_inv key_of s" "\<And>k a. callers s i \<noteq> Building k a"
  shows "cell_inv key_of (s\<lparr>callers := (callers s)(i := Idle)\<rparr>)"
  by (rule cell_invI) (use assms in \<open>auto dest: cell_inv_facts [OF assms(1)] split: if_splits\<close>)

lemma cell_inv_join:
  assumes "cell_inv key_of s" "callers s i = Waiting k a" "cells s a = CellReady t"
  shows "cell_inv key_of (s\<lparr>callers := (callers s)(i := Returned k a (Inr t))\<rparr>)"
  by (rule cell_invI) (use assms in \<open>auto dest: cell_inv_facts [OF assms(1)] split: if_splits\<close>)

lemma cell_inv_start:
  assumes "cell_inv key_of s" "callers s i = Waiting k a" "cells s a = CellEmpty"
  shows "cell_inv key_of
    (s\<lparr>cells := (cells s)(a := CellBuilding i), callers := (callers s)(i := Building k a)\<rparr>)"
  by (rule cell_invI) (use assms in \<open>auto dest: cell_inv_facts [OF assms(1)] split: if_splits\<close>)

lemma cell_inv_built:
  assumes "cell_inv key_of s" "callers s i = Building k a"
  shows "cell_inv key_of
    (s\<lparr>cells := (cells s)(a := CellReady (Transport k (builds s))), builds := Suc (builds s),
       callers := (callers s)(i := Returned k a (Inr (Transport k (builds s))))\<rparr>)"
  by (rule cell_invI)
    (use assms in \<open>auto simp: cell_inv_building(2) [OF assms]
       dest: cell_inv_building(1) [OF assms] cell_inv_facts [OF assms(1)] split: if_splits\<close>)

lemma cell_inv_failed:
  assumes "cell_inv key_of s" "callers s i = Building k a"
  shows "cell_inv key_of
    (s\<lparr>cells := (cells s)(a := CellEmpty), callers := (callers s)(i := Returned k a (Inl e))\<rparr>)"
  by (rule cell_invI)
    (use assms in \<open>auto simp: cell_inv_building(2) [OF assms]
       dest: cell_inv_building(1) [OF assms] cell_inv_facts [OF assms(1)] split: if_splits\<close>)

lemma cell_inv_abandoned:
  assumes "cell_inv key_of s" "callers s i = Building k a"
  shows "cell_inv key_of (s\<lparr>cells := (cells s)(a := CellEmpty), callers := (callers s)(i := Idle)\<rparr>)"
  by (rule cell_invI)
    (use assms in \<open>auto simp: cell_inv_building(2) [OF assms]
       dest: cell_inv_building(1) [OF assms] cell_inv_facts [OF assms(1)] split: if_splits\<close>)

lemma cell_inv_rekey:
  assumes "cell_inv key_of s" "next_cell s \<le> n"
  shows "cell_inv (key_of(next_cell s := k)) (s\<lparr>lru := m, next_cell := n\<rparr>)"
  by (rule cell_invI) (use assms in \<open>auto dest: cell_inv_facts [OF assms(1)]\<close>)

lemma cell_inv_lru [simp]: "cell_inv key_of (s\<lparr>lru := m\<rparr>) = cell_inv key_of s"
  by (simp add: cell_inv_def inv_defs)

lemma cell_inv_wait:
  assumes "cell_inv key_of s" "callers s i = Idle" "key_of a = k" "a < next_cell s"
  shows "cell_inv key_of (s\<lparr>callers := (callers s)(i := Waiting k a)\<rparr>)"
  by (rule cell_invI) (use assms in \<open>auto dest: cell_inv_facts [OF assms(1)] split: if_splits\<close>)

lemma cache_inv_iff: "cache_inv entries cap key_of s \<longleftrightarrow> cell_inv key_of s \<and> map_ok entries cap key_of s"
  by (auto simp: cache_inv_def cell_inv_def)

lemma cell_inv_new: "cell_inv key_of (new_cache m)"
  by (rule cell_invI) (auto simp: new_cache_def)

section \<open>The invariant under the contract of the map\<close>

lemma others_length: "(k, v) \<in> set es \<Longrightarrow> length (others k es) < length es"
  by (rule length_filter_less) auto

lemma distinct_others: "distinct (map fst es) \<Longrightarrow> distinct (map fst ((k, v) # others k es))"
  by (induction es) auto

lemma distinct_take_others: "distinct (map fst es) \<Longrightarrow> distinct (map fst (take n ((k, v) # others k es)))"
  by (metis distinct_others distinct_take take_map)

context lru_cache
begin

lemma lookup_cases:
  assumes "lget m k = (r, m')"
  shows "r = map_of (entries m) k"
    and "cap m' = cap m"
    and "entries m' = (case r of Some v \<Rightarrow> (k, v) # others k (entries m) | None \<Rightarrow> entries m)"
  using get_value [of m k] get_hit [of m k] get_miss [of m k] cap_get [of m k] assms
  by (auto split: option.splits)

end

text \<open>A run of lookups, one after the other.\<close>

fun lookups ::
  "('m \<Rightarrow> string \<Rightarrow> nat option \<times> 'm) \<Rightarrow> ('m \<Rightarrow> string \<Rightarrow> nat \<Rightarrow> 'm) \<Rightarrow> string list \<Rightarrow> 'm cache \<Rightarrow> 'm cache"
where
  "lookups lget lput [] s = s"
| "lookups lget lput (k # ks) s = lookups lget lput ks (snd (cache_lookup lget lput s k))"

text \<open>The same contract for a map whose values are cell addresses.\<close>

locale cell_cache = lru_cache lget lput entries cap
  for lget :: "'m \<Rightarrow> string \<Rightarrow> nat option \<times> 'm"
    and lput :: "'m \<Rightarrow> string \<Rightarrow> nat \<Rightarrow> 'm"
    and entries :: "'m \<Rightarrow> (string \<times> nat) list"
    and cap :: "'m \<Rightarrow> nat"
begin

lemma map_ok_lookup:
  assumes "map_ok entries cap key_of s" "cache_lookup lget lput s k = (a, s')"
  shows "\<exists>key_of'. map_ok entries cap key_of' s' \<and> key_of' a = k \<and> a < next_cell s'
    \<and> (key_of' = key_of \<and> s' = s\<lparr>lru := lru s'\<rparr>
       \<or> key_of' = key_of(next_cell s := k) \<and> s' = s\<lparr>lru := lru s', next_cell := Suc (next_cell s)\<rparr>)"
proof (cases "lget (lru s) k")
  case (Pair r m')
  note get = lookup_cases [OF Pair]
  have ok: "distinct (map fst (entries (lru s)))" "length (entries (lru s)) \<le> cap (lru s)"
    "\<And>k a. (k, a) \<in> set (entries (lru s)) \<Longrightarrow> key_of a = k \<and> a < next_cell s"
    using assms(1) by (auto simp: map_ok_def)
  show ?thesis
  proof (cases r)
    case (Some b)
    then have s': "a = b" "s' = s\<lparr>lru := m'\<rparr>" and mem: "(k, b) \<in> set (entries (lru s))"
      using assms(2) Pair get(1) by (auto simp: cache_lookup_def intro: map_of_SomeD)
    have "length (entries m') \<le> cap m'"
      using others_length [OF mem] ok(2) get(2,3) Some by simp
    then have "map_ok entries cap key_of s'"
      using ok distinct_others [OF ok(1), of k b] get(3) Some s' mem
      by (auto simp: map_ok_def)
    then show ?thesis using s' ok(3) [OF mem] by auto
  next
    case None
    let ?es = "(k, next_cell s) # others k (entries (lru s))"
    have s': "a = next_cell s" "s' = s\<lparr>lru := lput m' k (next_cell s), next_cell := Suc (next_cell s)\<rparr>"
      using assms(2) Pair None by (auto simp: cache_lookup_def)
    have es: "entries (lput m' k (next_cell s)) = take (cap m') ?es"
      using get None by (simp add: put_entries)
    have old: "b \<noteq> next_cell s" if "(k', b) \<in> set (entries (lru s))" for k' b
      using ok(3) [OF that] by simp
    have new: "(key_of(next_cell s := k)) b = k' \<and> b < Suc (next_cell s)"
      if "(k', b) \<in> set (take (cap m') ?es)" for k' b
      using in_set_takeD [OF that] ok(3) [of k' b] old [of k' b] by auto
    have lru': "entries (lru s') = take (cap m') ?es" "cap (lru s') = cap m'" "next_cell s' = Suc (next_cell s)"
      using s'(2) es cap_put by simp_all
    have "map_ok entries cap (key_of(next_cell s := k)) s'"
      unfolding map_ok_def lru' case_prod_unfold
      using distinct_take_others [OF ok(1)] new by (metis length_take min.cobounded2 prod.collapse)
    then show ?thesis using s' by (intro exI [of _ "key_of(next_cell s := k)"]) simp
  qed
qed

lemma step_inv:
  assumes "cache_step lget lput s s'" "cache_inv entries cap key_of s"
  shows "\<exists>key_of'. cache_inv entries cap key_of' s'"
  using assms
proof (cases rule: cache_step.cases)
  case (lookup i k a t)
  have inv: "cell_inv key_of s" "map_ok entries cap key_of s"
    using assms(2) by (auto simp: cache_inv_iff)
  obtain key_of' where map: "map_ok entries cap key_of' t" and a: "key_of' a = k" "a < next_cell t"
    and t: "key_of' = key_of \<and> t = s\<lparr>lru := lru t\<rparr>
       \<or> key_of' = key_of(next_cell s := k) \<and> t = s\<lparr>lru := lru t, next_cell := Suc (next_cell s)\<rparr>"
    using map_ok_lookup [OF inv(2) lookup(3)] by auto
  have "cell_inv key_of' t"
    using t
  proof
    assume "key_of' = key_of \<and> t = s\<lparr>lru := lru t\<rparr>"
    then show ?thesis using inv(1) cell_inv_lru by metis
  next
    assume "key_of' = key_of(next_cell s := k) \<and> t = s\<lparr>lru := lru t, next_cell := Suc (next_cell s)\<rparr>"
    then show ?thesis using cell_inv_rekey [OF inv(1), of "Suc (next_cell s)" k "lru t"] by simp
  qed
  then have "cell_inv key_of' s'"
    using cell_inv_wait [of key_of' t i a k] a lookup cache_lookup_frame(1) [OF lookup(3)] by simp
  then show ?thesis using map lookup(1) by (auto simp: cache_inv_iff map_ok_def)
next
  case (leave i k a r)
  then have "cell_inv key_of s'"
    using assms(2) by (auto simp: cache_inv_iff intro: cell_inv_leave)
  then show ?thesis using assms(2) leave(1) by (auto simp: cache_inv_iff map_ok_def)
qed (auto simp: cache_inv_iff map_ok_def intro: cell_inv_join cell_inv_start cell_inv_built
      cell_inv_failed cell_inv_abandoned)

lemma reachable_inv:
  assumes "cache_reachable lget lput m s" "entries m = []"
  shows "\<exists>key_of. cache_inv entries cap key_of s"
  using assms
proof (induction rule: cache_reachable.induct)
  case fresh
  then have "cache_inv entries cap (\<lambda>_. []) (new_cache m)"
    using cell_inv_new by (simp add: cache_inv_iff map_ok_def) (simp add: new_cache_def)
  then show ?case by blast
next
  case (step s s')
  then show ?case using step_inv by blast
qed

text \<open>
  How far a key can sink in the recency order: only keys of a set \<open>K\<close> stand before it.
\<close>

lemma hot_lookup:
  assumes hot: "entries (lru s) = pre @ (k, a) # post" "fst ` set pre \<subseteq> K" "distinct (map fst (entries (lru s)))"
    and K: "finite K" "k \<notin> K" "card K < cap (lru s)" "k' \<in> insert k K"
    and step: "cache_lookup lget lput s k' = (b, s')"
  shows "\<exists>pre' post'. entries (lru s') = pre' @ (k, a) # post' \<and> fst ` set pre' \<subseteq> K
    \<and> distinct (map fst (entries (lru s'))) \<and> cap (lru s') = cap (lru s) \<and> (k' = k \<longrightarrow> b = a)"
proof (cases "k' = k")
  case True
  have "map_of (entries (lru s)) k = Some a" by (rule map_of_is_SomeI) (use hot in auto)
  then obtain m' where m': "lget (lru s) k = (Some a, m')" "entries m' = (k, a) # others k (entries (lru s))"
    "cap m' = cap (lru s)"
    using get_value [of "lru s" k] get_hit [of "lru s" k a] cap_get [of "lru s" k]
    by (metis prod.collapse)
  then have "b = a" "s' = s\<lparr>lru := m'\<rparr>" using step True by (auto simp: cache_lookup_def)
  then show ?thesis
    using m' True distinct_others [OF hot(3), of k a]
    by (intro exI [of _ "[]"] exI [of _ "others k (entries (lru s))"]) simp
next
  case False
  obtain r m' where get: "lget (lru s) k' = (r, m')" by fastforce
  define v where "v = (case r of Some c \<Rightarrow> c | None \<Rightarrow> next_cell s)"
  let ?pre = "(k', v) # others k' pre"
  have lru': "entries (lru s') = take (case r of None \<Rightarrow> cap (lru s) | Some _ \<Rightarrow> Suc (length (entries (lru s))))
      ((k', v) # others k' (entries (lru s)))" "cap (lru s') = cap (lru s)"
    using step lookup_cases [OF get] get put_entries cap_put
    by (auto simp: cache_lookup_def v_def split: option.splits)
  have es: "(k', v) # others k' (entries (lru s)) = ?pre @ (k, a) # others k' post"
    using hot(1) False by simp
  have pre: "fst ` set ?pre \<subseteq> K" using hot(2) K(4) False by auto
  have "distinct (map fst ?pre)" using hot(1,3) by (intro distinct_others) simp
  then have "length ?pre = card (fst ` set ?pre)" by (metis distinct_card length_map list.set_map)
  also have "\<dots> < cap (lru s)" using card_mono [OF K(1) pre] K(3) by simp
  finally have len: "length ?pre < cap (lru s)" .
  have len2: "length ?pre < Suc (length (entries (lru s)))"
    using hot(1) by (simp add: le_imp_less_Suc trans_le_add1)
  have "\<exists>post'. entries (lru s') = ?pre @ (k, a) # post'"
    unfolding lru' es using len len2
    by (cases r) (auto simp: take_append take_Cons' simp del: append_Cons)
  moreover have "distinct (map fst (entries (lru s')))"
    unfolding lru' by (rule distinct_take_others [OF hot(3)])
  ultimately show ?thesis using lru'(2) pre False by blast
qed

lemma hot_lookups:
  assumes "entries (lru s) = pre @ (k, a) # post" "fst ` set pre \<subseteq> K" "distinct (map fst (entries (lru s)))"
    and K: "finite K" "k \<notin> K" "card K < cap (lru s)" "set ks \<subseteq> insert k K"
  shows "fst (cache_lookup lget lput (lookups lget lput ks s) k) = a"
  using assms
proof (induction ks arbitrary: s pre post)
  case Nil
  obtain b s' where "cache_lookup lget lput s k = (b, s')" by fastforce
  then show ?case using hot_lookup [OF Nil(1-6), of k b s'] by auto
next
  case (Cons k' ks)
  obtain b s' where step: "cache_lookup lget lput s k' = (b, s')" by fastforce
  then obtain pre' post' where "entries (lru s') = pre' @ (k, a) # post'" "fst ` set pre' \<subseteq> K"
    "distinct (map fst (entries (lru s')))" "cap (lru s') = cap (lru s)"
    using hot_lookup [OF Cons.prems(1-6), of k' b s'] Cons.prems(7) by auto
  then show ?case using Cons.IH [of s' pre' post'] Cons.prems(4-7) step by simp
qed

lemma lookup_front:
  assumes "cache_lookup lget lput s k = (a, s')" "distinct (map fst (entries (lru s)))" "0 < cap (lru s)"
  shows "\<exists>post. entries (lru s') = (k, a) # post \<and> distinct (map fst (entries (lru s')))
    \<and> cap (lru s') = cap (lru s)"
proof -
  obtain r m' where get: "lget (lru s) k = (r, m')" by fastforce
  define n where "n = (case r of None \<Rightarrow> cap (lru s) | Some _ \<Rightarrow> Suc (length (entries (lru s))))"
  have lru': "entries (lru s') = take n ((k, a) # others k (entries (lru s)))" "cap (lru s') = cap (lru s)"
    using assms(1) lookup_cases [OF get] get put_entries cap_put
    by (auto simp: cache_lookup_def n_def split: option.splits)
  moreover have "distinct (map fst (entries (lru s')))"
    unfolding lru' by (rule distinct_take_others [OF assms(2)])
  moreover have "0 < n" using assms(3) by (simp add: n_def split: option.splits)
  then have "\<exists>post. entries (lru s') = (k, a) # post" unfolding lru' by (cases n) auto
  ultimately show ?thesis by blast
qed

end

interpretation recency_cells: cell_cache "rl_get :: nat recency \<Rightarrow> _" rl_put rl_entries rl_cap
  by unfold_locales

text \<open>A run: one caller looks a key up and builds its transport.\<close>

definition example_map :: "nat recency" where
  "example_map = \<lparr>rl_cap = 2, rl_entries = []\<rparr>"

definition example_state :: "nat recency cache" where
  "example_state =
     \<lparr>lru = \<lparr>rl_cap = 2, rl_entries = [(''aa'', 0)]\<rparr>, cells = (\<lambda>_. CellEmpty)(0 := CellReady (Transport ''aa'' 0)),
      next_cell = 1, callers = (\<lambda>_. Idle)(7 := Returned ''aa'' 0 (Inr (Transport ''aa'' 0))), builds = 1\<rparr>"

lemma example_reachable: "cache_reachable rl_get rl_put example_map example_state"
proof -
  let ?s = "new_cache example_map"
  have l: "cache_lookup rl_get rl_put ?s ''aa'' = (0, ?s\<lparr>lru := lru example_state, next_cell := 1\<rparr>)"
    by (simp add: cache_lookup_def new_cache_def example_map_def example_state_def rl_get_def rl_put_def)
  note s1 = cache_reachable.step [OF cache_reachable.fresh cache_step.lookup [where i = 7, OF _ l]]
  note s2 = cache_reachable.step [OF s1 cache_step.start [where i = 7 and a = 0 and k = "''aa''"]]
  note s3 = cache_reachable.step [OF s2 cache_step.built [where i = 7 and a = 0 and k = "''aa''"]]
  show ?thesis
    using s3 by (simp add: new_cache_def example_state_def)
qed

section \<open>Properties\<close>

text \<open>C17: whatever the callers do, a transport that a caller is handed was built for the caller's
  own key; callers handed a transport through the same cell hold the same one, and a transport sits
  in one cell only; at most one caller builds into a cell; and the map never holds more cells than
  its capacity, nor two for one key.\<close>
theorem cache_sharing:
  assumes "cell_cache lget lput entries cap" and "entries m = []" and "cache_reachable lget lput m s"
  shows "(callers s i = Returned k a (Inr t) \<longrightarrow> for_key t = k)
    \<and> (callers s i = Returned k a (Inr t) \<and> callers s j = Returned k' b (Inr t') \<longrightarrow> (a = b \<longleftrightarrow> t = t'))
    \<and> (callers s i = Building k a \<and> callers s j = Building k' a \<longrightarrow> i = j \<and> k = k')
    \<and> length (entries (lru s)) \<le> cap (lru s) \<and> distinct (map fst (entries (lru s)))"
proof -
  obtain key_of where "cache_inv entries cap key_of s"
    using cell_cache.reachable_inv [OF assms(1,3,2)] by blast
  then have inv: "cell_inv key_of s" and map: "map_ok entries cap key_of s"
    by (auto simp: cache_inv_iff)
  show ?thesis
  proof (intro conjI impI)
    show "for_key t = k" if "callers s i = Returned k a (Inr t)"
      using cell_inv_caller(3,5) [OF inv that] cell_inv_cell(1) [OF inv] by auto
    show "a = b \<longleftrightarrow> t = t'" if "callers s i = Returned k a (Inr t) \<and> callers s j = Returned k' b (Inr t')"
    proof -
      have "cells s a = CellReady t" and "cells s b = CellReady t'"
        using that cell_inv_caller(5) [OF inv] by auto
      then show ?thesis using cell_inv_cell(4) [OF inv, of a t b] by auto
    qed
    assume "callers s i = Building k a \<and> callers s j = Building k' a"
    then show "i = j" and "k = k'"
      using cell_inv_building(1) [OF inv, of i k a j k'] by auto
  next
    show "length (entries (lru s)) \<le> cap (lru s)" and "distinct (map fst (entries (lru s)))"
      using map by (auto simp: map_ok_def)
  qed
qed

theorem cache_sharing_witness:
  "callers example_state 7 = Returned ''aa'' 0 (Inr (Transport ''aa'' 0))
   \<and> for_key (Transport ''aa'' 0) = ''aa'' \<and> length (rl_entries (lru example_state)) \<le> rl_cap (lru example_state)"
proof -
  have "rl_entries example_map = []" by (simp add: example_map_def)
  moreover have "callers example_state 7 = Returned ''aa'' 0 (Inr (Transport ''aa'' 0))"
    by (simp add: example_state_def)
  ultimately show ?thesis
    using cache_sharing [OF recency_cells.cell_cache_axioms _ example_reachable] by blast
qed

text \<open>Once a cell holds a transport no step takes it out again, and while the map still holds
  the key's cell a further lookup of the key finds this cell: every later caller shares it without
  another build.\<close>

lemma cache_stable:
  assumes "cell_cache lget lput entries cap" and "entries m = []" and "cache_reachable lget lput m s"
    and "cells s a = CellReady t"
  shows "(cache_step lget lput s s' \<longrightarrow> cells s' a = CellReady t)
    \<and> (map_of (entries (lru s)) (for_key t) = Some a \<longrightarrow> fst (cache_lookup lget lput s (for_key t)) = a)"
proof -
  obtain key_of where "cache_inv entries cap key_of s"
    using cell_cache.reachable_inv [OF assms(1,3,2)] by blast
  then have inv: "cell_inv key_of s" by (auto simp: cache_inv_iff)
  have build: "b \<noteq> a" if "callers s i = Building k b" for i k b
    using cell_inv_caller(2) [OF inv that] assms(4) by auto
  have "cells s' a = CellReady t" if "cache_step lget lput s s'"
    using that assms(4) by (cases rule: cache_step.cases) (auto simp: frame_simps dest: build)
  moreover have "fst (cache_lookup lget lput s (for_key t)) = a"
    if "map_of (entries (lru s)) (for_key t) = Some a"
    using that lru_cache.get_value [OF cell_cache.axioms [OF assms(1)], of "lru s" "for_key t"]
    by (auto simp: cache_lookup_def split: prod.splits option.splits)
  ultimately show ?thesis by blast
qed

text \<open>C27: no caller is stuck. A caller that waits for a cell either takes the transport that is in it,
  or becomes its builder, or another caller is building it; and a build that fails leaves the cell
  empty, so that whoever waits can build again.\<close>
theorem cache_progress:
  assumes "cell_cache lget lput entries cap" and "entries m = []" and "cache_reachable lget lput m s"
    and "callers s i = Waiting k a"
  shows "(\<exists>t. for_key t = k \<and> cache_step lget lput s (s\<lparr>callers := (callers s)(i := Returned k a (Inr t))\<rparr>))
    \<or> cache_step lget lput s (s\<lparr>cells := (cells s)(a := CellBuilding i), callers := (callers s)(i := Building k a)\<rparr>)
    \<or> (\<exists>j s'. j \<noteq> i \<and> callers s j = Building k a \<and> cache_step lget lput s s'
         \<and> callers s' j = Returned k a (Inl e) \<and> callers s' i = Waiting k a \<and> cells s' a = CellEmpty)"
proof -
  obtain key_of where "cache_inv entries cap key_of s"
    using cell_cache.reachable_inv [OF assms(1,3,2)] by blast
  then have inv: "cell_inv key_of s" by (auto simp: cache_inv_iff)
  have k: "key_of a = k" using cell_inv_caller(1) [OF inv assms(4)] by simp
  show ?thesis
  proof (cases "cells s a")
    case CellEmpty
    then show ?thesis using cache_step.start [OF assms(4)] by blast
  next
    case (CellReady t)
    then show ?thesis using cache_step.join [OF assms(4)] cell_inv_cell(1) [OF inv] k by blast
  next
    case (CellBuilding j)
    then have j: "callers s j = Building k a" using cell_inv_caller(4) [OF inv] k by auto
    then have "j \<noteq> i" using assms(4) by auto
    let ?s = "s\<lparr>cells := (cells s)(a := CellEmpty), callers := (callers s)(j := Returned k a (Inl e))\<rparr>"
    have "callers ?s j = Returned k a (Inl e) \<and> callers ?s i = Waiting k a \<and> cells ?s a = CellEmpty"
      using assms(4) \<open>j \<noteq> i\<close> by simp
    with j \<open>j \<noteq> i\<close> show ?thesis using cache_step.failed [OF j, of lget lput e] by blast
  qed
qed

theorem cache_progress_witness:
  "\<exists>s s'. cache_reachable rl_get rl_put example_map s \<and> callers s 3 = Waiting ''aa'' 0
     \<and> cache_step rl_get rl_put s s' \<and> callers s' 3 \<noteq> Waiting ''aa'' 0"
proof -
  define s where "s = example_state\<lparr>callers := (callers example_state)(3 := Waiting ''aa'' 0)\<rparr>"
  have e: "rl_entries example_map = []" by (simp add: example_map_def)
  have l: "cache_lookup rl_get rl_put example_state ''aa'' = (0, example_state)"
    by (simp add: cache_lookup_def example_state_def rl_get_def)
  have r: "cache_reachable rl_get rl_put example_map s"
    using cache_reachable.step [OF example_reachable cache_step.lookup [where i = 3, OF _ l]]
    by (simp add: s_def example_state_def)
  have w: "callers s 3 = Waiting ''aa'' 0" and n: "callers s j \<noteq> Building k a" for j k a
    by (simp_all add: s_def example_state_def)
  have step: ?thesis if "cache_step rl_get rl_put s s'" "callers s' 3 \<noteq> Waiting ''aa'' 0" for s'
    using that r w by blast
  show ?thesis
    using cache_progress [OF recency_cells.cell_cache_axioms e r w, of "[]"]
  proof (elim disjE exE conjE)
    fix t
    assume "cache_step rl_get rl_put s (s\<lparr>callers := (callers s)(3 := Returned ''aa'' 0 (Inr t))\<rparr>)"
    then show ?thesis by (rule step) simp
  next
    assume "cache_step rl_get rl_put s
      (s\<lparr>cells := (cells s)(0 := CellBuilding 3), callers := (callers s)(3 := Building ''aa'' 0)\<rparr>)"
    then show ?thesis by (rule step) simp
  qed (use n in blast)
qed

text \<open>C26: hot identities stay cached. After a lookup of a key, lookups of fewer than the capacity of
  other keys, in any order and with any repetitions, cannot evict it: the key still has the same
  cell, hence the same transport.\<close>
theorem cache_hot:
  assumes "cell_cache lget lput entries cap" and "entries m = []" and "cache_reachable lget lput m s"
    and "cache_lookup lget lput s k = (a, s')" and "card (set ks - {k}) < cap (lru s)"
  shows "fst (cache_lookup lget lput (lookups lget lput ks s') k) = a"
proof -
  obtain key_of where "cache_inv entries cap key_of s"
    using cell_cache.reachable_inv [OF assms(1,3,2)] by blast
  then have "distinct (map fst (entries (lru s)))" by (auto simp: cache_inv_iff map_ok_def)
  moreover have "0 < cap (lru s)" using assms(5) by simp
  ultimately obtain post where "entries (lru s') = [] @ (k, a) # post"
    "distinct (map fst (entries (lru s')))" "cap (lru s') = cap (lru s)"
    using cell_cache.lookup_front [OF assms(1,4)] by auto
  then show ?thesis
    using cell_cache.hot_lookups [OF assms(1), of s' "[]" k a post "set ks - {k}" ks] assms(5) by auto
qed

theorem cache_hot_witness:
  "fst (cache_lookup rl_get rl_put
     (lookups rl_get rl_put [''bb'', ''aa'', ''bb''] (snd (cache_lookup rl_get rl_put example_state ''aa''))) ''aa'') = 0"
proof -
  have "rl_entries example_map = []" by (simp add: example_map_def)
  moreover have "cache_lookup rl_get rl_put example_state ''aa'' = (0, example_state)"
    by (simp add: cache_lookup_def example_state_def rl_get_def)
  moreover have "set [''bb'', ''aa'', ''bb''] - {''aa''} = {''bb''}" by auto
  then have "card (set [''bb'', ''aa'', ''bb''] - {''aa''}) < rl_cap (lru example_state)"
    by (simp only: ) (simp add: example_state_def)
  ultimately show ?thesis
    using cache_hot [OF recency_cells.cell_cache_axioms _ example_reachable] by (metis snd_conv)
qed

end
