(* ===== verification/Bundled_Relay.thy ===== *)
theory Bundled_Relay
  imports Rust_Str
begin

text \<open>
  \<open>crates/outlay-relay/src/lib.rs\<close>: the in-process relay. \<open>run\<close> answers an attempt to bind a port
  (\<open>LocalRelay::run\<close>: an error text or success), \<open>url\<close> is the URL the relay then reports. An
  arithmetic overflow of the code is the value \<open>None\<close>.
\<close>

section \<open>The memoryless database\<close>

datatype ('ev, 'id, 'f) db_op =
    DbFeatures
  | SaveEvent 'ev
  | CheckId 'id
  | EventById 'id
  | CountEvents 'f
  | QueryEvents 'f
  | DeleteEvents 'f
  | WipeEvents

text \<open>The replies; \<open>NotExistent\<close> and \<open>Saved\<close> are the variants of the two status types in use.\<close>

datatype 'ev db_reply =
    Features bool bool bool bool
  | Saved
  | NotExistent
  | Existent
  | EventReply "'ev option"
  | CountReply nat
  | QueryReply "'ev list"
  | Done

fun memoryless_db :: "('ev, 'id, 'f) db_op \<Rightarrow> 'ev db_reply" where
  "memoryless_db DbFeatures = Features False False False False"
| "memoryless_db (SaveEvent e) = Saved"
| "memoryless_db (CheckId i) = NotExistent"
| "memoryless_db (EventById i) = EventReply None"
| "memoryless_db (CountEvents f) = CountReply 0"
| "memoryless_db (QueryEvents f) = QueryReply []"
| "memoryless_db (DeleteEvents f) = Done"
| "memoryless_db WipeEvents = Done"

text \<open>
  A database that stores what it keeps: \<open>keep\<close> decides, \<open>ident\<close> is an event's id, \<open>matches\<close> a
  filter's test.
\<close>

fun storing_db ::
  "('ev \<Rightarrow> bool) \<Rightarrow> ('ev \<Rightarrow> 'id) \<Rightarrow> ('f \<Rightarrow> 'ev \<Rightarrow> bool) \<Rightarrow> ('ev, 'id, 'f) db_op \<Rightarrow> 'ev list \<Rightarrow> 'ev db_reply \<times> 'ev list"
where
  "storing_db keep ident matches DbFeatures st = (Features False False False False, st)"
| "storing_db keep ident matches (SaveEvent e) st = (Saved, if keep e then e # st else st)"
| "storing_db keep ident matches (CheckId i) st =
     (if list_ex (\<lambda>e. ident e = i) st then Existent else NotExistent, st)"
| "storing_db keep ident matches (EventById i) st = (EventReply (List.find (\<lambda>e. ident e = i) st), st)"
| "storing_db keep ident matches (CountEvents f) st = (CountReply (length (filter (matches f) st)), st)"
| "storing_db keep ident matches (QueryEvents f) st = (QueryReply (filter (matches f) st), st)"
| "storing_db keep ident matches (DeleteEvents f) st = (Done, filter (\<lambda>e. \<not> matches f e) st)"
| "storing_db keep ident matches WipeEvents st = (Done, [])"

fun db_run :: "('op \<Rightarrow> 'st \<Rightarrow> 'r \<times> 'st) \<Rightarrow> 'op list \<Rightarrow> 'st \<Rightarrow> 'r list" where
  "db_run db [] st = []"
| "db_run db (x # xs) st = (let (r, st') = db x st in r # db_run db xs st')"

section \<open>Binding a port\<close>

definition ephemeral_base :: u16 where
  "ephemeral_base = 8086"

definition ephemeral_tries :: u16 where
  "ephemeral_tries = 50"

definition scan_range :: "u16 \<Rightarrow> u16 \<times> u16" where
  "scan_range port = (if port = 0 then (ephemeral_base, ephemeral_tries) else (port, 1))"

definition show_u16 :: "u16 \<Rightarrow> string" where
  "show_u16 p = show_nat (unat p)"

text \<open>\<open>start + tries - 1\<close> of the error text, with the overflow check.\<close>

definition last_tried :: "u16 \<Rightarrow> u16 \<Rightarrow> u16 option" where
  "last_tried start tries = map_option (\<lambda>n. n - 1) (checked_add_u16 start tries)"

text \<open>The loop over the offsets: the ports that were tried and the result.\<close>

fun scan ::
  "(u16 \<Rightarrow> string + unit) \<Rightarrow> (u16 \<Rightarrow> string) \<Rightarrow> u16 \<Rightarrow> u16 \<Rightarrow> u16 \<Rightarrow> string option \<Rightarrow> u16 list
   \<Rightarrow> u16 list \<times> (string + (u16 \<times> string)) option"
where
  "scan run url port start tries last_err [] =
     ([], map_option (\<lambda>l. Inl (''no free loopback port for bundled relay in '' @ show_u16 start @ ''..='' @ show_u16 l
            @ '' (last error: '' @ (case last_err of Some e \<Rightarrow> e | None \<Rightarrow> []) @ '')''))
       (last_tried start tries))"
| "scan run url port start tries last_err (offset # offsets) =
     (case checked_add_u16 start offset of
        None \<Rightarrow> ([], Some (Inl ''port range overflow''))
      | Some candidate \<Rightarrow>
          (case run candidate of
             Inr _ \<Rightarrow> ([candidate], Some (Inr (candidate, url candidate)))
           | Inl e \<Rightarrow>
               if port \<noteq> 0
               then ([candidate], Some (Inl (''bundled relay failed to bind 127.0.0.1:'' @ show_u16 candidate @ '': '' @ e)))
               else apfst ((#) candidate) (scan run url port start tries (Some e) offsets)))"

definition bind_with_port_scan ::
  "(u16 \<Rightarrow> string + unit) \<Rightarrow> (u16 \<Rightarrow> string) \<Rightarrow> u16 \<Rightarrow> u16 list \<times> (string + (u16 \<times> string)) option"
where
  "bind_with_port_scan run url port =
     (let (start, tries) = scan_range port
      in scan run url port start tries None (map of_nat [0..<unat tries]))"

section \<open>Starting the relay\<close>

datatype relay_backend = BackendMemory | BackendSqlite

text \<open>
  \<open>ensure_parent\<close>: \<open>parent\<close> is \<open>Path::parent\<close>, \<open>exists\<close> and \<open>create\<close> are the file system's;
  the result says whether a directory was created.
\<close>

definition ensure_parent ::
  "(string \<Rightarrow> string option) \<Rightarrow> (string \<Rightarrow> bool) \<Rightarrow> (string \<Rightarrow> string + unit) \<Rightarrow> string \<Rightarrow> string + string option"
where
  "ensure_parent parent exists create path =
     (case parent path of
        None \<Rightarrow> Inr None
      | Some p \<Rightarrow>
          if p \<noteq> [] \<and> \<not> exists p
          then (case create p of
                  Inl e \<Rightarrow> Inl (''creating database directory '' @ p)
                | Inr _ \<Rightarrow> Inr (Some p))
          else Inr None)"

definition open_database ::
  "(string \<Rightarrow> string option) \<Rightarrow> (string \<Rightarrow> bool) \<Rightarrow> (string \<Rightarrow> string + unit) \<Rightarrow> (string \<Rightarrow> string + unit)
   \<Rightarrow> relay_backend \<Rightarrow> string option \<Rightarrow> string + unit"
where
  "open_database parent exists create open_sqlite backend db_path =
     (case backend of
        BackendMemory \<Rightarrow> Inr ()
      | BackendSqlite \<Rightarrow>
          (case db_path of
             None \<Rightarrow> Inl ''sqlite backend requires a db path''
           | Some path \<Rightarrow>
               (case ensure_parent parent exists create path of
                  Inl e \<Rightarrow> Inl e
                | Inr _ \<Rightarrow>
                    (case open_sqlite path of
                       Inl e \<Rightarrow> Inl ''opening sqlite database''
                     | Inr _ \<Rightarrow> Inr ()))))"

definition spawn_bundled ::
  "(string \<Rightarrow> string option) \<Rightarrow> (string \<Rightarrow> bool) \<Rightarrow> (string \<Rightarrow> string + unit) \<Rightarrow> (string \<Rightarrow> string + unit)
   \<Rightarrow> (u16 \<Rightarrow> string + unit) \<Rightarrow> (u16 \<Rightarrow> string) \<Rightarrow> relay_backend \<Rightarrow> string option \<Rightarrow> u16
   \<Rightarrow> (string + (u16 \<times> string)) option"
where
  "spawn_bundled parent exists create open_sqlite run url backend db_path port =
     (case open_database parent exists create open_sqlite backend db_path of
        Inl e \<Rightarrow> Some (Inl e)
      | Inr _ \<Rightarrow> snd (bind_with_port_scan run url port))"

definition spawn_memoryless ::
  "(u16 \<Rightarrow> string + unit) \<Rightarrow> (u16 \<Rightarrow> string) \<Rightarrow> u16 \<Rightarrow> (string + (u16 \<times> string)) option"
where
  "spawn_memoryless run url port = snd (bind_with_port_scan run url port)"

section \<open>Lemmas\<close>

text \<open>The ports a scan may try.\<close>

definition port_at :: "nat \<Rightarrow> u16" where
  "port_at k = of_nat (8086 + k)"

definition scan_ports :: "u16 list" where
  "scan_ports = map port_at [0..<50]"

definition port_free :: "(u16 \<Rightarrow> string + unit) \<Rightarrow> u16 \<Rightarrow> bool" where
  "port_free run p \<longleftrightarrow> run p = Inr ()"

fun last_error :: "(u16 \<Rightarrow> string + unit) \<Rightarrow> string option \<Rightarrow> u16 list \<Rightarrow> string" where
  "last_error run e [] = (case e of Some t \<Rightarrow> t | None \<Rightarrow> [])"
| "last_error run e (p # ps) = last_error run (case run p of Inl t \<Rightarrow> Some t | Inr _ \<Rightarrow> e) ps"

definition exhausted_text :: "string \<Rightarrow> string" where
  "exhausted_text e = ''no free loopback port for bundled relay in 8086..=8135 (last error: '' @ e @ '')''"

lemma unat_of_nat_u16: "k < 65536 \<Longrightarrow> unat (of_nat k :: u16) = k"
  by (simp add: unat_of_nat take_bit_nat_eq_self)

lemma candidate:
  assumes "k < 50"
  shows "checked_add_u16 8086 (of_nat k) = Some (port_at k)"
  using assms by (simp add: checked_add_u16_def unat_of_nat_u16 port_at_def)

lemma last_tried_scan: "last_tried 8086 50 = Some 8135"
  by (simp add: last_tried_def checked_add_u16_def)

lemma show_range: "show_u16 8086 = ''8086''" "show_u16 8135 = ''8135''"
  by (simp_all add: show_u16_def show_nat.simps char_of_def bit_0)

lemma scan_zero:
  "\<forall>k \<in> set ks. k < 50 \<Longrightarrow>
     scan run url 0 8086 50 err (map of_nat ks) =
       (let ps = map port_at ks in
        case List.find (port_free run) ps of
          Some p \<Rightarrow> (takeWhile (\<lambda>q. \<not> port_free run q) ps @ [p], Some (Inr (p, url p)))
        | None \<Rightarrow> (ps, Some (Inl (exhausted_text (last_error run err ps)))))"
proof (induction ks arbitrary: err)
  case Nil
  then show ?case by (simp add: last_tried_scan show_range exhausted_text_def)
next
  case (Cons k ks)
  have c: "checked_add_u16 8086 (of_nat k) = Some (port_at k)"
    using Cons.prems by (intro candidate) simp
  show ?case
  proof (cases "run (port_at k)")
    case (Inl e)
    then have busy: "\<not> port_free run (port_at k)" by (simp add: port_free_def)
    from Inl have "scan run url 0 8086 50 err (map of_nat (k # ks)) =
        apfst ((#) (port_at k)) (scan run url 0 8086 50 (Some e) (map of_nat ks))"
      using c by simp
    also have "\<dots> = (let ps = map port_at (k # ks) in
        case List.find (port_free run) ps of
          Some p \<Rightarrow> (takeWhile (\<lambda>q. \<not> port_free run q) ps @ [p], Some (Inr (p, url p)))
        | None \<Rightarrow> (ps, Some (Inl (exhausted_text (last_error run err ps)))))"
      using Cons Inl busy by (simp add: Let_def split: option.split)
    finally show ?thesis .
  next
    case (Inr u)
    then show ?thesis using c by (simp add: port_free_def)
  qed
qed

lemma bind_zero:
  "bind_with_port_scan run url 0 =
     (case List.find (port_free run) scan_ports of
        Some p \<Rightarrow> (takeWhile (\<lambda>q. \<not> port_free run q) scan_ports @ [p], Some (Inr (p, url p)))
      | None \<Rightarrow> (scan_ports, Some (Inl (exhausted_text (last_error run None scan_ports)))))"
proof -
  have "bind_with_port_scan run url 0 = scan run url 0 8086 50 None (map of_nat [0..<50])"
    by (simp add: bind_with_port_scan_def scan_range_def ephemeral_base_def ephemeral_tries_def)
  also have "\<dots> = (let ps = scan_ports in
      case List.find (port_free run) ps of
        Some p \<Rightarrow> (takeWhile (\<lambda>q. \<not> port_free run q) ps @ [p], Some (Inr (p, url p)))
      | None \<Rightarrow> (ps, Some (Inl (exhausted_text (last_error run None ps)))))"
    unfolding scan_ports_def by (rule scan_zero) simp
  finally show ?thesis by (simp only: Let_def)
qed

lemma bind_fixed:
  assumes "port \<noteq> 0"
  shows "bind_with_port_scan run url port =
     ([port], Some (case run port of
        Inr _ \<Rightarrow> Inr (port, url port)
      | Inl e \<Rightarrow> Inl (''bundled relay failed to bind 127.0.0.1:'' @ show_u16 port @ '': '' @ e)))"
proof -
  have "checked_add_u16 port 0 = Some port"
    using unsigned_less [of port] by (simp add: checked_add_u16_def)
  then show ?thesis
    using assms by (simp add: bind_with_port_scan_def scan_range_def split: sum.splits)
qed

lemma scan_ports_range: "p \<in> set scan_ports \<longleftrightarrow> 8086 \<le> unat p \<and> unat p < 8136"
proof
  assume "p \<in> set scan_ports"
  then obtain k where "k < 50" "p = port_at k" by (auto simp: scan_ports_def)
  then show "8086 \<le> unat p \<and> unat p < 8136" by (simp add: port_at_def unat_of_nat_u16 del: of_nat_add)
next
  assume range: "8086 \<le> unat p \<and> unat p < 8136"
  then have "unat p - 8086 < 50" by arith
  moreover have "p = port_at (unat p - 8086)" using range by (simp add: port_at_def del: of_nat_add)
  ultimately show "p \<in> set scan_ports" by (force simp: scan_ports_def)
qed

text \<open>What a started relay is, and that starting one always has a result.\<close>

lemma bind_result:
  "\<exists>r. snd (bind_with_port_scan run url port) = Some r \<and> (\<forall>p u. r = Inr (p, u) \<longrightarrow> u = url p \<and> run p = Inr ())"
proof (cases "port = 0")
  case True
  then show ?thesis
    by (auto simp: bind_zero port_free_def find_Some_iff split: option.split)
next
  case False
  then show ?thesis by (auto simp: bind_fixed split: sum.split)
qed

lemma spawn_bundled_total:
  "\<exists>r. spawn_bundled parent exists create open_sqlite run url backend db_path port = Some r"
  using bind_result [of run url port] by (auto simp: spawn_bundled_def split: sum.split)

lemma spawn_bundled_Inr:
  "spawn_bundled parent exists create open_sqlite run url backend db_path port = Some (Inr (p, u)) \<Longrightarrow>
     u = url p \<and> run p = Inr ()"
  using bind_result [of run url port] by (auto simp: spawn_bundled_def split: sum.splits)

section \<open>Properties\<close>

text \<open>C28: binding, completely. A fixed port is tried once and an error names it. Without one the ports
  8086 to 8135 are tried in order up to the first that binds, which is the one reported; if none
  does, all 50 were tried and the error carries the last failure. The arithmetic on ports never
  overflows, whatever port is asked for, 65535 included.\<close>
theorem bind_with_port_scan_spec:
  "bind_with_port_scan run url port =
     (if port \<noteq> 0 then
        ([port], Some (case run port of
           Inr _ \<Rightarrow> Inr (port, url port)
         | Inl e \<Rightarrow> Inl (''bundled relay failed to bind 127.0.0.1:'' @ show_u16 port @ '': '' @ e)))
      else
        (case List.find (port_free run) scan_ports of
           Some p \<Rightarrow> (takeWhile (\<lambda>q. \<not> port_free run q) scan_ports @ [p], Some (Inr (p, url p)))
         | None \<Rightarrow> (scan_ports, Some (Inl (exhausted_text (last_error run None scan_ports))))))"
  using bind_fixed bind_zero by simp

text \<open>A relay that starts listens on a real port that bound, and its URL is that port's: the asked
  one, or one of 8086 to 8135. It fails only if that port, or all of them, are taken (for the
  persistent one also if its database cannot be opened, a missing path included); a volatile
  database needs no path.\<close>

lemma spawn_real_port:
  "(spawn_memoryless run url port = Some (Inr (p, u)) \<longleftrightarrow>
      u = url p \<and> run p = Inr () \<and>
      (if port \<noteq> 0 then p = port
       else 8086 \<le> unat p \<and> unat p < 8136 \<and> List.find (port_free run) scan_ports = Some p))
   \<and> spawn_bundled parent exists create open_sqlite run url BackendMemory db_path port = spawn_memoryless run url port
   \<and> spawn_bundled parent exists create open_sqlite run url BackendSqlite None port
       = Some (Inl ''sqlite backend requires a db path'')
   \<and> spawn_memoryless run url port \<noteq> None"
proof -
  have found: "p \<in> set scan_ports \<and> port_free run p" if "List.find (port_free run) scan_ports = Some p" for p
    using that by (auto simp: find_Some_iff)
  show ?thesis
    using found scan_ports_range
    by (cases "port = 0")
      (auto simp: spawn_memoryless_def spawn_bundled_def open_database_def bind_zero bind_fixed port_free_def
        split: option.splits sum.splits)
qed

text \<open>Over any sequence of operations the memoryless database answers like a database that keeps
  nothing it is given: every save succeeds, and nothing is ever found, counted or returned, before or
  after deletions.\<close>

lemma memoryless_keeps_nothing:
  "map memoryless_db ops = db_run (storing_db (\<lambda>_. False) ident matches) ops []"
proof (induction ops)
  case (Cons x ops)
  have "storing_db (\<lambda>_. False) ident matches x [] = (memoryless_db x, [])" by (cases x) auto
  then show ?case using Cons by simp
qed simp

end
