(* ===== verification/Server.thy ===== *)
theory Server
  imports Conn Nip11 Relay_Pipe Transport_Cache Bundled_Relay
begin

text \<open>
  \<open>crates/outlay-shim/src/server.rs\<close> and \<open>main.rs\<close>: the application state, the dispatch of requests
  on path and \<open>Upgrade\<close> header, and the start-up that leads to them. \<open>upgrade\<close> is what
  \<open>WebSocketUpgrade::from_request\<close> answers: a rejection text or success. Signal handling, logging
  and the HTTP server itself are input and output.
\<close>

section \<open>The application state\<close>

record 'm app_state =
  config :: shim_config
  transports :: "'m cache"
  cache_loopback :: "string option"
  app_relay_url :: "string option"

text \<open>\<open>AppState::new\<close>; \<open>None\<close> is the panic of \<open>expect\<close>. \<open>new_lru\<close> is \<open>LruCache::new\<close>.\<close>

definition app_state_new :: "(nat \<Rightarrow> 'm) \<Rightarrow> shim_config \<Rightarrow> string option \<Rightarrow> 'm app_state option" where
  "app_state_new new_lru cfg relay_url =
     (if max_cached_outlays cfg = 0 then None
      else Some \<lparr>config = cfg, transports = new_cache (new_lru (unat (max_cached_outlays cfg))),
                 cache_loopback = relay_url, app_relay_url = relay_url\<rparr>)"

section \<open>Dispatch\<close>

text \<open>What a request is turned into; an upgraded one carries its message and frame limits.\<close>

datatype served =
    PipeToRelay string u64 u64
  | Bridge string u64 u64
  | Rejected nat string
  | Http response

definition root_handler ::
  "(json \<Rightarrow> string option) \<Rightarrow> ('h \<Rightarrow> string option) \<Rightarrow> 'm app_state \<Rightarrow> bool \<Rightarrow> (string + unit) \<Rightarrow> 'h option
   \<Rightarrow> served"
where
  "root_handler pretty to_str st has_upgrade upgrade accept =
     (case app_relay_url st of
        Some relay_url \<Rightarrow>
          if has_upgrade then
            (case upgrade of
               Inr _ \<Rightarrow> PipeToRelay relay_url (max_ws_message_bytes (config st)) (max_ws_message_bytes (config st))
             | Inl rej \<Rightarrow> Rejected 400 rej)
          else Http (serve_root pretty to_str accept)
      | None \<Rightarrow> Http (serve_root pretty to_str accept))"

definition pubkey_handler ::
  "(json \<Rightarrow> string option) \<Rightarrow> ('h \<Rightarrow> string option) \<Rightarrow> (string \<Rightarrow> path_error + parsed_path)
   \<Rightarrow> (parsed_path \<Rightarrow> string + 'peer) \<Rightarrow> ('peer \<Rightarrow> string + json option) \<Rightarrow> 'm app_state \<Rightarrow> string \<Rightarrow> bool
   \<Rightarrow> (string + unit) \<Rightarrow> 'h option \<Rightarrow> served"
where
  "pubkey_handler pretty to_str parse get call st pubkey has_upgrade upgrade accept =
     (if has_upgrade then
        (case upgrade of
           Inr _ \<Rightarrow> Bridge pubkey (max_ws_message_bytes (config st)) (max_ws_message_bytes (config st))
         | Inl rej \<Rightarrow> Rejected 400 rej)
      else Http (serve_pubkey pretty to_str parse get call (config st) accept pubkey))"

text \<open>The router: the root, one path segment, and nothing else.\<close>

definition router ::
  "(json \<Rightarrow> string option) \<Rightarrow> ('h \<Rightarrow> string option) \<Rightarrow> (string \<Rightarrow> path_error + parsed_path)
   \<Rightarrow> (parsed_path \<Rightarrow> string + 'peer) \<Rightarrow> ('peer \<Rightarrow> string + json option) \<Rightarrow> 'm app_state \<Rightarrow> string list \<Rightarrow> bool
   \<Rightarrow> (string + unit) \<Rightarrow> 'h option \<Rightarrow> served option"
where
  "router pretty to_str parse get call st segments has_upgrade upgrade accept =
     (case segments of
        [] \<Rightarrow> Some (root_handler pretty to_str st has_upgrade upgrade accept)
      | [pubkey] \<Rightarrow> Some (pubkey_handler pretty to_str parse get call st pubkey has_upgrade upgrade accept)
      | _ \<Rightarrow> None)"

section \<open>Start-up\<close>

text \<open>\<open>https_url\<close> of the shim's \<open>main.rs\<close>, for display.\<close>

definition shim_https_url :: "string \<Rightarrow> string" where
  "shim_https_url url =
     (case strip_prefix ''wss://'' url of
        Some rest \<Rightarrow> ''https://'' @ rest
      | None \<Rightarrow>
          (case strip_prefix ''ws://'' url of
             Some rest \<Rightarrow> ''http://'' @ rest
           | None \<Rightarrow>
               if starts_with url ''https://'' \<or> starts_with url ''http://'' then url
               else ''https://'' @ url))"

text \<open>\<open>relay::spawn\<close>: the colocated relay on a port of its choice.\<close>

definition relay_spawn :: "(u16 \<Rightarrow> string + unit) \<Rightarrow> (u16 \<Rightarrow> string) \<Rightarrow> (string + (u16 \<times> string)) option" where
  "relay_spawn run url =
     map_option (\<lambda>r. case r of Inl e \<Rightarrow> Inl ''starting memoryless relay'' | Inr b \<Rightarrow> Inr b)
       (spawn_memoryless run url 0)"

text \<open>
  \<open>shutdown_signal\<close>, with the values of outlay's function of the same name: what the installation of
  the SIGTERM handler answers (\<open>None\<close> off Unix) and what arrives; \<open>None\<close> is the panic of \<open>expect\<close>,
  \<open>Some False\<close> a function that still waits.
\<close>

definition shim_shutdown_signal :: "(string + unit) option \<Rightarrow> signal list \<Rightarrow> bool option" where
  "shim_shutdown_signal sigterm arrivals =
     (case sigterm of
        Some (Inl e) \<Rightarrow> None
      | Some (Inr _) \<Rightarrow> Some (arrivals \<noteq> [])
      | None \<Rightarrow> Some (list_ex (\<lambda>s. case s of Interrupt r \<Rightarrow> True | Terminate \<Rightarrow> False) arrivals))"

text \<open>
  \<open>main\<close>: what it does, and how it returns. \<open>bind\<close> answers \<open>TcpListener::bind\<close> at an address,
  \<open>serve\<close> is how \<open>axum::serve\<close> ends for the served application and the shutdown signal it was given.
  \<open>None\<close> is a panic (of \<open>expect\<close> or of the relay's arithmetic); a relay that does not start is
  left out.
\<close>

datatype 'm shim_effect =
    StartRelay "string option"
  | BindListener string
  | ShowPage string
  | ServeApp "'m app_state"
  | DropRelay

datatype shim_main_error = BadConfig shim_config_error | BindFailed string | ServeFailed string

definition shim_serve ::
  "(string \<Rightarrow> string + unit) \<Rightarrow> ('m app_state \<Rightarrow> bool option \<Rightarrow> string + unit) \<Rightarrow> bool option \<Rightarrow> string
   \<Rightarrow> string option \<Rightarrow> 'm app_state
   \<Rightarrow> 'm shim_effect list \<times> (shim_main_error + unit)"
where
  "shim_serve bind serve stop listen public_page app =
     (case bind listen of
        Inl e \<Rightarrow> ([BindListener listen], Inl (BindFailed e))
      | Inr _ \<Rightarrow>
          (let page = (case public_page of Some p \<Rightarrow> [ShowPage p] | None \<Rightarrow> []);
               es = BindListener listen # page @ [ServeApp app] in
           case serve app stop of
             Inl e \<Rightarrow> (es, Inl (ServeFailed e))
           | Inr _ \<Rightarrow> (es @ [DropRelay], Inr ())))"

definition shim_main ::
  "(nat \<Rightarrow> 'm) \<Rightarrow> (u16 \<Rightarrow> string + unit) \<Rightarrow> (u16 \<Rightarrow> string) \<Rightarrow> (string \<Rightarrow> string + unit)
   \<Rightarrow> ('m app_state \<Rightarrow> bool option \<Rightarrow> string + unit) \<Rightarrow> (string + unit) option \<Rightarrow> signal list \<Rightarrow> env \<Rightarrow> ('m shim_effect list \<times> (shim_main_error + unit)) option"
where
  "shim_main new_lru run url bind serve sigterm arrivals env =
     (case read_shim_config env of
        Inl e \<Rightarrow> Some ([], Inl (BadConfig e))
      | Inr cfg \<Rightarrow>
          (let listen = listen_addr cfg; public_page = map_option shim_https_url (public_url cfg) in
           case (if enable_relay cfg
                 then map_option (\<lambda>r. case r of
                          Inr (p, u) \<Rightarrow> ([StartRelay (Some u)], Some u)
                        | Inl e \<Rightarrow> ([StartRelay None], None)) (relay_spawn run url)
                 else Some ([], None)) of
             None \<Rightarrow> None
           | Some (started, relay_url) \<Rightarrow>
               (case app_state_new new_lru cfg relay_url of
                  None \<Rightarrow> None
                | Some app \<Rightarrow>
                    (let (es, res) = shim_serve bind serve (shim_shutdown_signal sigterm arrivals) listen public_page app in Some (started @ es, res)))))"

section \<open>Properties\<close>

text \<open>One path, two protocols. A WebSocket upgrade of the root goes to the colocated relay exactly
  when there is one, any other request of the root gets the shim's own document (also an upgrade when
  the relay is off); an upgrade of a segment is bridged whatever the segment is, anything else is
  answered over HTTP. A rejected handshake is status 400, and both kinds of socket get the
  configured limit for messages and for frames.\<close>

lemma router_dispatch:
  "(router pretty to_str parse get call st [] up hs accept = Some (PipeToRelay u a b) \<longleftrightarrow>
      up \<and> hs = Inr () \<and> app_relay_url st = Some u \<and> a = max_ws_message_bytes (config st) \<and> b = a)
   \<and> (router pretty to_str parse get call st [] up hs accept = Some (Http r) \<longleftrightarrow>
      \<not> (up \<and> app_relay_url st \<noteq> None) \<and> r = serve_root pretty to_str accept)
   \<and> (router pretty to_str parse get call st [k] up hs accept = Some (Bridge k' a b) \<longleftrightarrow>
      up \<and> hs = Inr () \<and> k' = k \<and> a = max_ws_message_bytes (config st) \<and> b = a)
   \<and> (router pretty to_str parse get call st [k] up hs accept = Some (Http r) \<longleftrightarrow>
      \<not> up \<and> r = serve_pubkey pretty to_str parse get call (config st) accept k)
   \<and> (router pretty to_str parse get call st (k # l # ks) up hs accept = None)
   \<and> (router pretty to_str parse get call st [k] up (Inl rej) accept = Some (Rejected 400 rej') \<longleftrightarrow> up \<and> rej' = rej)"
  by (auto simp: router_def root_handler_def pubkey_handler_def split: option.splits sum.splits)

text \<open>C32: the shim never panics on its way to serving. It stops at once exactly on a
  configuration error. Otherwise it starts the relay exactly when that is enabled, binds the
  configured address, and serves the application, until the shutdown signal, exactly when the
  address is free: with a cache of at least one and exactly the configured number of entries, and a
  loopback address for the transports that is the one the root pipes to, there exactly when the
  relay is enabled and one of its ports was free. A relay that does not start only disables the
  relay.\<close>
theorem shim_main_no_panic:
  "case read_shim_config env of
     Inl e \<Rightarrow> shim_main new_lru run url bind serve sigterm arrivals env = Some ([], Inl (BadConfig e))
   | Inr cfg \<Rightarrow>
       (let relay = (if enable_relay cfg then map_option url (List.find (port_free run) scan_ports) else None) in
        \<exists>st page. config st = cfg \<and> cache_loopback st = relay \<and> app_relay_url st = relay
          \<and> lru (transports st) = new_lru (unat (max_cached_outlays cfg)) \<and> 0 < unat (max_cached_outlays cfg)
          \<and> page = (case public_url cfg of Some u \<Rightarrow> [ShowPage (shim_https_url u)] | None \<Rightarrow> [])
          \<and> shim_main new_lru run url bind serve sigterm arrivals env =
              Some ((if enable_relay cfg then [StartRelay relay] else [])
                @ (case bind (listen_addr cfg) of
                     Inl e \<Rightarrow> [BindListener (listen_addr cfg)]
                   | Inr _ \<Rightarrow> BindListener (listen_addr cfg) # page @ [ServeApp st]
                       @ (case serve st (shim_shutdown_signal sigterm arrivals) of Inl e \<Rightarrow> [] | Inr _ \<Rightarrow> [DropRelay])),
                case bind (listen_addr cfg) of
                  Inl e \<Rightarrow> Inl (BindFailed e)
                | Inr _ \<Rightarrow> (case serve st (shim_shutdown_signal sigterm arrivals) of Inl e \<Rightarrow> Inl (ServeFailed e) | Inr _ \<Rightarrow> Inr ())))"
proof (cases "read_shim_config env")
  case (Inl e)
  then show ?thesis by (simp add: shim_main_def)
next
  case (Inr cfg)
  define relay where "relay = (if enable_relay cfg then map_option url (List.find (port_free run) scan_ports) else None)"
  have nz: "max_cached_outlays cfg \<noteq> 0"
    using read_shim_config_Inr [OF Inr] max_one_nonzero by simp
  define st where "st = \<lparr>config = cfg, transports = new_cache (new_lru (unat (max_cached_outlays cfg))),
    cache_loopback = relay, app_relay_url = relay\<rparr>"
  have app: "app_state_new new_lru cfg relay = Some st" using nz by (simp add: app_state_new_def st_def)
  have spawn: "relay_spawn run url = Some (case List.find (port_free run) scan_ports of
      None \<Rightarrow> Inl ''starting memoryless relay'' | Some p \<Rightarrow> Inr (p, url p))"
    by (cases "List.find (port_free run) scan_ports")
      (simp_all add: relay_spawn_def spawn_memoryless_def bind_zero)
  have "shim_main new_lru run url bind serve sigterm arrivals env =
      Some ((if enable_relay cfg then [StartRelay relay] else [])
        @ fst (shim_serve bind serve (shim_shutdown_signal sigterm arrivals) (listen_addr cfg) (map_option shim_https_url (public_url cfg)) st),
        snd (shim_serve bind serve (shim_shutdown_signal sigterm arrivals) (listen_addr cfg) (map_option shim_https_url (public_url cfg)) st))"
    using Inr app
    by (cases "List.find (port_free run) scan_ports")
      (auto simp: shim_main_def Let_def spawn relay_def split: prod.splits)
  moreover have "0 < unat (max_cached_outlays cfg)" using nz by (simp add: unat_gt_0)
  ultimately show ?thesis
    unfolding Inr sum.case Let_def relay_def [symmetric]
    by (intro exI [of _ st])
      (auto simp: shim_serve_def Let_def st_def new_cache_def split: sum.split option.split)
qed

end
