(* ===== verification/Proxy.thy ===== *)
theory Proxy
  imports Json_Value
begin

text \<open>
  \<open>crates/outlay/src/proxy.rs\<close>: the mapping from upstream notifications to NIP-01 chunks, the
  subscribe loop with its clean-up, event publication, and the NIP-11 document with outlay's
  identity laid over it.

  Third-party code appears as arguments: \<open>ser\<close> is \<open>serde_json::to_string\<close> (\<open>None\<close> for an
  error), \<open>evj\<close> the conversion of a Nostr event to a JSON value; what the relay pool, the
  open-stream writer and the HTTP client answer is part of the input. The loop consumes a list of
  iterations; each carries the branch \<open>select!\<close> took and what the sink answers in that
  iteration, so every behaviour of the pool, the timer and the sink is some list.
\<close>

section \<open>Errors and notifications\<close>

datatype proxy_error =
    Init string
  | Connect string
  | EmptyFilters
  | Subscribe string
  | Publish string
  | PublishTimeout
  | RelayInfo string

fun proxy_error_display :: "proxy_error \<Rightarrow> string" where
  "proxy_error_display (Init e) = ''upstream relay pool init failed: '' @ e"
| "proxy_error_display (Connect e) = ''upstream relay connect failed: '' @ e"
| "proxy_error_display EmptyFilters = ''subscribe filters must be non-empty''"
| "proxy_error_display (Subscribe e) = ''upstream subscribe failed: '' @ e"
| "proxy_error_display (Publish e) = ''upstream publish failed: '' @ e"
| "proxy_error_display PublishTimeout = ''upstream did not acknowledge the event within timeout''"
| "proxy_error_display (RelayInfo e) = ''relay_info: '' @ e"

text \<open>
  \<open>RelayMessage\<close> and \<open>RelayPoolNotification\<close>: the variants the code names; \<open>ROther\<close> is any
  other relay message (NOTICE, AUTH, COUNT, ...), which it matches by a wildcard only.
\<close>

datatype 'ev relay_message =
    REvent string 'ev
  | REndOfStoredEvents string
  | RClosed string string
  | ROk string bool string
  | ROther string

datatype 'ev notification =
    NMessage string "'ev relay_message"
  | NEvent string string 'ev
  | NShutdown

datatype forward = Continue string | Stop string

fun forward_chunk :: "forward \<Rightarrow> string" where
  "forward_chunk (Continue c) = c"
| "forward_chunk (Stop c) = c"

definition chunk :: "(json \<Rightarrow> string option) \<Rightarrow> json \<Rightarrow> string" where
  "chunk ser parts = (case ser parts of Some s \<Rightarrow> s | None \<Rightarrow> ''[]'')"

fun map_notification ::
  "(json \<Rightarrow> string option) \<Rightarrow> ('ev \<Rightarrow> json) \<Rightarrow> 'ev notification \<Rightarrow> string \<Rightarrow> string \<Rightarrow> forward option"
where
  "map_notification ser evj (NMessage url msg) upstream_id client_sub =
     (case msg of
        REvent subscription_id event \<Rightarrow>
          if subscription_id = upstream_id
          then Some (Continue (chunk ser (JArray [JString ''EVENT'', JString client_sub, evj event])))
          else None
      | REndOfStoredEvents sid \<Rightarrow>
          if sid = upstream_id
          then Some (Continue (chunk ser (JArray [JString ''EOSE'', JString client_sub])))
          else None
      | RClosed subscription_id message \<Rightarrow>
          if subscription_id = upstream_id
          then Some (Stop (chunk ser (JArray [JString ''CLOSED'', JString client_sub, JString message])))
          else None
      | _ \<Rightarrow> None)"
| "map_notification ser evj NShutdown upstream_id client_sub =
     Some (Stop (chunk ser (JArray [JString ''CLOSED'', JString client_sub,
                                  JString ''error: upstream relay pool shut down''])))"
| "map_notification ser evj (NEvent url sid event) upstream_id client_sub = None"

text \<open>Which notifications belong to a subscription: its own three messages, and the shutdown.\<close>

fun concerns :: "string \<Rightarrow> 'ev notification \<Rightarrow> bool" where
  "concerns uid (NMessage url (REvent sid ev)) \<longleftrightarrow> sid = uid"
| "concerns uid (NMessage url (REndOfStoredEvents sid)) \<longleftrightarrow> sid = uid"
| "concerns uid (NMessage url (RClosed sid msg)) \<longleftrightarrow> sid = uid"
| "concerns uid NShutdown \<longleftrightarrow> True"
| "concerns uid _ \<longleftrightarrow> False"

lemma map_notification_None_iff:
  "map_notification ser evj n uid csub = None \<longleftrightarrow> \<not> concerns uid n"
  by (cases "(uid, n)" rule: concerns.cases) auto

text \<open>The NIP-01 frame of a notification: its kind, and what follows the subscription id.\<close>

fun frame_kind :: "'ev notification \<Rightarrow> string" where
  "frame_kind (NMessage url (REvent sid ev)) = ''EVENT''"
| "frame_kind (NMessage url (REndOfStoredEvents sid)) = ''EOSE''"
| "frame_kind n = ''CLOSED''"

fun frame_payload :: "('ev \<Rightarrow> json) \<Rightarrow> 'ev notification \<Rightarrow> json list" where
  "frame_payload evj (NMessage url (REvent sid ev)) = [evj ev]"
| "frame_payload evj (NMessage url (RClosed sid msg)) = [JString msg]"
| "frame_payload evj NShutdown = [JString ''error: upstream relay pool shut down'']"
| "frame_payload evj n = []"

lemma map_notification_foreign [simp]:
  "\<not> concerns uid n \<Longrightarrow> map_notification ser evj n uid csub = None"
  by (simp add: map_notification_None_iff)

section \<open>The subscribe loop\<close>

datatype 'ev sel = Recv "'ev notification" | Lagged nat | RecvClosed | Tick

record 'ev iter =
  sel :: "'ev sel"
  write_ok :: bool
  active :: bool

text \<open>\<open>StreamWriter::write\<close>: the write succeeded and the sink is still active.\<close>

definition stream_write :: "'ev iter \<Rightarrow> bool" where
  "stream_write it \<longleftrightarrow> write_ok it \<and> active it"

text \<open>The loop: the chunks written, and whether it has been left.\<close>

fun forward_loop ::
  "(json \<Rightarrow> string option) \<Rightarrow> ('ev \<Rightarrow> json) \<Rightarrow> string \<Rightarrow> string \<Rightarrow> 'ev iter list \<Rightarrow> string list \<times> bool"
where
  "forward_loop ser evj uid csub [] = ([], False)"
| "forward_loop ser evj uid csub (it # its) =
     (case sel it of
        Recv notif \<Rightarrow>
          (case map_notification ser evj notif uid csub of
             Some (Continue c) \<Rightarrow>
               if \<not> stream_write it then ([c], True)
               else (let (cs, fin) = forward_loop ser evj uid csub its in (c # cs, fin))
           | Some (Stop c) \<Rightarrow> ([c], True)
           | None \<Rightarrow> forward_loop ser evj uid csub its)
      | Lagged n \<Rightarrow> forward_loop ser evj uid csub its
      | RecvClosed \<Rightarrow> ([], True)
      | Tick \<Rightarrow> if \<not> active it then ([], True) else forward_loop ser evj uid csub its)"

text \<open>What \<open>subscribe\<close> does to the pool and to the sink, in order.\<close>

datatype 'f proxy_effect =
    Notifications
  | SubscribeWithId string "'f list"
  | SinkStart
  | SinkWrite string
  | Unsubscribe string
  | SinkClose

text \<open>
  \<open>Proxy::subscribe\<close>. \<open>upstream_id\<close> is what \<open>SubscriptionId::generate\<close> returned, \<open>sub_res\<close>
  what \<open>subscribe_with_id\<close> returned, \<open>final_active\<close> the last reading of \<open>is_active\<close>. The result
  is \<open>None\<close> while the loop still runs.
\<close>

definition proxy_subscribe ::
  "(json \<Rightarrow> string option) \<Rightarrow> ('ev \<Rightarrow> json) \<Rightarrow> string \<Rightarrow> 'f list \<Rightarrow> string \<Rightarrow> (string + unit)
   \<Rightarrow> 'ev iter list \<Rightarrow> bool \<Rightarrow> 'f proxy_effect list \<times> (proxy_error + unit) option"
where
  "proxy_subscribe ser evj client_sub filters upstream_id sub_res its final_active =
     (if filters = [] then ([], Some (Inl EmptyFilters))
      else
        let opened = [Notifications, SubscribeWithId upstream_id filters] in
        (case sub_res of
           Inl e \<Rightarrow> (opened, Some (Inl (Subscribe e)))
         | Inr _ \<Rightarrow>
             (let (cs, fin) = forward_loop ser evj upstream_id client_sub its;
                  streamed = opened @ [SinkStart] @ map SinkWrite cs in
              if \<not> fin then (streamed, None)
              else (streamed @ [Unsubscribe upstream_id]
                      @ (if final_active then [SinkClose] else []),
                    Some (Inr ())))))"

text \<open>The chunks among the effects.\<close>

definition sink_writes :: "'f proxy_effect list \<Rightarrow> string list" where
  "sink_writes es = List.map_filter (\<lambda>e. case e of SinkWrite c \<Rightarrow> Some c | _ \<Rightarrow> None) es"

lemma sink_writes_simps [simp]:
  "sink_writes [] = []" "sink_writes (es @ es') = sink_writes es @ sink_writes es'"
  "sink_writes (SinkWrite c # es) = c # sink_writes es"
  "sink_writes (Notifications # es) = sink_writes es" "sink_writes (SubscribeWithId i f # es) = sink_writes es"
  "sink_writes (SinkStart # es) = sink_writes es" "sink_writes (Unsubscribe i # es) = sink_writes es"
  "sink_writes (SinkClose # es) = sink_writes es"
  by (simp_all add: sink_writes_def map_filter_simps)

lemma sink_writes_map [simp]: "sink_writes (map SinkWrite cs) = cs"
  by (induction cs) simp_all

subsection \<open>The abstract stream and the refinement\<close>

text \<open>
  The specification: of everything received, the chunks of the subscription's own notifications,
  in order, up to and including the first one that ends the stream.
\<close>

definition received :: "'ev iter list \<Rightarrow> 'ev notification list" where
  "received its = List.map_filter (\<lambda>it. case sel it of Recv n \<Rightarrow> Some n | _ \<Rightarrow> None) its"

fun until_stop :: "forward list \<Rightarrow> string list" where
  "until_stop [] = []"
| "until_stop (Continue c # fs) = c # until_stop fs"
| "until_stop (Stop c # fs) = [c]"

definition stream_spec ::
  "(json \<Rightarrow> string option) \<Rightarrow> ('ev \<Rightarrow> json) \<Rightarrow> string \<Rightarrow> string \<Rightarrow> 'ev notification list \<Rightarrow> string list"
where
  "stream_spec ser evj uid csub ns =
     until_stop (List.map_filter (\<lambda>n. map_notification ser evj n uid csub) ns)"

lemma received_Nil [simp]: "received [] = []"
  by (simp add: received_def List.map_filter_def)

lemma received_Cons [simp]:
  "received (it # its) = (case sel it of Recv n \<Rightarrow> n # received its | _ \<Rightarrow> received its)"
  by (auto simp: received_def List.map_filter_def split: sel.splits)

lemma stream_spec_Nil [simp]: "stream_spec ser evj uid csub [] = []"
  by (simp add: stream_spec_def List.map_filter_def)

lemma stream_spec_Cons [simp]:
  "stream_spec ser evj uid csub (n # ns) =
     (case map_notification ser evj n uid csub of
        None \<Rightarrow> stream_spec ser evj uid csub ns
      | Some (Continue c) \<Rightarrow> c # stream_spec ser evj uid csub ns
      | Some (Stop c) \<Rightarrow> [c])"
  by (auto simp: stream_spec_def List.map_filter_def split: option.splits forward.splits)

lemmas loop_splits = sel.splits option.splits forward.splits prod.splits if_splits

lemma forward_loop_prefix:
  "prefix (fst (forward_loop ser evj uid csub its)) (stream_spec ser evj uid csub (received its))"
  by (induction its) (auto split: loop_splits)

lemma subscribe_writes:
  "prefix (sink_writes (fst (proxy_subscribe ser evj csub fs uid res its act))) (stream_spec ser evj uid csub (received its))"
  using forward_loop_prefix [of ser evj uid csub its]
  by (auto simp: proxy_subscribe_def Let_def split: sum.split prod.split)

text \<open>A sink that answers every write and stays active, and a pool that does not hang up.\<close>

definition healthy :: "'ev iter \<Rightarrow> bool" where
  "healthy it \<longleftrightarrow> write_ok it \<and> active it \<and> sel it \<noteq> RecvClosed"

lemma forward_loop_healthy:
  "list_all healthy its \<Longrightarrow>
     fst (forward_loop ser evj uid csub its) = stream_spec ser evj uid csub (received its)"
  by (induction its) (auto simp: healthy_def stream_write_def split: loop_splits)

text \<open>Only a reason to stop ends the loop.\<close>

definition stops :: "(json \<Rightarrow> string option) \<Rightarrow> ('ev \<Rightarrow> json) \<Rightarrow> string \<Rightarrow> string \<Rightarrow> 'ev iter \<Rightarrow> bool" where
  "stops ser evj uid csub it \<longleftrightarrow>
     (case sel it of
        Recv n \<Rightarrow>
          (case map_notification ser evj n uid csub of
             Some (Stop c) \<Rightarrow> True
           | Some (Continue c) \<Rightarrow> \<not> (write_ok it \<and> active it)
           | None \<Rightarrow> False)
      | Lagged n \<Rightarrow> False
      | RecvClosed \<Rightarrow> True
      | Tick \<Rightarrow> \<not> active it)"

lemma forward_loop_ends_Cons:
  "snd (forward_loop ser evj uid csub (it # its)) \<longleftrightarrow>
     stops ser evj uid csub it \<or> snd (forward_loop ser evj uid csub its)"
  by (cases "forward_loop ser evj uid csub its")
    (auto simp: stops_def stream_write_def split: loop_splits)

lemma forward_loop_ends_iff:
  "snd (forward_loop ser evj uid csub its) \<longleftrightarrow> (\<exists>it \<in> set its. stops ser evj uid csub it)"
  by (induction its) (simp_all add: forward_loop_ends_Cons del: forward_loop.simps(2))

subsection \<open>Isolation\<close>

text \<open>Iterations that cannot matter to a subscription: notifications of others, and lags.\<close>

definition foreign :: "string \<Rightarrow> 'ev iter \<Rightarrow> bool" where
  "foreign uid it \<longleftrightarrow> (case sel it of Recv n \<Rightarrow> \<not> concerns uid n | Lagged k \<Rightarrow> True | _ \<Rightarrow> False)"

lemma forward_loop_foreign_step:
  "foreign uid it \<Longrightarrow> forward_loop ser evj uid csub (it # its) = forward_loop ser evj uid csub its"
  by (cases "sel it") (auto simp: foreign_def)

lemma forward_loop_foreign:
  "forward_loop ser evj uid csub (filter (\<lambda>it. \<not> foreign uid it) its) = forward_loop ser evj uid csub its"
proof (induction its)
  case (Cons it its)
  show ?case
  proof (cases "foreign uid it")
    case True
    then show ?thesis by (simp add: forward_loop_foreign_step Cons.IH del: forward_loop.simps(2))
  next
    case False
    then have "filter (\<lambda>it. \<not> foreign uid it) (it # its) = it # filter (\<lambda>it. \<not> foreign uid it) its"
      by simp
    then show ?thesis by (simp only:) (unfold forward_loop.simps(2) Cons.IH, rule refl)
  qed
qed simp

section \<open>Connecting\<close>

text \<open>
  \<open>Proxy::new\<close>: what the pool's constructor, its \<open>connect\<close> to the one upstream and the HTTP
  client's builder answer. A proxy is known by its upstream URL.
\<close>

record proxy =
  proxied_url :: string

definition proxy_new ::
  "(string + unit) \<Rightarrow> (string list \<Rightarrow> string + unit) \<Rightarrow> (string + unit) \<Rightarrow> string \<Rightarrow> proxy_error + proxy"
where
  "proxy_new pool connect http url =
     (case pool of
        Inl e \<Rightarrow> Inl (Init e)
      | Inr _ \<Rightarrow>
          (case connect [url] of
             Inl e \<Rightarrow> Inl (Connect e)
           | Inr _ \<Rightarrow>
               (case http of
                  Inl e \<Rightarrow> Inl (Init (''http client: '' @ e))
                | Inr _ \<Rightarrow> Inr \<lparr>proxied_url = url\<rparr>)))"

section \<open>Publishing\<close>

text \<open>
  What the timed \<open>send_event\<close> came back with: no answer in time, an error, or the output with
  its successful relays and its failures, the latter in the iteration order of their map.
\<close>

datatype send_result =
    SendElapsed
  | SendError string
  | SendOutput "string list" "(string \<times> string) list"

record publish_outcome =
  outcome_ok :: bool
  outcome_event_id :: string
  outcome_message :: string

definition publish_event :: "string \<Rightarrow> send_result \<Rightarrow> proxy_error + publish_outcome" where
  "publish_event eid res =
     (case res of
        SendElapsed \<Rightarrow> Inl PublishTimeout
      | SendError e \<Rightarrow> Inl (Publish e)
      | SendOutput success failed \<Rightarrow>
          (let accepted = (success \<noteq> []);
               msg = (if accepted then []
                      else case failed of
                             (_, e) # _ \<Rightarrow> e
                           | [] \<Rightarrow> ''error: upstream did not accept the event'')
           in Inr \<lparr>outcome_ok = accepted, outcome_event_id = eid, outcome_message = msg\<rparr>))"

section \<open>The NIP-11 document\<close>

text \<open>\<open>OUTLAY_VERSION\<close>: the package version the build bakes in.\<close>

definition outlay_version :: string where
  "outlay_version = ''0.4.0''"

definition nip11_origin :: "string \<Rightarrow> string option" where
  "nip11_origin upstream =
     (case (case strip_prefix ''wss://'' upstream of
              Some h \<Rightarrow> Some (''https://'', h)
            | None \<Rightarrow> (case strip_prefix ''ws://'' upstream of
                         None \<Rightarrow> None
                       | Some h \<Rightarrow> Some (''http://'', h))) of
        None \<Rightarrow> None
      | Some (scheme, rest) \<Rightarrow>
          (case split_on (CHR ''/'') rest of
             [] \<Rightarrow> None
           | authority # _ \<Rightarrow> Some (scheme @ authority)))"

text \<open>\<open>None\<close> is the panic of \<open>expect\<close> on a document that is no object.\<close>

definition overlay_proxy_info :: "json \<Rightarrow> json option" where
  "overlay_proxy_info doc =
     (case doc of
        JObject obj \<Rightarrow>
          (let (obj1, up1) =
                 (case obj_get obj ''software'' of
                    Some s \<Rightarrow> (obj_remove ''software'' obj, obj_insert ''software'' s [])
                  | None \<Rightarrow> (obj, []));
               (obj2, up2) =
                 (case obj_get obj1 ''version'' of
                    Some v \<Rightarrow> (obj_remove ''version'' obj1, obj_insert ''version'' v up1)
                  | None \<Rightarrow> (obj1, up1));
               obj3 = (if up2 \<noteq> [] then obj_insert ''upstream'' (JObject up2) obj2 else obj2);
               obj4 = obj_insert ''software'' (JString ''outlay'') obj3;
               obj5 = obj_insert ''version'' (JString outlay_version) obj4;
               obj6 = obj_insert ''proxy'' (JBool True) obj5
           in Some (JObject obj6))
      | _ \<Rightarrow> None)"

definition synthesized_proxy_info :: json where
  "synthesized_proxy_info =
     json_object [(''software'', JString ''outlay''), (''version'', JString outlay_version),
                  (''proxy'', JBool True), (''supported_nips'', JArray [JNumber (PosInt 1)])]"

text \<open>
  \<open>Proxy::relay_info\<close>. \<open>fetch\<close> is the HTTP GET of an origin: a transport error, or a status
  and the body as JSON when it is JSON. The outer \<open>None\<close> is a panic.
\<close>

datatype http_result = HttpError string | HttpResponse nat "json option"

definition is_success :: "nat \<Rightarrow> bool" where
  "is_success status \<longleftrightarrow> 200 \<le> status \<and> status < 300"

definition relay_info :: "string \<Rightarrow> (string \<Rightarrow> http_result) \<Rightarrow> (proxy_error + json) option" where
  "relay_info upstream_url fetch =
     (case nip11_origin upstream_url of
        None \<Rightarrow> Some (Inl (RelayInfo (''upstream URL must be ws:// or wss://, got: '' @ upstream_url)))
      | Some origin \<Rightarrow>
          (case fetch origin of
             HttpError _ \<Rightarrow> Some (Inr synthesized_proxy_info)
           | HttpResponse status body \<Rightarrow>
               (if is_success status
                then (case body of
                        Some doc \<Rightarrow>
                          if is_object doc then map_option Inr (overlay_proxy_info doc)
                          else Some (Inr synthesized_proxy_info)
                      | None \<Rightarrow> Some (Inr synthesized_proxy_info))
                else Some (Inr synthesized_proxy_info))))"

subsection \<open>Lemmas\<close>

text \<open>The upstream's identity, as it ends up under the key \<open>upstream\<close>.\<close>

definition upstream_identity :: "json_map \<Rightarrow> json_map" where
  "upstream_identity obj =
     (case obj_get obj ''software'' of Some s \<Rightarrow> [(''software'', s)] | None \<Rightarrow> [])
     @ (case obj_get obj ''version'' of Some v \<Rightarrow> [(''version'', v)] | None \<Rightarrow> [])"

definition overlaid :: "json_map \<Rightarrow> string \<Rightarrow> json option" where
  "overlaid obj k =
     (if k = ''proxy'' then Some (JBool True)
      else if k = ''version'' then Some (JString outlay_version)
      else if k = ''software'' then Some (JString ''outlay'')
      else if k = ''upstream'' \<and> upstream_identity obj \<noteq> [] then Some (JObject (upstream_identity obj))
      else obj_get obj k)"

text \<open>The overlay of a well-formed document is well-formed, and so is the synthesized one.\<close>

lemma overlay_json_ok:
  assumes "json_ok (JObject obj)" "overlay_proxy_info (JObject obj) = Some doc"
  shows "json_ok doc"
proof -
  have base: "json_ok (JObject [])" "json_ok (JBool b)" "json_ok (JString t)" for b t by simp_all
  have get: "json_ok v" if "obj_get obj k = Some v" for k v using json_ok_get assms(1) that by blast
  show ?thesis
    using assms get base
    by (auto simp: overlay_proxy_info_def obj_simps Let_def simp del: json_ok.simps obj_insert.simps
        split: option.splits if_splits intro!: json_ok_insert json_ok_remove)
qed

lemma software_less_version: "''software'' < (''version'' :: string)"
  by (simp add: less_char_def)

lemma overlay_proxy_info_object:
  "\<exists>m. overlay_proxy_info (JObject obj) = Some (JObject m) \<and> obj_get m = overlaid obj"
proof (cases "obj_get obj ''software''")
  case None
  then show ?thesis
    by (cases "obj_get obj ''version''")
      (simp_all add: overlay_proxy_info_def overlaid_def upstream_identity_def obj_simps fun_eq_iff)
next
  case (Some s)
  then show ?thesis
    using software_less_version
    by (cases "obj_get obj ''version''")
      (simp_all add: overlay_proxy_info_def overlaid_def upstream_identity_def obj_simps fun_eq_iff)
qed

text \<open>A document that carries outlay's identity.\<close>

definition proxied :: "json \<Rightarrow> bool" where
  "proxied doc \<longleftrightarrow>
     jget doc ''software'' = Some (JString ''outlay'')
     \<and> jget doc ''version'' = Some (JString outlay_version)
     \<and> jget doc ''proxy'' = Some (JBool True)"

lemma proxied_synthesized: "proxied synthesized_proxy_info"
  by (simp add: proxied_def synthesized_proxy_info_def jget_json_object)

lemma proxied_overlay: "is_object doc \<Longrightarrow> \<exists>out. overlay_proxy_info doc = Some out \<and> proxied out"
  using overlay_proxy_info_object by (force simp: proxied_def overlaid_def is_object_iff)

lemma relay_info_doc:
  assumes "nip11_origin url = Some origin"
  shows "\<exists>doc. relay_info url fetch = Some (Inr doc) \<and> proxied doc"
proof (cases "fetch origin")
  case (HttpError e)
  with assms show ?thesis by (simp add: relay_info_def proxied_synthesized)
next
  case (HttpResponse status body)
  show ?thesis
  proof (cases "is_success status \<and> (\<exists>doc. body = Some doc \<and> is_object doc)")
    case True
    then obtain doc where "body = Some doc" and "is_object doc" and "is_success status" by blast
    moreover obtain out where "overlay_proxy_info doc = Some out" and "proxied out"
      using proxied_overlay \<open>is_object doc\<close> by blast
    ultimately show ?thesis using assms HttpResponse by (simp add: relay_info_def)
  next
    case False
    then show ?thesis
      using assms HttpResponse by (auto simp: relay_info_def proxied_synthesized split: option.splits)
  qed
qed

lemma nip11_origin_None_iff:
  "nip11_origin u = None \<longleftrightarrow> \<not> starts_with u ''wss://'' \<and> \<not> starts_with u ''ws://''"
  by (auto simp: nip11_origin_def starts_with_def split: option.splits list.splits)

section \<open>Properties\<close>

text \<open>C20: a subscribe call that returns successfully has registered for notifications before it
  opened exactly the requested upstream subscription, then started the sink, then written chunks,
  then unsubscribed exactly that upstream id, and last closed the sink if it was still active.
  The chunks written are a prefix of the specified stream, and all of it when the sink answered
  every write, stayed active and the pool did not hang up.\<close>
theorem subscribe_protocol:
  assumes "proxy_subscribe ser evj csub fs uid res its act = (effs, Some (Inr ()))"
  shows "\<exists>cs. effs = [Notifications, SubscribeWithId uid fs, SinkStart] @ map SinkWrite cs
                  @ [Unsubscribe uid] @ (if act then [SinkClose] else [])
            \<and> prefix cs (stream_spec ser evj uid csub (received its))
            \<and> (list_all healthy its \<longrightarrow> cs = stream_spec ser evj uid csub (received its))"
proof -
  let ?cs = "fst (forward_loop ser evj uid csub its)"
  have "effs = [Notifications, SubscribeWithId uid fs, SinkStart] @ map SinkWrite ?cs
                  @ [Unsubscribe uid] @ (if act then [SinkClose] else [])"
    using assms by (auto simp: proxy_subscribe_def Let_def split: if_splits sum.splits prod.splits)
  then show ?thesis
    using forward_loop_prefix forward_loop_healthy by blast
qed

theorem subscribe_protocol_witness:
  "\<exists>cs. [Notifications, SubscribeWithId ''u'' [()], SinkStart, SinkWrite ''x'', SinkWrite ''x'',
         Unsubscribe ''u'', SinkClose]
        = [Notifications, SubscribeWithId ''u'' [()], SinkStart] @ map SinkWrite cs
          @ [Unsubscribe ''u''] @ (if True then [SinkClose] else [])
      \<and> prefix cs (stream_spec (\<lambda>_. Some ''x'') (\<lambda>_. JNull) ''u'' ''s''
          (received [\<lparr>sel = Recv (NMessage ''r'' (REvent ''u'' ())), write_ok = True, active = True\<rparr>,
                     \<lparr>sel = Tick, write_ok = True, active = True\<rparr>,
                     \<lparr>sel = Recv (NMessage ''r'' (RClosed ''u'' ''bye'')), write_ok = True, active = True\<rparr>]))
      \<and> (list_all healthy
          [\<lparr>sel = Recv (NMessage ''r'' (REvent ''u'' ())), write_ok = True, active = True\<rparr>,
           \<lparr>sel = Tick, write_ok = True, active = True\<rparr>,
           \<lparr>sel = Recv (NMessage ''r'' (RClosed ''u'' ''bye'')), write_ok = True, active = True\<rparr>]
         \<longrightarrow> cs = stream_spec (\<lambda>_. Some ''x'') (\<lambda>_. JNull) ''u'' ''s''
          (received [\<lparr>sel = Recv (NMessage ''r'' (REvent ''u'' ())), write_ok = True, active = True\<rparr>,
                     \<lparr>sel = Tick, write_ok = True, active = True\<rparr>,
                     \<lparr>sel = Recv (NMessage ''r'' (RClosed ''u'' ''bye'')), write_ok = True, active = True\<rparr>]))"
  by (rule subscribe_protocol [where res = "Inr ()"])
    (simp add: proxy_subscribe_def chunk_def stream_write_def)

text \<open>C34: every result of a subscribe call. Empty filters are refused with no effect at all, a
  failed upstream subscription is reported before the sink is started, and an opened one returns
  exactly when some iteration is a reason to stop: an own CLOSED or the pool's shutdown, a failed
  write or a dead sink found while writing or polling, or the end of the notification channel.\<close>
theorem subscribe_results:
  "snd (proxy_subscribe ser evj csub fs uid res its act) =
     (if fs = [] then Some (Inl EmptyFilters)
      else (case res of
              Inl e \<Rightarrow> Some (Inl (Subscribe e))
            | Inr _ \<Rightarrow> if \<exists>it \<in> set its. stops ser evj uid csub it then Some (Inr ()) else None))
   \<and> fst (proxy_subscribe ser evj csub [] uid res its act) = []
   \<and> fst (proxy_subscribe ser evj csub (f # fs) uid (Inl e) its act)
       = [Notifications, SubscribeWithId uid (f # fs)]"
  using forward_loop_ends_iff [of ser evj uid csub its]
  by (auto simp: proxy_subscribe_def Let_def split: sum.splits prod.splits)

text \<open>C21: isolation. What a subscribe call does is unchanged when every notification of another
  upstream subscription and every lag report is removed from its input, and one notification
  concerns two different upstream ids only when it is the shutdown of the pool.\<close>
theorem subscribe_isolation:
  "proxy_subscribe ser evj csub fs uid res (filter (\<lambda>it. \<not> foreign uid it) its) act
     = proxy_subscribe ser evj csub fs uid res its act
   \<and> (uid \<noteq> uid' \<and> concerns uid n \<and> concerns uid' n \<longrightarrow> n = NShutdown)"
proof
  show "proxy_subscribe ser evj csub fs uid res (filter (\<lambda>it. \<not> foreign uid it) its) act
     = proxy_subscribe ser evj csub fs uid res its act"
    unfolding proxy_subscribe_def forward_loop_foreign by (rule refl)
  show "uid \<noteq> uid' \<and> concerns uid n \<and> concerns uid' n \<longrightarrow> n = NShutdown"
    by (cases "(uid, n)" rule: concerns.cases) auto
qed

theorem subscribe_isolation_witness:
  "\<not> concerns ''b'' (NMessage ''r'' (REvent ''a'' ()))"
  using subscribe_isolation [of "\<lambda>_. None" "\<lambda>_. JNull" "[]" "[()]" "''a''" "Inr ()" "[]" True
      "''b''" "NMessage ''r'' (REvent ''a'' ())"]
  by auto

text \<open>A notification is forwarded exactly when it concerns the subscription, and then as one
  NIP-01 array of its kind, the client's bare subscription id and the payload unchanged; only
  CLOSED ends the stream.\<close>

lemma forwarded_frame:
  "map_notification ser evj n uid csub =
     (if concerns uid n
      then Some ((if frame_kind n = ''CLOSED'' then Stop else Continue)
                   (chunk ser (JArray (JString (frame_kind n) # JString csub # frame_payload evj n))))
      else None)"
  by (cases "(uid, n)" rule: concerns.cases) simp_all

text \<open>Publishing answers with the client's own event id, accepts exactly when some relay
  took the event, and explains a refusal with the relay's text when there is one; a missing
  acknowledgement and a failed send are errors of the call.\<close>

lemma publish_event_results:
  "publish_event eid SendElapsed = Inl PublishTimeout
   \<and> publish_event eid (SendError e) = Inl (Publish e)
   \<and> (\<exists>out. publish_event eid (SendOutput success failed) = Inr out
        \<and> outcome_event_id out = eid
        \<and> (outcome_ok out \<longleftrightarrow> success \<noteq> [])
        \<and> outcome_message out =
            (if success \<noteq> [] then []
             else if failed = [] then ''error: upstream did not accept the event''
             else snd (hd failed)))"
  by (cases failed) (auto simp: publish_event_def Let_def split: prod.splits)

text \<open>The HTTP origin of an upstream keeps its authority, swaps the scheme and drops the path;
  every other scheme has none.\<close>

lemma nip11_origin_spec:
  assumes "CHR ''/'' \<notin> set authority"
  shows "nip11_origin (''wss://'' @ authority) = Some (''https://'' @ authority)
    \<and> nip11_origin (''wss://'' @ authority @ CHR ''/'' # path) = Some (''https://'' @ authority)
    \<and> nip11_origin (''ws://'' @ authority) = Some (''http://'' @ authority)
    \<and> nip11_origin (''ws://'' @ authority @ CHR ''/'' # path) = Some (''http://'' @ authority)
    \<and> (nip11_origin u = None \<longleftrightarrow> \<not> starts_with u ''wss://'' \<and> \<not> starts_with u ''ws://'')"
  using assms
  by (intro conjI nip11_origin_None_iff) (simp_all add: nip11_origin_def split_on_single split_on_append)

text \<open>The relay document never panics. It is an error exactly for an upstream whose URL has
  neither WebSocket scheme; in every other case it is an object that carries outlay's software,
  version and proxy marker, whatever the upstream serves.\<close>

lemma relay_info_total:
  "\<exists>r. relay_info url fetch = Some r
     \<and> (case r of
          Inl e \<Rightarrow> nip11_origin url = None
            \<and> e = RelayInfo (''upstream URL must be ws:// or wss://, got: '' @ url)
        | Inr doc \<Rightarrow> nip11_origin url \<noteq> None
            \<and> jget doc ''software'' = Some (JString ''outlay'')
            \<and> jget doc ''version'' = Some (JString outlay_version)
            \<and> jget doc ''proxy'' = Some (JBool True))"
proof -
  show ?thesis
  proof (cases "nip11_origin url")
    case None
    then show ?thesis by (simp add: relay_info_def)
  next
    case (Some origin)
    then obtain doc where "relay_info url fetch = Some (Inr doc)" and "proxied doc"
      using relay_info_doc by blast
    with Some show ?thesis by (simp add: proxied_def)
  qed
qed

text \<open>The overlay keeps every upstream field except \<open>software\<close>, \<open>version\<close>, \<open>proxy\<close> and
  \<open>upstream\<close>; the upstream's software and version survive under \<open>upstream\<close>, and only when it
  has one of them. A field \<open>upstream\<close> of the upstream's own is then lost.\<close>

lemma overlay_fields:
  "\<exists>m. overlay_proxy_info (JObject obj) = Some (JObject m)
     \<and> (k \<notin> {''software'', ''version'', ''proxy'', ''upstream''} \<longrightarrow> obj_get m k = obj_get obj k)
     \<and> obj_get m ''upstream'' =
         (if obj_get obj ''software'' = None \<and> obj_get obj ''version'' = None
          then obj_get obj ''upstream'' else Some (JObject (upstream_identity obj)))
     \<and> obj_get (upstream_identity obj) ''software'' = obj_get obj ''software''
     \<and> obj_get (upstream_identity obj) ''version'' = obj_get obj ''version''"
  using overlay_proxy_info_object [of obj]
  by (auto simp: overlaid_def upstream_identity_def split: option.splits)

end
