(* ===== verification/Handler.thy ===== *)
theory Handler
  imports Proxy
begin

text \<open>
  \<open>crates/outlay/src/handler.rs\<close>: the tools of the ContextVM server. A tool call is a function from
  its arguments and what the proxy's environment answers to what it does and its result: an
  \<open>invalid_params\<close> error with its text, or the structured content. Arguments of the definitions:
  \<open>bad_params\<close> is the text of \<open>rmcp\<close>'s error for arguments that do not deserialise, \<open>filter_of\<close>
  and \<open>event_of\<close> are \<open>serde_json::from_value\<close> at \<open>Filter\<close> and \<open>Event\<close>, \<open>event_id\<close> the
  hex form of an event's id. A derived deserialiser takes the named fields of an object and ignores
  all others; a derived serialiser writes an object with the named fields.
\<close>

section \<open>Parameters and results\<close>

record subscribe_params =
  subscription_id :: string
  param_filters :: "json list"

definition subscribe_params_of :: "json_map \<Rightarrow> subscribe_params option" where
  "subscribe_params_of m =
     (case (obj_get m ''subscription_id'', obj_get m ''filters'') of
        (Some (JString i), Some (JArray fs)) \<Rightarrow> Some \<lparr>subscription_id = i, param_filters = fs\<rparr>
      | _ \<Rightarrow> None)"

definition publish_event_params_of :: "json_map \<Rightarrow> json option" where
  "publish_event_params_of m = obj_get m ''event''"

definition subscribe_output :: json where
  "subscribe_output = json_object [(''ok'', JBool True)]"

definition outcome_json :: "publish_outcome \<Rightarrow> json" where
  "outcome_json out =
     json_object [(''ok'', JBool (outcome_ok out)), (''event_id'', JString (outcome_event_id out)),
                  (''message'', JString (outcome_message out))]"

record tool_result =
  content :: "json list"
  is_error :: bool
  structured_content :: "json option"

definition structured :: "json \<Rightarrow> tool_result" where
  "structured out = \<lparr>content = [], is_error = False, structured_content = Some out\<rparr>"

text \<open>The writer of the open stream, if the client asked for one.\<close>

definition stream_writer :: "'w option \<Rightarrow> string + 'w" where
  "stream_writer ext =
     (case ext of
        Some w \<Rightarrow> Inr w
      | None \<Rightarrow> Inl (''subscribe requires CEP-41 open-stream; the client must advertise support ''
                    @ ''and send a progressToken''))"

definition proxy_error_data :: "proxy_error \<Rightarrow> string" where
  "proxy_error_data e = proxy_error_display e"

section \<open>What the server says of itself\<close>

text \<open>The tools it offers, each by the name of its function, with their descriptions, and
  \<open>get_info\<close>.\<close>

record tool_descriptor =
  tool_name :: string
  description :: string

definition quoted :: "string \<Rightarrow> string" where
  "quoted s = CHR 0x22 # s @ [CHR 0x22]"

definition tool_router :: "tool_descriptor list" where
  "tool_router =
     [\<lparr>tool_name = ''subscribe'',
       description = ''Open a NIP-01 subscription on the proxied relay. Streams ['' @ quoted ''EVENT''
         @ '',sub,e], ['' @ quoted ''EOSE'' @ '',sub], and ['' @ quoted ''CLOSED'' @ '',sub,msg] chunks as ''
         @ ''they arrive. Cancel by aborting the call (equivalent to NIP-01 CLOSE).''\<rparr>,
      \<lparr>tool_name = ''publish_event'',
       description = ''Forward a client-signed NIP-01 event to the proxied relay verbatim ''
         @ ''(not re-signed). Returns { ok, event_id, message } mirroring the ''
         @ ''upstream OK message.''\<rparr>,
      \<lparr>tool_name = ''relay_info'',
       description = ''Fetch the proxied relay'' @ [CHR 0x27] @ ''s NIP-11 information document, with outlay'' @ [CHR 0x27]
         @ ''s identity overlaid (software/version/proxy marker; upstream identity ''
         @ ''preserved under `upstream`). Synchronous. Returns the document object.''\<rparr>]"

record server_info =
  tools_enabled :: bool
  info_name :: string
  info_version :: string
  info_title :: string
  instructions :: string

definition get_info :: server_info where
  "get_info =
     \<lparr>tools_enabled = True, info_name = ''outlay'', info_version = outlay_version,
      info_title = ''outlay '' @ [CHR 0xE2, CHR 0x80, CHR 0x94] @ '' Nostr relay over ContextVM'',
      instructions = ''Transparent Nostr relay proxy. Call subscribe (streaming) to open a NIP-01 ''
        @ ''subscription, publish_event to forward a signed event, or relay_info for the ''
        @ ''upstream'' @ [CHR 0x27] @ ''s NIP-11 document.''\<rparr>"

section \<open>The tools\<close>

text \<open>The outer \<open>None\<close> of a subscribe's result is a call that still streams.\<close>

definition subscribe_tool ::
  "(json \<Rightarrow> string option) \<Rightarrow> ('ev \<Rightarrow> json) \<Rightarrow> (json \<Rightarrow> string + 'f) \<Rightarrow> string \<Rightarrow> json_map \<Rightarrow> 'w option
   \<Rightarrow> string \<Rightarrow> (string + unit) \<Rightarrow> 'ev iter list \<Rightarrow> bool
   \<Rightarrow> 'f proxy_effect list \<times> (string + tool_result) option"
where
  "subscribe_tool ser evj filter_of bad_params arguments ext upstream_id sub_res its final_active =
     (case subscribe_params_of arguments of
        None \<Rightarrow> ([], Some (Inl bad_params))
      | Some p \<Rightarrow>
          (case stream_writer ext of
             Inl e \<Rightarrow> ([], Some (Inl e))
           | Inr sink \<Rightarrow>
               (case collect_results (map filter_of (param_filters p)) of
                  Inl e \<Rightarrow> ([], Some (Inl e))
                | Inr filters \<Rightarrow>
                    (let (effects, res) =
                           proxy_subscribe ser evj (subscription_id p) filters upstream_id sub_res its final_active
                     in (effects,
                         map_option (\<lambda>r. case r of Inl e \<Rightarrow> Inl (proxy_error_data e)
                                                 | Inr _ \<Rightarrow> Inr (structured subscribe_output)) res)))))"

definition publish_event_tool ::
  "(json \<Rightarrow> string + 'event) \<Rightarrow> ('event \<Rightarrow> string) \<Rightarrow> ('event \<Rightarrow> send_result) \<Rightarrow> string \<Rightarrow> json_map
   \<Rightarrow> string + tool_result"
where
  "publish_event_tool event_of event_id send bad_params arguments =
     (case publish_event_params_of arguments of
        None \<Rightarrow> Inl bad_params
      | Some v \<Rightarrow>
          (case event_of v of
             Inl e \<Rightarrow> Inl e
           | Inr event \<Rightarrow>
               (case publish_event (event_id event) (send event) of
                  Inl e \<Rightarrow> Inl (proxy_error_data e)
                | Inr out \<Rightarrow> Inr (structured (outcome_json out)))))"

definition relay_info_tool :: "string \<Rightarrow> (string \<Rightarrow> http_result) \<Rightarrow> (string + tool_result) option" where
  "relay_info_tool upstream_url fetch =
     map_option (\<lambda>r. case r of Inl e \<Rightarrow> Inl (proxy_error_data e) | Inr doc \<Rightarrow> Inr (structured doc))
       (relay_info upstream_url fetch)"

section \<open>Properties\<close>

text \<open>A subscribe call that cannot start does nothing upstream and nothing to the stream: bad
  arguments, a client without an open stream, a filter that does not parse (the first one's error is
  reported) and an empty filter list are refused in this order, before any effect. Every other call
  is the proxy's subscribe with the client's id and all filters in order.\<close>

lemma subscribe_tool_guards:
  "subscribe_tool ser evj filter_of bad_params arguments ext uid sub_res its fin =
     (case subscribe_params_of arguments of
        None \<Rightarrow> ([], Some (Inl bad_params))
      | Some p \<Rightarrow>
          if ext = None then
            ([], Some (Inl ''subscribe requires CEP-41 open-stream; the client must advertise support and send a progressToken''))
          else
            (case List.find (\<lambda>r. \<exists>e. r = Inl e) (map filter_of (param_filters p)) of
               Some r \<Rightarrow> ([], Some (Inl (projl r)))
             | None \<Rightarrow>
                 if param_filters p = [] then ([], Some (Inl ''subscribe filters must be non-empty''))
                 else apsnd (map_option (\<lambda>r. case r of Inl e \<Rightarrow> Inl (proxy_error_display e)
                                            | Inr _ \<Rightarrow> Inr (structured subscribe_output)))
                        (proxy_subscribe ser evj (subscription_id p) (map (projr \<circ> filter_of) (param_filters p))
                           uid sub_res its fin)))"
proof -
  have collect: "collect_results rs =
      (case List.find (\<lambda>r. \<exists>e. r = Inl e) rs of Some r \<Rightarrow> Inl (projl r) | None \<Rightarrow> Inr (map projr rs))"
    for rs :: "(string + 'f) list"
    by (induction rs rule: collect_results.induct) (auto split: sum.splits option.splits)
  show ?thesis
    by (auto simp: subscribe_tool_def stream_writer_def collect proxy_error_data_def proxy_subscribe_def
        apsnd_def map_prod_def comp_def split: option.splits prod.splits sum.splits)
qed

text \<open>Publishing through the tool. Only an event that parses is sent, and it is the one the client
  signed; the result carries the upstream's answer with the event's own id, a refused event is still
  a result and not an error, and everything else is an error with the proxy's text.\<close>

lemma publish_event_tool_results:
  "publish_event_tool event_of event_id send bad_params arguments =
     (case obj_get arguments ''event'' of
        None \<Rightarrow> Inl bad_params
      | Some v \<Rightarrow>
          (case event_of v of
             Inl e \<Rightarrow> Inl e
           | Inr event \<Rightarrow>
               (case send event of
                  SendElapsed \<Rightarrow> Inl ''upstream did not acknowledge the event within timeout''
                | SendError e \<Rightarrow> Inl (''upstream publish failed: '' @ e)
                | SendOutput success failed \<Rightarrow>
                    Inr \<lparr>content = [], is_error = False,
                         structured_content = Some (JObject
                           [(''event_id'', JString (event_id event)),
                            (''message'', JString (if success \<noteq> [] then []
                               else case failed of [] \<Rightarrow> ''error: upstream did not accept the event''
                                                 | f # _ \<Rightarrow> snd f)),
                            (''ok'', JBool (success \<noteq> []))])\<rparr>)))"
proof -
  have "''ok'' < (''event_id'' :: string) \<longleftrightarrow> False" "''event_id'' < (''ok'' :: string)"
    "''message'' < (''event_id'' :: string) \<longleftrightarrow> False" "''message'' < (''ok'' :: string)"
    by (simp_all add: less_char_def)
  then have "outcome_json out = JObject [(''event_id'', JString (outcome_event_id out)),
      (''message'', JString (outcome_message out)), (''ok'', JBool (outcome_ok out))]" for out
    by (simp add: outcome_json_def json_object_def)
  then show ?thesis
    by (auto simp: publish_event_tool_def publish_event_params_of_def publish_event_def structured_def
        proxy_error_data_def Let_def split: option.splits sum.splits send_result.splits list.splits)
qed

text \<open>The relay document through the tool is always a result object with outlay's identity, or the
  error that the upstream URL has no WebSocket scheme; the tool never panics.\<close>

lemma relay_info_tool_total:
  "(\<exists>r doc. relay_info_tool url fetch = Some (Inr r) \<and> structured_content r = Some doc \<and> is_object doc
      \<and> jget doc ''software'' = Some (JString ''outlay'') \<and> jget doc ''proxy'' = Some (JBool True))
   \<noteq> (relay_info_tool url fetch = Some (Inl (''relay_info: upstream URL must be ws:// or wss://, got: '' @ url)))"
proof (cases "nip11_origin url")
  case None
  then show ?thesis by (simp add: relay_info_tool_def relay_info_def proxy_error_data_def)
next
  case (Some origin)
  then obtain doc where "relay_info url fetch = Some (Inr doc)" and p: "proxied doc"
    using relay_info_doc by blast
  moreover have "is_object doc" using p by (cases doc) (simp_all add: proxied_def)
  ultimately show ?thesis
    by (simp add: relay_info_tool_def structured_def proxied_def)
qed

end
