(* ===== verification/Outlay_Main.thy ===== *)
theory Outlay_Main
  imports Config Bundled_Relay Handler
begin

text \<open>
  \<open>crates/outlay/src/main.rs\<close>: the choice of the upstream, the transport configuration and the
  banner. \<open>bundled_relay\<close> is the compile-time feature; \<open>spawn\<close> starts the bundled relay (the
  definition \<open>spawn_bundled\<close> with its environment); the delivery of signals, logging and the transport
  are input and output.
\<close>

definition https_url :: "string \<Rightarrow> string" where
  "https_url url =
     (case strip_prefix ''wss://'' url of
        Some rest \<Rightarrow> ''https://'' @ rest
      | None \<Rightarrow>
          (case strip_prefix ''ws://'' url of
             Some rest \<Rightarrow> ''http://'' @ rest
           | None \<Rightarrow>
               if starts_with url ''https://'' \<or> starts_with url ''http://'' then url
               else ''https://'' @ url))"

text \<open>The fields of \<open>NostrServerTransportConfig\<close> and \<open>ServerInfo\<close> that are set.\<close>

record server_transport_config =
  st_relay_urls :: "string list"
  st_announced :: bool
  st_encryption_optional :: bool
  st_gift_wrap :: gift_wrap_mode
  st_name :: string
  st_about :: string
  st_open_stream :: bool
  st_idle_timeout_ms :: u64
  st_probe_timeout_ms :: u64

definition build_transport_config :: "server_config \<Rightarrow> server_transport_config" where
  "build_transport_config cfg =
     \<lparr>st_relay_urls = cvm_relay_urls cfg, st_announced = is_announced cfg, st_encryption_optional = True,
      st_gift_wrap = server_gift_wrap cfg, st_name = server_name cfg,
      st_about = (case server_about cfg of Some a \<Rightarrow> a | None \<Rightarrow> []),
      st_open_stream = True, st_idle_timeout_ms = 60000, st_probe_timeout_ms = 60000\<rparr>"

text \<open>
  The upstream URL. The outer \<open>None\<close> is a panic: of the second \<open>expect\<close>, of a configuration
  without the bundled relay's part, or of the relay's arithmetic.
\<close>

definition backend_of :: "string \<Rightarrow> relay_backend" where
  "backend_of s = (if s = ''memory'' then BackendMemory else BackendSqlite)"

definition choose_upstream ::
  "bool \<Rightarrow> (relay_backend \<Rightarrow> string option \<Rightarrow> u16 \<Rightarrow> (string + (u16 \<times> string)) option) \<Rightarrow> server_config
   \<Rightarrow> (string + string) option"
where
  "choose_upstream bundled_relay spawn cfg =
     (if bundled_relay \<and> proxy_relay_url cfg = None then
        (case bundled cfg of
           None \<Rightarrow> None
         | Some b \<Rightarrow>
             map_option (\<lambda>r. case r of Inl e \<Rightarrow> Inl ''starting bundled relay'' | Inr (p, u) \<Rightarrow> Inr u)
               (spawn (backend_of (backend b)) (Some (db_path b)) (bundled_port b)))
      else map_option Inr (proxy_relay_url cfg))"

definition page_url :: "string \<Rightarrow> server_config \<Rightarrow> string option" where
  "page_url server_pubkey cfg =
     (case cvm_relay_urls cfg of r # _ \<Rightarrow> Some (https_url r @ ''/'' @ server_pubkey) | [] \<Rightarrow> None)"

text \<open>
  \<open>print_banner\<close>: the lines it prints. The box-drawing rule, the bullet and the dash are their UTF-8
  bytes.
\<close>

definition banner_rule :: string where
  "banner_rule = concat (replicate 64 [CHR 0xE2, CHR 0x95, CHR 0x90])"

definition banner_item :: "string \<Rightarrow> string" where
  "banner_item s = ''     '' @ [CHR 0xE2, CHR 0x80, CHR 0xA2] @ '' '' @ s"

fun join_lines :: "string list \<Rightarrow> string" where
  "join_lines [] = []"
| "join_lines [l] = l"
| "join_lines (l # ls) = l @ CHR 0x0A # join_lines ls"

definition print_banner :: "string \<Rightarrow> server_config \<Rightarrow> string \<Rightarrow> string list" where
  "print_banner server_pubkey cfg upstream =
     [[], ''  '' @ banner_rule, ''   outlay '' @ [CHR 0xE2, CHR 0x80, CHR 0x94] @ '' Nostr relay over ContextVM'',
      ''  '' @ banner_rule, [], ''   server pubkey   '' @ server_pubkey]
     @ (case page_url server_pubkey cfg of Some page \<Rightarrow> [''   page            '' @ page] | None \<Rightarrow> [])
     @ [[], ''   CVM relays (listening)'', join_lines (map banner_item (cvm_relay_urls cfg)),
        [], ''   upstream relay (proxied)'', banner_item upstream, []]"

section \<open>Stopping\<close>

text \<open>
  \<open>shutdown_signal\<close>: \<open>sigterm\<close> is what the installation of the SIGTERM handler answers, \<open>None\<close> off
  Unix; the list has what arrives, in order. The value \<open>None\<close> is the panic of \<open>expect\<close>,
  \<open>Some False\<close> a function that still waits.
\<close>

definition shutdown_signal :: "(string + unit) option \<Rightarrow> signal list \<Rightarrow> bool option" where
  "shutdown_signal sigterm arrivals =
     (case sigterm of
        Some (Inl e) \<Rightarrow> None
      | Some (Inr _) \<Rightarrow> Some (arrivals \<noteq> [])
      | None \<Rightarrow> Some (list_ex (\<lambda>s. case s of Interrupt r \<Rightarrow> True | Terminate \<Rightarrow> False) arrivals))"

section \<open>The program\<close>

text \<open>
  \<open>main\<close> as the list of what it does and how it ends: an error with the context the code adds, or a
  normal exit. The record holds what the world answers at each step; the outer \<open>None\<close> is a panic.
  The run is one that ends: the last \<open>select!\<close> was left because the service exited or a signal came,
  and \<open>exits_first\<close> holds when the service's exit was taken before the other branch was polled at all.
  \<open>main_connected\<close> is the part behind the choice of the upstream.
\<close>

datatype main_effect =
    RelayStarted string
  | UpstreamConnected string
  | BannerPrinted "string list"
  | TransportStarted server_transport_config
  | Serving
  | RelayShutdown

record 'key main_world =
  from_sk :: "string \<Rightarrow> string + 'key"
  generated :: 'key
  pubkey_hex :: "'key \<Rightarrow> string"
  spawn_relay :: "relay_backend \<Rightarrow> string option \<Rightarrow> u16 \<Rightarrow> (string + (u16 \<times> string)) option"
  new_proxy :: "string \<Rightarrow> proxy_error + proxy"
  start_transport :: "server_transport_config \<Rightarrow> string + unit"
  serve_transport :: "string + unit"
  exits_first :: bool
  sigterm :: "(string + unit) option"
  signals :: "signal list"

definition main_connected ::
  "bool \<Rightarrow> 'key main_world \<Rightarrow> server_config \<Rightarrow> 'key \<Rightarrow> string \<Rightarrow> (main_effect list \<times> (string + unit)) option"
where
  "main_connected bundled_relay w cfg key upstream =
     (let own = (bundled_relay \<and> proxy_relay_url cfg = None);
          started = (if own then [RelayStarted upstream] else []) in
      case new_proxy w upstream of
        Inl e \<Rightarrow> Some (started, Inl (''connecting upstream relay '' @ upstream))
      | Inr proxy \<Rightarrow>
          (let shown = started @ [UpstreamConnected upstream,
                 BannerPrinted (print_banner (pubkey_hex w key) cfg upstream)];
               tcfg = build_transport_config cfg
           in
           case start_transport w tcfg of
             Inl e \<Rightarrow> Some (shown, Inl ''connecting ContextVM server transport'')
           | Inr _ \<Rightarrow>
               (case serve_transport w of
                  Inl e \<Rightarrow> Some (shown @ [TransportStarted tcfg], Inl e)
                | Inr _ \<Rightarrow>
                    if exits_first w \<or> shutdown_signal (sigterm w) (signals w) \<noteq> None
                    then Some (shown @ [TransportStarted tcfg, Serving] @ (if own then [RelayShutdown] else []), Inr ())
                    else None)))"

definition outlay_main :: "bool \<Rightarrow> 'key main_world \<Rightarrow> env \<Rightarrow> (main_effect list \<times> (string + unit)) option" where
  "outlay_main bundled_relay w env =
     (case read_server_config bundled_relay env of
        Inl e \<Rightarrow> Some ([], Inl ''reading outlay server config'')
      | Inr cfg \<Rightarrow>
          (case (case private_key_hex cfg of Some k \<Rightarrow> from_sk w k | None \<Rightarrow> Inr (generated w)) of
             Inl e \<Rightarrow> Some ([], Inl ''OUTLAY_SERVER_PRIVATE_KEY'')
           | Inr key \<Rightarrow>
               (case choose_upstream bundled_relay (spawn_relay w) cfg of
                  None \<Rightarrow> None
                | Some (Inl e) \<Rightarrow> Some ([], Inl e)
                | Some (Inr upstream) \<Rightarrow> main_connected bundled_relay w cfg key upstream)))"

section \<open>Lemmas\<close>

lemma server_config_upstream:
  assumes "read_server_config f env = Inr c"
  shows "(bundled c \<noteq> None \<longleftrightarrow> f)" "proxy_relay_url c = None \<Longrightarrow> f" "cvm_relay_urls c \<noteq> []"
    "proxy_relay_url c = opt_string env ''OUTLAY_PROXY_RELAY_URL''"
    "bundled c = (if f then Some (read_bundled env) else None)"
  using assms read_cvm_relay_urls_ok [of env]
  by (auto simp: read_server_config_def Let_def split: sum.splits if_splits)

lemma choose_upstream_result:
  assumes "read_server_config f env = Inr c"
  shows "\<exists>r. choose_upstream f (spawn_bundled parent exists create open_sqlite run url) c = Some r"
proof (cases "f \<and> proxy_relay_url c = None")
  case True
  then have "bundled c = Some (read_bundled env)" using server_config_upstream(5) [OF assms] by simp
  then show ?thesis using True
    using spawn_bundled_total [of parent exists create open_sqlite run url
        "backend_of (backend (read_bundled env))" "Some (db_path (read_bundled env))" "bundled_port (read_bundled env)"]
    by (auto simp: choose_upstream_def)
next
  case False
  then show ?thesis using server_config_upstream(2) [OF assms] by (auto simp: choose_upstream_def)
qed

lemma banner_upstream: "banner_item u \<in> set (print_banner k c u)"
  by (simp add: print_banner_def)

text \<open>What a run that has an upstream does.\<close>

definition run_ok :: "bool \<Rightarrow> main_effect list \<Rightarrow> string + unit \<Rightarrow> bool" where
  "run_ok own es r \<longleftrightarrow>
     (Serving \<in> set es \<longleftrightarrow> r = Inr ())
     \<and> (r = Inr () \<longrightarrow>
         (\<exists>u ls. {UpstreamConnected u, BannerPrinted ls} \<subseteq> set es \<and> banner_item u \<in> set ls
            \<and> (\<forall>v. RelayStarted v \<in> set es \<longrightarrow> v = u)))
     \<and> (RelayShutdown \<in> set es \<longleftrightarrow> r = Inr () \<and> (\<exists>u. RelayStarted u \<in> set es))
     \<and> (\<not> own \<longrightarrow> (\<forall>u. RelayStarted u \<notin> set es))"

lemma run_ok_error: "run_ok own [] (Inl e)"
  by (simp add: run_ok_def)

lemma main_connected_ok:
  assumes "main_connected f w c k u = Some (es, r)"
  shows "run_ok (f \<and> proxy_relay_url c = None) es r"
proof (cases "new_proxy w u")
  case (Inl e)
  then show ?thesis using assms by (auto simp: main_connected_def run_ok_def)
next
  case (Inr p)
  show ?thesis
  proof (cases "start_transport w (build_transport_config c)")
    case (Inl e)
    then show ?thesis using assms Inr by (auto simp: main_connected_def run_ok_def Let_def)
  next
    case started: (Inr _)
    show ?thesis
    proof (cases "serve_transport w")
      case (Inl e)
      then show ?thesis using assms Inr started by (auto simp: main_connected_def run_ok_def Let_def)
    next
      case (Inr _)
      then have whole: "es = ((if f \<and> proxy_relay_url c = None then [RelayStarted u] else [])
            @ [UpstreamConnected u, BannerPrinted (print_banner (pubkey_hex w k) c u)])
          @ [TransportStarted (build_transport_config c), Serving]
          @ (if f \<and> proxy_relay_url c = None then [RelayShutdown] else [])" "r = Inr ()"
        using assms \<open>new_proxy w u = Inr p\<close> started by (auto simp: main_connected_def Let_def split: if_split_asm)
      then have "{UpstreamConnected u, BannerPrinted (print_banner (pubkey_hex w k) c u)} \<subseteq> set es"
        and "RelayStarted v \<in> set es \<longleftrightarrow> v = u \<and> f \<and> proxy_relay_url c = None" for v by auto
      moreover have "RelayShutdown \<in> set es \<longleftrightarrow> f \<and> proxy_relay_url c = None" "Serving \<in> set es"
        using whole(1) by auto
      moreover note whole(2)
      ultimately show ?thesis using banner_upstream unfolding run_ok_def by blast
    qed
  qed
qed

lemma shutdown_signal_None: "shutdown_signal t xs = None \<longleftrightarrow> (\<exists>e. t = Some (Inl e))"
  by (auto simp: shutdown_signal_def split: option.split sum.split)

lemma main_connected_None:
  "main_connected f w c k u = None \<Longrightarrow> \<not> exits_first w \<and> (\<exists>e. sigterm w = Some (Inl e))"
  by (auto simp: main_connected_def Let_def shutdown_signal_None split: sum.splits if_splits)

section \<open>Properties\<close>

text \<open>With a configuration that was read, the server never panics over its upstream. The upstream
  is the configured relay whenever one is set, and the bundled relay is then not started; otherwise
  it is the bundled relay's own URL, on disk unless the backend is memory, and a relay that cannot be
  started is an error.\<close>

lemma choose_upstream_total:
  assumes "read_server_config f env = Inr c"
  shows "\<exists>r. choose_upstream f (spawn_bundled parent exists create open_sqlite run url) c = Some r \<and>
     (case opt_string env ''OUTLAY_PROXY_RELAY_URL'' of
        Some u \<Rightarrow> r = Inr u
      | None \<Rightarrow> (case r of
            Inl e \<Rightarrow> e = ''starting bundled relay''
          | Inr u \<Rightarrow> \<exists>p. u = url p \<and> run p = Inr ()
              \<and> spawn_bundled parent exists create open_sqlite run url (backend_of (backend (read_bundled env)))
                  (Some (db_path (read_bundled env))) (bundled_port (read_bundled env)) = Some (Inr (p, u))))"
proof (cases "opt_string env ''OUTLAY_PROXY_RELAY_URL''")
  case (Some u)
  then show ?thesis using server_config_upstream(4) [OF assms] by (simp add: choose_upstream_def)
next
  case None
  note cfg = server_config_upstream [OF assms]
  have f: "f" and b: "bundled c = Some (read_bundled env)" using cfg None by auto
  let ?spawn = "spawn_bundled parent exists create open_sqlite run url"
  let ?start = "?spawn (backend_of (backend (read_bundled env))) (Some (db_path (read_bundled env)))
      (bundled_port (read_bundled env))"
  obtain r where r: "?start = Some r" using spawn_bundled_total by blast
  have ch: "choose_upstream f ?spawn c =
      Some (case r of Inl e \<Rightarrow> Inl ''starting bundled relay'' | Inr (p, u) \<Rightarrow> Inr u)"
    using f b None cfg(4) r by (simp add: choose_upstream_def)
  show ?thesis
  proof (cases r)
    case (Inl e)
    then show ?thesis using ch None by simp
  next
    case (Inr pu)
    obtain p u where pu: "pu = (p, u)" by fastforce
    have "u = url p \<and> run p = Inr ()" using spawn_bundled_Inr r Inr pu by blast
    then show ?thesis using ch None r Inr pu by auto
  qed
qed

text \<open>C33: a run of the server, on every branch. It panics at one place only: when the handler of SIGTERM
  cannot be installed. A run that gets to serve has connected the one upstream it then shows in its
  banner, and stopped the bundled relay exactly when it had started one; a run that fails before it
  serves stops nothing; and no run starts the bundled relay when an upstream is configured.\<close>
theorem outlay_main_run:
  assumes "spawn_relay w = spawn_bundled parent exists create open_sqlite run url"
  shows "case outlay_main f w env of
      None \<Rightarrow> \<not> exits_first w \<and> (\<exists>e. sigterm w = Some (Inl e))
    | Some (es, r) \<Rightarrow> run_ok (opt_string env ''OUTLAY_PROXY_RELAY_URL'' = None) es r"
proof (cases "read_server_config f env")
  case (Inl e)
  then show ?thesis by (simp add: outlay_main_def run_ok_error)
next
  case (Inr c)
  define key where "key = (case private_key_hex c of Some k \<Rightarrow> from_sk w k | None \<Rightarrow> Inr (generated w))"
  obtain up where up: "choose_upstream f (spawn_relay w) c = Some up"
    using choose_upstream_result [OF Inr] unfolding assms by blast
  have main: "outlay_main f w env = (case key of Inl e \<Rightarrow> Some ([], Inl ''OUTLAY_SERVER_PRIVATE_KEY'')
      | Inr k \<Rightarrow> (case up of Inl e \<Rightarrow> Some ([], Inl e) | Inr u \<Rightarrow> main_connected f w c k u))"
    by (simp add: outlay_main_def Inr up key_def split: sum.split)
  have own: "run_ok (opt_string env ''OUTLAY_PROXY_RELAY_URL'' = None) es r"
    if "run_ok (f \<and> proxy_relay_url c = None) es r" for es r
    using that server_config_upstream(4) [OF Inr] by (auto simp: run_ok_def)
  show ?thesis
  proof (cases key)
    case (Inl e)
    then show ?thesis unfolding main by (simp add: run_ok_error)
  next
    case (Inr k)
    show ?thesis
    proof (cases up)
      case (Inl e)
      then show ?thesis unfolding main by (simp add: \<open>key = Inr k\<close> run_ok_error)
    next
      case (Inr u)
      then show ?thesis
        unfolding main using own main_connected_ok [of f w c k u] main_connected_None [of f w c k u]
        by (auto simp: \<open>key = Inr k\<close> split: option.split)
    qed
  qed
qed

text \<open>A world in which everything works, and an environment with an upstream.\<close>

definition example_world :: "string main_world" where
  "example_world =
     \<lparr>from_sk = Inr, generated = ''key'', pubkey_hex = (\<lambda>k. k),
      spawn_relay = spawn_bundled (\<lambda>_. None) (\<lambda>_. True) (\<lambda>_. Inr ()) (\<lambda>_. Inr ()) (\<lambda>_. Inr ()) (\<lambda>_. ''ws://127.0.0.1''),
      new_proxy = proxy_new (Inr ()) (\<lambda>_. Inr ()) (Inr ()), start_transport = (\<lambda>_. Inr ()), serve_transport = Inr (),
      exits_first = False, sigterm = Some (Inr ()), signals = [Terminate]\<rparr>"

theorem outlay_main_run_witness:
  "\<exists>es. outlay_main False example_world [''OUTLAY_PROXY_RELAY_URL'' \<mapsto> ''wss://r''] = Some (es, Inr ())
     \<and> run_ok False es (Inr ())"
proof -
  let ?env = "[''OUTLAY_PROXY_RELAY_URL'' \<mapsto> ''wss://r'']"
  have opt: "opt_string ?env ''OUTLAY_PROXY_RELAY_URL'' = Some ''wss://r''"
    by (simp add: opt_string_def trim_def whitespace_def strip_all.simps)
  have unset: "opt_string ?env n = None" if "n \<noteq> ''OUTLAY_PROXY_RELAY_URL''" for n
    using that by (simp add: opt_string_def)
  obtain c where c: "read_server_config False ?env = Inr c" "private_key_hex c = None" "proxy_relay_url c = Some ''wss://r''"
    by (simp add: read_server_config_def Let_def read_gift_wrap_def opt_bool_def opt unset)
  have "\<exists>es. outlay_main False example_world ?env = Some (es, Inr ())"
    by (simp add: outlay_main_def c choose_upstream_def main_connected_def example_world_def proxy_new_def shutdown_signal_def)
  moreover have "case outlay_main False example_world ?env of
      None \<Rightarrow> \<not> exits_first example_world \<and> (\<exists>e. sigterm example_world = Some (Inl e))
    | Some (es, r) \<Rightarrow> run_ok (opt_string ?env ''OUTLAY_PROXY_RELAY_URL'' = None) es r"
    by (rule outlay_main_run) (simp add: example_world_def)
  ultimately show ?thesis using opt by auto
qed

end
