(* ===== verification/End_To_End.thy ===== *)
theory End_To_End
  imports Server Outlay_Main
begin

text \<open>
  The composition of the two programs: what the shim sends in a tool call is what outlay's handler
  takes apart, and what outlay answers is what the shim turns into NIP-01 frames. The transport in
  between is third-party code: it delivers the arguments, the chunks and the result of a call.
\<close>

text \<open>What the client of the tool sees of its result: \<open>rpc\<close> is the text of an RPC error.\<close>

definition rpc_answer :: "(string \<Rightarrow> string) \<Rightarrow> string + tool_result \<Rightarrow> string + json option" where
  "rpc_answer rpc res = (case res of Inl e \<Rightarrow> Inl (rpc e) | Inr r \<Rightarrow> Inr (structured_content r))"

definition client_event_id :: "json \<Rightarrow> string" where
  "client_event_id event = (case json_str event ''id'' of Some s \<Rightarrow> s | None \<Rightarrow> [])"

text \<open>A chunk that carries a subscription id: the kinds of frames a relay sends for one.\<close>

definition labelled :: "(json \<Rightarrow> string option) \<Rightarrow> string \<Rightarrow> string \<Rightarrow> bool" where
  "labelled ser i c \<longleftrightarrow>
     (\<exists>kind payload. kind \<in> {''EVENT'', ''EOSE'', ''CLOSED''} \<and> c = chunk ser (JArray (JString kind # JString i # payload)))"

lemma frame_kind_cases: "frame_kind n \<in> {''EVENT'', ''EOSE'', ''CLOSED''}"
  by (cases n rule: frame_kind.cases) auto

lemma map_notification_chunk:
  "map_notification ser evj n uid i = Some f \<Longrightarrow>
     forward_chunk f = chunk ser (JArray (JString (frame_kind n) # JString i # frame_payload evj n))"
  by (cases "(uid, n)" rule: concerns.cases) (auto split: if_splits)

lemma map_notification_labelled:
  "map_notification ser evj n uid i = Some f \<Longrightarrow> labelled ser i (forward_chunk f)"
  unfolding labelled_def
  by (rule exI [of _ "frame_kind n"], rule exI [of _ "frame_payload evj n"])
    (simp only: map_notification_chunk frame_kind_cases)

lemma until_stop_chunk: "c \<in> set (until_stop fs) \<Longrightarrow> \<exists>f \<in> set fs. c = forward_chunk f"
  by (induction fs rule: until_stop.induct) auto

lemma stream_spec_labelled:
  assumes "c \<in> set (stream_spec ser evj uid i ns)"
  shows "labelled ser i c"
proof -
  obtain n f where "map_notification ser evj n uid i = Some f" "c = forward_chunk f"
    using assms unfolding stream_spec_def by (auto dest!: until_stop_chunk simp: set_map_filter_iff)
  then show ?thesis using map_notification_labelled by blast
qed

lemma forward_loop_labelled: "c \<in> set (fst (forward_loop ser evj uid i its)) \<Longrightarrow> labelled ser i c"
  using set_mono_prefix [OF forward_loop_prefix] by (blast intro: stream_spec_labelled)

lemma subscribe_labelled:
  "c \<in> set (sink_writes (fst (proxy_subscribe ser evj i fs uid sub_res its fin))) \<Longrightarrow> labelled ser i c"
  by (cases "forward_loop ser evj uid i its"; cases sub_res)
    (auto simp: proxy_subscribe_def Let_def split: if_splits intro: forward_loop_labelled [of c ser evj uid i its])

lemma subscribe_params_roundtrip: "subscribe_params_of (subscribe_args i fs) = Some \<lparr>subscription_id = i, param_filters = fs\<rparr>"
  by (simp add: subscribe_params_of_def subscribe_args_def json_object_def)

lemma publish_params_roundtrip: "publish_event_params_of (args (json_object [(''event'', event)])) = Some event"
  by (simp add: publish_event_params_of_def json_object_def)

text \<open>The tool calls among the effects of the shim's tasks.\<close>

lemma pump_no_call: "CallTool name a \<notin> set (pump disp i tok evs)"
  by (induction disp i tok evs rule: pump.induct) auto

lemma subscribe_loop_calls:
  "CallTool name a \<in> set (subscribe_loop disp i fs opened evs) \<Longrightarrow> name = ''subscribe'' \<and> a = subscribe_args i fs"
  by (auto simp: subscribe_loop_def Let_def pump_no_call split: stream_setup.splits if_splits)

lemma publish_once_calls:
  "CallTool name a \<in> set (publish_once disp event answer) \<Longrightarrow>
     name = ''publish_event'' \<and> a = args (json_object [(''event'', event)])"
  by (simp add: publish_once_def)

text \<open>The answer to a published event, over both programs.\<close>

definition published ::
  "(json \<Rightarrow> string) \<Rightarrow> (string \<Rightarrow> string) \<Rightarrow> (json \<Rightarrow> string + 'event) \<Rightarrow> ('event \<Rightarrow> string)
   \<Rightarrow> ('event \<Rightarrow> send_result) \<Rightarrow> string \<Rightarrow> json \<Rightarrow> 'tok task_effect list"
where
  "published disp rpc event_of event_id send bad_params event =
     publish_once disp event
       (rpc_answer rpc (publish_event_tool event_of event_id send bad_params
          (args (json_object [(''event'', event)]))))"

text \<open>The chunks of a subscription that outlay streams, over both programs.\<close>

definition streamed ::
  "(json \<Rightarrow> string option) \<Rightarrow> ('ev \<Rightarrow> json) \<Rightarrow> (json \<Rightarrow> string + 'f) \<Rightarrow> string \<Rightarrow> string \<Rightarrow> json list \<Rightarrow> 'w option
   \<Rightarrow> string \<Rightarrow> (string + unit) \<Rightarrow> 'ev iter list \<Rightarrow> bool \<Rightarrow> string list"
where
  "streamed ser evj filter_of bad_params i fs ext uid sub_res its fin =
     sink_writes (fst (subscribe_tool ser evj filter_of bad_params (subscribe_args i fs) ext uid sub_res its fin))"

text \<open>What the shim's task gives its client when it is fed these chunks and then the stream ends.\<close>

definition relayed :: "(json \<Rightarrow> string) \<Rightarrow> string \<Rightarrow> json list \<Rightarrow> 'tok \<Rightarrow> string list \<Rightarrow> string list" where
  "relayed disp i fs tok cs =
     task_sends (subscribe_loop disp i fs (SetupOk tok) (map (\<lambda>c. StreamChunk c True) cs @ [StreamEnd]))"

lemma relayed_chunks: "relayed disp i fs tok cs = cs"
  by (simp add: relayed_def subscribe_loop_def Let_def pump_chunks)

lemma streamed_cases:
  fixes filter_of :: "json \<Rightarrow> string + 'f"
  assumes "c \<in> set (streamed ser evj filter_of bad_params i fs ext uid sub_res its fin)"
  shows "labelled ser i c"
proof -
  obtain gs :: "'f list" where "c \<in> set (sink_writes (fst (proxy_subscribe ser evj i gs uid sub_res its fin)))"
    using assms
    by (cases "stream_writer ext"; cases "collect_results (map filter_of fs)")
      (auto simp: streamed_def subscribe_tool_def subscribe_params_roundtrip split_def Let_def)
  then show ?thesis by (rule subscribe_labelled)
qed

lemma streamed_healthy:
  assumes "ext \<noteq> None" "fs \<noteq> []" "map filter_of fs = map Inr gs" "list_all healthy its"
  shows "streamed ser evj filter_of bad_params i fs ext uid (Inr ()) its fin = stream_spec ser evj uid i (received its)"
proof -
  have "gs \<noteq> []" using assms(2,3) by auto
  moreover obtain cs f where l: "forward_loop ser evj uid i its = (cs, f)" by fastforce
  moreover have "cs = stream_spec ser evj uid i (received its)"
    using forward_loop_healthy [OF assms(4), of ser evj uid i] l by simp
  moreover obtain w where "ext = Some w" using assms(1) by auto
  ultimately show ?thesis
    by (simp add: streamed_def subscribe_tool_def subscribe_params_roundtrip stream_writer_def assms(3)
        proxy_subscribe_def Let_def)
qed

lemma https_url_http: "\<exists>rest. https_url u = ''https://'' @ rest \<or> https_url u = ''http://'' @ rest"
  by (auto simp: https_url_def starts_with_iff split: option.split)

lemma https_url_web:
  "https_url (''https://'' @ r) = ''https://'' @ r" "https_url (''http://'' @ r) = ''http://'' @ r"
  by (auto simp: https_url_def starts_with_iff)

lemma https_url_idem: "https_url (https_url u) = https_url u"
  using https_url_http [of u] https_url_web by metis

section \<open>The relay document over both programs\<close>

text \<open>The fields of the document a client reads, by what the upstream's HTTP endpoint answers.\<close>

definition served_field :: "http_result \<Rightarrow> string \<Rightarrow> json option" where
  "served_field resp =
     (case resp of
        HttpResponse code (Some (JObject m)) \<Rightarrow> if is_success code then overlaid m else jget synthesized_proxy_info
      | _ \<Rightarrow> jget synthesized_proxy_info)"

lemma relay_info_fields:
  assumes "nip11_origin url = Some origin"
  shows "\<exists>doc. relay_info url fetch = Some (Inr doc) \<and> jget doc = served_field (fetch origin)
    \<and> ((\<forall>code d. fetch origin = HttpResponse code (Some d) \<longrightarrow> json_ok d) \<longrightarrow> json_ok doc)"
proof (cases "\<exists>code m. fetch origin = HttpResponse code (Some (JObject m)) \<and> is_success code")
  case True
  then obtain code m where f: "fetch origin = HttpResponse code (Some (JObject m))" "is_success code" by blast
  obtain m' where m': "overlay_proxy_info (JObject m) = Some (JObject m')" "obj_get m' = overlaid m"
    using overlay_proxy_info_object by blast
  have "relay_info url fetch = Some (Inr (JObject m'))" using assms f m' by (simp add: relay_info_def)
  moreover have "jget (JObject m') = served_field (fetch origin)" using f m'(2) by (auto simp: served_field_def fun_eq_iff)
  moreover have "json_ok (JObject m) \<longrightarrow> json_ok (JObject m')" using overlay_json_ok m'(1) by blast
  ultimately show ?thesis using f(1) by blast
next
  case False
  have "json_ok synthesized_proxy_info"
    unfolding synthesized_proxy_info_def by (rule json_ok_object) simp
  moreover have "relay_info url fetch = Some (Inr synthesized_proxy_info)"
    using assms False by (auto simp: relay_info_def is_object_iff split: http_result.split option.split)
  moreover have "served_field (fetch origin) = jget synthesized_proxy_info"
    using False by (auto simp: served_field_def split: http_result.split option.split json.split)
  ultimately show ?thesis by auto
qed

end
