(* ===== verification/Runs.thy ===== *)
theory Runs
  imports Main
begin

text \<open>
  The interface of a system that settles: a well-founded load, and a step from every state of the
  invariant that is not settled yet. What a run of such a system does is proved once here; the
  outbound channel, the end of a connection and the end of the subscribe calls are such systems.
\<close>

locale settling =
  fixes inv :: "'s \<Rightarrow> bool"
    and step :: "'s \<Rightarrow> 's \<Rightarrow> bool"
    and settled :: "'s \<Rightarrow> bool"
    and load :: "'s \<Rightarrow> nat"
  assumes inv_step: "inv s \<Longrightarrow> step s s' \<Longrightarrow> inv s'"
    and load_step: "inv s \<Longrightarrow> step s s' \<Longrightarrow> load s' < load s"
    and progress: "inv s \<Longrightarrow> settled s \<or> (\<exists>s'. step s s')"
begin

text \<open>A run keeps the invariant and is no longer than the load it works off.\<close>

lemma run_bounded: "(step ^^ n) s s' \<Longrightarrow> inv s \<Longrightarrow> inv s' \<and> n + load s' \<le> load s"
proof (induction n arbitrary: s')
  case (Suc n)
  then obtain t where "(step ^^ n) s t" "step t s'" by auto
  then show ?case using Suc inv_step load_step by fastforce
qed simp

text \<open>It can always be continued until it is settled.\<close>

lemma settles: "inv s \<Longrightarrow> \<exists>n s'. (step ^^ n) s s' \<and> inv s' \<and> settled s'"
proof (induction "load s" arbitrary: s rule: less_induct)
  case less
  show ?case
  proof (cases "settled s")
    case True
    then show ?thesis using less.prems by (intro exI [of _ 0]) auto
  next
    case False
    then obtain t where t: "step s t" using progress less.prems by blast
    obtain n s' where "(step ^^ n) t s'" "inv s'" "settled s'"
      using less.hyps [of t] inv_step load_step t less.prems by blast
    moreover from t this(1) have "(step ^^ Suc n) s s'" by (rule relpowp_Suc_I2)
    ultimately show ?thesis by blast
  qed
qed

text \<open>A run that cannot be continued is settled.\<close>

lemma stuck_settled: "(step ^^ n) s s' \<Longrightarrow> inv s \<Longrightarrow> \<nexists>t. step s' t \<Longrightarrow> settled s'"
  using run_bounded progress by blast

end

text \<open>The load of a system of numbered parts: the weights of the parts, added up.\<close>

definition weigh :: "('a \<Rightarrow> nat) \<Rightarrow> (nat \<rightharpoonup> 'a) \<Rightarrow> nat" where
  "weigh w m = (\<Sum>n \<in> dom m. w (the (m n)))"

lemma weigh_upd:
  assumes "finite (dom m)" "m n = Some x"
  shows "weigh w (m(n \<mapsto> y)) + w x = weigh w m + w y"
proof -
  have d: "dom (m(n \<mapsto> y)) = dom m" "n \<in> dom m" using assms(2) by auto
  have "(\<Sum>k \<in> dom m - {n}. w (the ((m(n \<mapsto> y)) k))) = (\<Sum>k \<in> dom m - {n}. w (the (m k)))"
    by (rule sum.cong) auto
  then show ?thesis
    using sum.remove [OF assms(1) d(2), of "\<lambda>k. w (the ((m(n \<mapsto> y)) k))"]
      sum.remove [OF assms(1) d(2), of "\<lambda>k. w (the (m k))"] assms(2)
    unfolding weigh_def d(1) by simp
qed

lemma weigh_new:
  assumes "finite (dom m)" "m n = None"
  shows "weigh w (m(n \<mapsto> x)) = weigh w m + w x"
proof -
  have d: "dom (m(n \<mapsto> x)) = insert n (dom m)" "n \<notin> dom m" using assms(2) by auto
  have "(\<Sum>k \<in> dom m. w (the ((m(n \<mapsto> x)) k))) = (\<Sum>k \<in> dom m. w (the (m k)))"
    by (rule sum.cong) (use d(2) in auto)
  then show ?thesis using assms(1) d(2) unfolding weigh_def d(1) by simp
qed

lemma weigh_same:
  assumes "\<And>n x. m n = Some x \<Longrightarrow> w (f x) = w x"
  shows "weigh w (\<lambda>n. map_option f (m n)) = weigh w m"
proof -
  have d: "dom (\<lambda>n. map_option f (m n)) = dom m" by (auto simp: dom_def)
  show ?thesis unfolding weigh_def d by (rule sum.cong) (use assms in auto)
qed

end
