(* ===== verification/Outbound.thy ===== *)
theory Outbound
  imports Rust_Str Runs "HOL-Library.Sublist"
begin

text \<open>
  The outbound side of \<open>handle_ws\<close> in \<open>crates/outlay-shim/src/conn.rs\<close>: the main loop and every
  spawned task hold a sender of one bounded channel, one writer task drains it into the socket. A
  step relation over \<open>tokio::sync::mpsc\<close>'s documented behaviour: a send waits while the buffer is
  full, fails once the receiver is gone, and the receiver yields the frames in the order in which
  they were taken. A writer whose socket failed closes the socket first and drops the receiver after
  that: in between the buffer still takes frames, which nobody reads. The senders are of any type; \<open>made\<close> records what each sender has handed to \<open>send\<close>.
\<close>

section \<open>Channel and writer\<close>

definition outbound_buf :: nat where
  "outbound_buf = 256"

record 'i outbound =
  made :: "'i \<Rightarrow> string list"
  waiting :: "'i \<Rightarrow> string list"
  queue :: "('i \<times> string) list"
  writing :: "('i \<times> string) option"
  written :: "('i \<times> string) list"
  receiving :: bool
  closing :: bool

definition new_outbound :: "'i outbound" where
  "new_outbound = \<lparr>made = (\<lambda>_. []), waiting = (\<lambda>_. []), queue = [], writing = None, written = [], receiving = True,
     closing = False\<rparr>"

text \<open>What channel and writer do with frames that were handed over. \<open>receiving\<close> is the writer in its loop,
  \<open>closing\<close> the writer that awaits \<open>sink.close()\<close> after a failed write.\<close>

inductive move :: "'i outbound \<Rightarrow> 'i outbound \<Rightarrow> bool" where
  enqueue: "waiting s i = f # fs \<Longrightarrow> receiving s \<or> closing s \<Longrightarrow> length (queue s) < outbound_buf \<Longrightarrow>
     move s (s\<lparr>waiting := (waiting s)(i := fs), queue := queue s @ [(i, f)]\<rparr>)"
| refuse: "waiting s i = f # fs \<Longrightarrow> \<not> receiving s \<Longrightarrow> \<not> closing s \<Longrightarrow>
     move s (s\<lparr>waiting := (waiting s)(i := fs)\<rparr>)"
| recv: "queue s = x # q \<Longrightarrow> writing s = None \<Longrightarrow> receiving s \<Longrightarrow> move s (s\<lparr>queue := q, writing := Some x\<rparr>)"
| wrote: "writing s = Some x \<Longrightarrow> receiving s \<Longrightarrow> move s (s\<lparr>writing := None, written := written s @ [x]\<rparr>)"
| write_error: "writing s = Some x \<Longrightarrow> receiving s \<Longrightarrow>
     move s (s\<lparr>writing := None, receiving := False, closing := True\<rparr>)"
| shut: "closing s \<Longrightarrow> \<not> receiving s \<Longrightarrow> move s (s\<lparr>queue := [], closing := False\<rparr>)"

text \<open>All of it: a sender hands over a frame, or something moves. A sender awaits each \<open>send\<close>, so it
  hands over nothing while a frame of its own waits.\<close>

definition give :: "'i \<Rightarrow> string \<Rightarrow> 'i outbound \<Rightarrow> 'i outbound" where
  "give i f s = s\<lparr>made := (made s)(i := made s i @ [f]), waiting := (waiting s)(i := waiting s i @ [f])\<rparr>"

inductive outbound_step :: "'i outbound \<Rightarrow> 'i outbound \<Rightarrow> bool" where
  hand_over: "waiting s i = [] \<Longrightarrow> outbound_step s (give i f s)"
| moved: "move s s' \<Longrightarrow> outbound_step s s'"

inductive outbound_reachable :: "'i outbound \<Rightarrow> bool" where
  start: "outbound_reachable new_outbound"
| step: "outbound_reachable s \<Longrightarrow> outbound_step s s' \<Longrightarrow> outbound_reachable s'"

section \<open>The invariant\<close>

definition of_sender :: "'i \<Rightarrow> ('i \<times> string) list \<Rightarrow> string list" where
  "of_sender i xs = map snd (filter (\<lambda>x. fst x = i) xs)"

lemma of_sender_simps [simp]:
  "of_sender i [] = []" "of_sender i (xs @ ys) = of_sender i xs @ of_sender i ys"
  "of_sender i (x # xs) = (if fst x = i then [snd x] else []) @ of_sender i xs"
  by (simp_all add: of_sender_def)

definition in_transit :: "'i outbound \<Rightarrow> ('i \<times> string) list" where
  "in_transit s = (case writing s of Some x \<Rightarrow> [x] | None \<Rightarrow> []) @ queue s"

definition outbound_inv :: "'i outbound \<Rightarrow> bool" where
  "outbound_inv s \<longleftrightarrow>
     length (queue s) \<le> outbound_buf \<and> finite {i. waiting s i \<noteq> []}
     \<and> (receiving s \<longrightarrow> (\<forall>i. made s i = of_sender i (written s @ in_transit s) @ waiting s i))
     \<and> (receiving s \<longrightarrow> \<not> closing s) \<and> (writing s \<noteq> None \<longrightarrow> receiving s)
     \<and> (queue s \<noteq> [] \<longrightarrow> receiving s \<or> closing s)
     \<and> (\<forall>i. prefix (of_sender i (written s)) (made s i) \<and> (waiting s i \<noteq> [] \<longrightarrow> made s i \<noteq> []))"

lemma outbound_inv_new: "outbound_inv new_outbound"
  by (simp add: outbound_inv_def new_outbound_def in_transit_def)

lemma finite_waiting:
  "finite {i. w i \<noteq> []} \<Longrightarrow> finite {j. (w(i := x)) j \<noteq> []}"
  by (rule finite_subset [of _ "insert i {i. w i \<noteq> []}"]) auto

lemma outbound_inv_move:
  assumes "move s s'" "outbound_inv s"
  shows "outbound_inv s'"
proof -
  have fin: "finite {i. waiting s i \<noteq> []}" using assms(2) by (simp add: outbound_inv_def)
  have made: "made s i = of_sender i (written s @ in_transit s) @ waiting s i" if "receiving s" for i
    using assms(2) that by (simp add: outbound_inv_def)
  show ?thesis
    using assms(1)
  proof cases
    case (enqueue i f fs)
    have "made s j = of_sender j (written s @ in_transit s @ [(i, f)]) @ ((waiting s)(i := fs)) j" if "receiving s" for j
      using made [OF that, of j] enqueue(2) by auto
    then show ?thesis
      using assms(2) enqueue finite_waiting [OF fin] by (auto simp: outbound_inv_def in_transit_def)
  next
    case (refuse i f fs)
    then show ?thesis using assms(2) finite_waiting [OF fin] by (auto simp: outbound_inv_def in_transit_def)
  next
    case (recv x q)
    then show ?thesis using assms(2) by (auto simp: outbound_inv_def in_transit_def)
  next
    case (wrote x)
    then show ?thesis
      using assms(2) made by (auto simp: outbound_inv_def in_transit_def)
  next
    case (write_error x)
    then show ?thesis using assms(2) by (auto simp: outbound_inv_def in_transit_def)
  next
    case shut
    then show ?thesis using assms(2) by (auto simp: outbound_inv_def in_transit_def)
  qed
qed

lemma outbound_inv_step:
  assumes "outbound_step s s'" "outbound_inv s"
  shows "outbound_inv s'"
  using assms(1)
proof cases
  case (hand_over i f)
  have "finite {i. waiting s i \<noteq> []}" using assms(2) by (simp add: outbound_inv_def)
  then have "finite {j. ((waiting s)(i := waiting s i @ [f])) j \<noteq> []}" by (rule finite_waiting)
  then show ?thesis
    using assms(2) hand_over
    by (auto simp: outbound_inv_def in_transit_def give_def intro: prefix_prefix)
next
  case moved
  then show ?thesis using assms(2) by (rule outbound_inv_move)
qed

lemma outbound_reachable_inv: "outbound_reachable s \<Longrightarrow> outbound_inv s"
  by (induction rule: outbound_reachable.induct) (auto intro: outbound_inv_new outbound_inv_step)

lemma give_simps [simp]:
  "made (give i f s) = (made s)(i := made s i @ [f])"
  "waiting (give i f s) = (waiting s)(i := waiting s i @ [f])"
  "queue (give i f s) = queue s" "writing (give i f s) = writing s" "written (give i f s) = written s"
  "receiving (give i f s) = receiving s" "closing (give i f s) = closing s"
  by (simp_all add: give_def)

inductive_cases moveE: "move s s'"

lemma made_move: "move s s' \<Longrightarrow> made s' = made s"
  by (erule moveE) auto

section \<open>Draining\<close>

definition load :: "'i outbound \<Rightarrow> nat" where
  "load s = 3 * (\<Sum>i \<in> {i. waiting s i \<noteq> []}. length (waiting s i)) + 2 * length (queue s)
     + (case writing s of Some x \<Rightarrow> 1 | None \<Rightarrow> 0) + (if receiving s then 2 else if closing s then 1 else 0)"

lemma waiting_sum_less:
  assumes "finite {i. w i \<noteq> []}" "w i = f # fs"
  shows "(\<Sum>j \<in> {j. (w(i := fs)) j \<noteq> []}. length ((w(i := fs)) j)) + 1 = (\<Sum>j \<in> {j. w j \<noteq> []}. length (w j))"
proof -
  let ?W = "{j. w j \<noteq> []}" and ?w = "w(i := fs)"
  have i: "i \<in> ?W" using assms(2) by simp
  have "(\<Sum>j \<in> {j. ?w j \<noteq> []}. length (?w j)) = (\<Sum>j \<in> ?W. length (?w j))"
    by (rule sum.mono_neutral_left) (use assms in auto)
  also have "\<dots> = length fs + (\<Sum>j \<in> ?W - {i}. length (w j))"
    using sum.remove [OF assms(1) i, of "\<lambda>j. length (?w j)"] by simp
  finally show ?thesis
    using sum.remove [OF assms(1) i, of "\<lambda>j. length (w j)"] assms(2) by simp
qed

lemma load_move:
  assumes "move s s'" "finite {i. waiting s i \<noteq> []}"
  shows "load s' < load s"
  using assms(1)
proof cases
  case (enqueue i f fs)
  then show ?thesis using waiting_sum_less [OF assms(2) enqueue(2)] by (simp add: load_def)
next
  case (refuse i f fs)
  then show ?thesis using waiting_sum_less [OF assms(2) refuse(2)] by (simp add: load_def)
qed (simp_all add: load_def)

lemma load_give:
  assumes "finite {i. waiting s i \<noteq> []}" "waiting s i = []"
  shows "load (give i f s) = load s + 3"
proof -
  have undo: "((waiting s)(i := [f]))(i := []) = waiting s" using assms(2) by auto
  have "(\<Sum>j \<in> {j. waiting s j \<noteq> []}. length (waiting s j)) + 1
      = (\<Sum>j \<in> {j. ((waiting s)(i := [f])) j \<noteq> []}. length (((waiting s)(i := [f])) j))"
    using waiting_sum_less [OF finite_waiting [OF assms(1), of i "[f]"], of i f "[]"] unfolding undo by simp
  then show ?thesis unfolding load_def give_simps assms(2) append_Nil by simp
qed

definition idle :: "'i outbound \<Rightarrow> bool" where
  "idle s \<longleftrightarrow> (\<forall>i. waiting s i = []) \<and> in_transit s = [] \<and> \<not> closing s"

lemma closing_shuts: "outbound_inv s \<Longrightarrow> closing s \<Longrightarrow> \<exists>s'. move s s'"
  using move.shut by (auto simp: outbound_inv_def)

lemma move_or_idle:
  assumes "outbound_inv s"
  shows "idle s \<or> (\<exists>s'. move s s')"
proof (cases "writing s")
  case (Some x)
  then have "receiving s" using assms by (auto simp: outbound_inv_def in_transit_def)
  then show ?thesis using Some move.wrote by blast
next
  case None
  show ?thesis
  proof (cases "queue s")
    case Nil
    show ?thesis
    proof (cases "\<forall>i. waiting s i = []")
      case True
      then show ?thesis
        using None Nil closing_shuts [OF assms] by (cases "closing s") (auto simp: idle_def in_transit_def)
    next
      case False
      then obtain i f fs where "waiting s i = f # fs" by (meson neq_Nil_conv)
      moreover have "length (queue s) < outbound_buf" using Nil by (simp add: outbound_buf_def)
      ultimately have "\<exists>s'. move s s'"
        by (cases "receiving s \<or> closing s")
          (rule exI, erule (2) move.enqueue, rule exI, erule move.refuse, simp_all)
      then show ?thesis ..
    qed
  next
    case (Cons x q)
    then have "receiving s \<or> closing s" using assms by (simp add: outbound_inv_def)
    then show ?thesis using Cons None move.recv closing_shuts [OF assms] by blast
  qed
qed

interpretation draining: settling outbound_inv move idle load
  by unfold_locales (auto intro: outbound_inv_move load_move simp: move_or_idle, simp add: outbound_inv_def load_move)

section \<open>Properties\<close>

text \<open>The frames of every sender reach the socket in the order it sent them, without gaps and
  without duplicates, and the buffer never holds more than 256. As long as the socket takes frames,
  nothing is lost: what a sender has handed over is what was written, what is on its way and what
  waits, in this order.\<close>

lemma outbound_order:
  assumes "outbound_reachable s"
  shows "prefix (of_sender i (written s)) (made s i) \<and> length (queue s) \<le> 256
    \<and> (receiving s \<longrightarrow> made s i = of_sender i (written s) @ of_sender i (in_transit s) @ waiting s i)"
  using outbound_reachable_inv [OF assms] by (simp add: outbound_inv_def outbound_buf_def)

text \<open>C23: the outbound side never deadlocks and always drains. Once the senders hand over nothing
  more, only finitely many moves are possible, any state that is not idle has one, and an idle state
  is reached: no send waits, the buffer is empty, and no frame is being written. If the socket has
  taken everything by then, the frames of each sender have all been written, in the order it sent
  them.\<close>
theorem outbound_drains:
  assumes "outbound_reachable s"
  shows "(\<exists>n s'. (move ^^ n) s s' \<and> idle s')
    \<and> ((move ^^ n) s s' \<longrightarrow> n \<le> load s \<and> (idle s' \<or> (\<exists>s''. move s' s''))
         \<and> (idle s' \<and> receiving s' \<longrightarrow> (\<forall>i. of_sender i (written s') = made s' i)))"
proof -
  have inv: "outbound_inv s" using outbound_reachable_inv [OF assms] .
  have "n \<le> load s \<and> (idle s' \<or> (\<exists>s''. move s' s''))
         \<and> (idle s' \<and> receiving s' \<longrightarrow> (\<forall>i. of_sender i (written s') = made s' i))" if "(move ^^ n) s s'"
  proof -
    have "outbound_inv s'" "n \<le> load s" using draining.run_bounded [OF that inv] by auto
    then show ?thesis using move_or_idle by (auto simp: outbound_inv_def idle_def)
  qed
  then show ?thesis using draining.settles [OF inv] by blast
qed

theorem outbound_drains_witness:
  "\<exists>s'. (move ^^ 3) (give 0 ''f'' (new_outbound :: nat outbound)) s' \<and> idle s' \<and> of_sender 0 (written s') = [''f'']"
proof -
  let ?s = "give 0 ''f'' (new_outbound :: nat outbound)"
  let ?at = "\<lambda>q w ws. (new_outbound :: nat outbound)\<lparr>made := (\<lambda>_. [])(0 := [''f'']), queue := q, writing := w, written := ws\<rparr>"
  have "outbound_reachable ?s"
    using outbound_reachable.step [OF outbound_reachable.start outbound_step.hand_over] by (simp add: new_outbound_def)
  note drains = outbound_drains [OF this, THEN conjunct2]
  have "move ?s (?at [(0, ''f'')] None [])"
    using move.enqueue [of ?s 0 "''f''" "[]"] by (simp add: new_outbound_def give_def outbound_buf_def fun_upd_idem)
  moreover have "move (?at [(0, ''f'')] None []) (?at [] (Some (0, ''f'')) [])"
    using move.recv [of "?at [(0, ''f'')] None []" "(0, ''f'')" "[]"] by (simp add: new_outbound_def)
  moreover have "move (?at [] (Some (0, ''f'')) []) (?at [] None [(0, ''f'')])"
    using move.wrote [of "?at [] (Some (0, ''f'')) []" "(0, ''f'')"] by (simp add: new_outbound_def)
  ultimately have run: "(move ^^ 3) ?s (?at [] None [(0, ''f'')])"
    by (simp only: numeral_3_eq_3 relpowp.simps OO_def) blast
  moreover have "idle (?at [] None [(0, ''f'')])" by (simp add: idle_def in_transit_def new_outbound_def)
  ultimately show ?thesis
    using drains [of 3 "?at [] None [(0, ''f'')]"] by (intro exI [of _ "?at [] None [(0, ''f'')]"]) (simp add: new_outbound_def)
qed

end
