(* ===== verification/Session.thy ===== *)
theory Session
  imports Conn Outbound
begin

text \<open>
  One bridged connection of \<open>crates/outlay-shim/src/conn.rs\<close> as a concurrent system: the main loop,
  every subscription task, every publish task and the outbound channel with its writer, interleaved
  in any order. The main loop runs the definitions of \<open>Conn\<close>, the channel those of \<open>Outbound\<close>; a
  task is the small-step form of \<open>subscribe_loop\<close> and \<open>publish_once\<close>.

  A step is taken by the client, by the transport behind the shim (an answer, a chunk, the end of a
  teardown) or by the shim itself. A \<open>Notify\<close> is the documented one of \<open>tokio\<close>: \<open>notify_one\<close>
  stores a permit until the task takes it. A task that waits for its \<open>send\<close> does nothing else.
  \<open>main_log\<close>, \<open>frames_read\<close> and \<open>did\<close> record what happened; no step depends on them.
\<close>

section \<open>States\<close>

datatype sender = MainLoop | SubTask nat | PubTask nat

datatype main_phase = Reading | Awaiting | Returned

text \<open>\<open>Opening\<close> carries whether the call was made, \<open>Ending\<close> is the last \<open>send\<close> before the return.\<close>

datatype 'tok task_phase = Opening bool | Streaming 'tok | Cancelling | Ending | Ended

record 'tok sub_task =
  task_sub :: string
  task_filters :: "json list"
  phase :: "'tok task_phase"
  did :: "'tok task_effect list"

datatype pub_phase = Calling | Sending "string + json option" | Answered "string + json option"

record pub_task =
  pub_event :: json
  pub_phase :: pub_phase

record 'tok session =
  conn_state :: conn
  main_phase :: main_phase
  frames_read :: "inbound list"
  main_log :: "conn_effect list"
  permits :: "nat set"
  tasks :: "nat \<rightharpoonup> 'tok sub_task"
  publishes :: "nat \<rightharpoonup> pub_task"
  next_publish :: nat
  channel :: "sender outbound"

definition new_session :: "'tok session" where
  "new_session =
     \<lparr>conn_state = new_conn, main_phase = Reading, frames_read = [], main_log = [], permits = {},
      tasks = Map.empty, publishes = Map.empty, next_publish = 0, channel = new_outbound\<rparr>"

section \<open>Steps\<close>

text \<open>What an effect of the main loop does to the rest of the system. The loop itself writes to the
  socket only through the channel.\<close>

fun perform :: "conn_effect \<Rightarrow> 'tok session \<Rightarrow> 'tok session" where
  "perform (SpawnSubscribe n i fs) s =
     s\<lparr>tasks := (tasks s)(n \<mapsto> \<lparr>task_sub = i, task_filters = fs, phase = Opening False, did = []\<rparr>)\<rparr>"
| "perform (NotifyCancel n) s = s\<lparr>permits := insert n (permits s)\<rparr>"
| "perform (SpawnPublish e) s =
     s\<lparr>publishes := (publishes s)(next_publish s \<mapsto> \<lparr>pub_event = e, pub_phase = Calling\<rparr>),
       next_publish := Suc (next_publish s)\<rparr>"
| "perform (Enqueue f) s = s\<lparr>channel := give MainLoop f (channel s)\<rparr>"
| "perform AwaitWriter s = s\<lparr>main_phase := Awaiting\<rparr>"
| "perform (SocketSend f) s = s"
| "perform SocketClose s = s"

definition act :: "conn_effect \<Rightarrow> 'tok session \<Rightarrow> 'tok session" where
  "act e s = (perform e s)\<lparr>main_log := main_log s @ [e]\<rparr>"

definition put_task :: "nat \<Rightarrow> 'tok sub_task \<Rightarrow> 'tok session \<Rightarrow> 'tok session" where
  "put_task n t s = s\<lparr>tasks := (tasks s)(n \<mapsto> t)\<rparr>"

definition task_send :: "nat \<Rightarrow> 'tok sub_task \<Rightarrow> 'tok task_phase \<Rightarrow> string \<Rightarrow> 'tok session \<Rightarrow> 'tok session" where
  "task_send n t p f s =
     put_task n (t\<lparr>phase := p, did := did t @ [TaskSend f]\<rparr>) (s\<lparr>channel := give (SubTask n) f (channel s)\<rparr>)"

definition put_publish :: "nat \<Rightarrow> pub_task \<Rightarrow> 'tok session \<Rightarrow> 'tok session" where
  "put_publish k p s = s\<lparr>publishes := (publishes s)(k \<mapsto> p)\<rparr>"

text \<open>A failed \<open>send\<close> of a chunk ends the task; everybody else ignores the failure.\<close>

fun send_failed :: "sender \<Rightarrow> 'tok session \<Rightarrow> 'tok session" where
  "send_failed (SubTask n) s =
     (case tasks s n of
        Some t \<Rightarrow> (case phase t of Streaming tok \<Rightarrow> put_task n (t\<lparr>phase := Ended\<rparr>) s | _ \<Rightarrow> s)
      | None \<Rightarrow> s)"
| "send_failed MainLoop s = s"
| "send_failed (PubTask k) s = s"

text \<open>Every sender of the channel is dropped: the main loop's, and those of all tasks.\<close>

definition all_ended :: "'tok session \<Rightarrow> bool" where
  "all_ended s \<longleftrightarrow>
     (\<forall>n t. tasks s n = Some t \<longrightarrow> phase t = Ended)
     \<and> (\<forall>k p. publishes s k = Some p \<longrightarrow> (\<exists>a. pub_phase p = Answered a))"

datatype actor = Client | Upstream | Shim

inductive session_step ::
  "(string \<Rightarrow> json list option) \<Rightarrow> (json \<Rightarrow> string) \<Rightarrow> actor \<Rightarrow> 'tok session \<Rightarrow> 'tok session \<Rightarrow> bool"
  for from_str disp
where
  read: "main_phase s = Reading \<Longrightarrow> waiting (channel s) MainLoop = [] \<Longrightarrow>
     handle_text from_str disp (conn_state s) txt = (es, c) \<Longrightarrow>
     session_step from_str disp Client s
       ((fold act es s)\<lparr>conn_state := c, frames_read := frames_read s @ [InText txt]\<rparr>)"
| ignore: "main_phase s = Reading \<Longrightarrow> waiting (channel s) MainLoop = [] \<Longrightarrow>
     session_step from_str disp Client s (s\<lparr>frames_read := frames_read s @ [InOther]\<rparr>)"
| gone: "main_phase s = Reading \<Longrightarrow> waiting (channel s) MainLoop = [] \<Longrightarrow> f \<in> {[], [InClose], [InError]} \<Longrightarrow>
     mset ns = mset (map snd (subs (conn_state s))) \<Longrightarrow>
     session_step from_str disp Client s
       ((fold act (map NotifyCancel ns @ [AwaitWriter]) s)\<lparr>frames_read := frames_read s @ f\<rparr>)"
| call: "tasks s n = Some t \<Longrightarrow> phase t = Opening False \<Longrightarrow>
     session_step from_str disp Shim s
       (put_task n (t\<lparr>phase := Opening True,
          did := [CallTool ''subscribe'' (subscribe_args (task_sub t) (task_filters t))]\<rparr>) s)"
| opened: "tasks s n = Some t \<Longrightarrow> phase t = Opening True \<Longrightarrow>
     session_step from_str disp Upstream s (put_task n (t\<lparr>phase := Streaming tok\<rparr>) s)"
| open_failed: "tasks s n = Some t \<Longrightarrow> phase t = Opening True \<Longrightarrow> waiting (channel s) (SubTask n) = [] \<Longrightarrow>
     session_step from_str disp Upstream s (task_send n t Ending (closed_frame disp (task_sub t) e) s)"
| open_cancelled: "tasks s n = Some t \<Longrightarrow> phase t = Opening called \<Longrightarrow> n \<in> permits s \<Longrightarrow>
     session_step from_str disp Shim s (put_task n (t\<lparr>phase := Ended\<rparr>) (s\<lparr>permits := permits s - {n}\<rparr>))"
| chunk: "tasks s n = Some t \<Longrightarrow> phase t = Streaming tok \<Longrightarrow> waiting (channel s) (SubTask n) = [] \<Longrightarrow>
     session_step from_str disp Upstream s (task_send n t (Streaming tok) c s)"
| stream_error: "tasks s n = Some t \<Longrightarrow> phase t = Streaming tok \<Longrightarrow> waiting (channel s) (SubTask n) = [] \<Longrightarrow>
     session_step from_str disp Upstream s (task_send n t Ending (closed_frame disp (task_sub t) e) s)"
| stream_end: "tasks s n = Some t \<Longrightarrow> phase t = Streaming tok \<Longrightarrow> waiting (channel s) (SubTask n) = [] \<Longrightarrow>
     session_step from_str disp Upstream s (put_task n (t\<lparr>phase := Ended\<rparr>) s)"
| cancelled: "tasks s n = Some t \<Longrightarrow> phase t = Streaming tok \<Longrightarrow> waiting (channel s) (SubTask n) = [] \<Longrightarrow>
     n \<in> permits s \<Longrightarrow>
     session_step from_str disp Shim s
       (put_task n (t\<lparr>phase := Cancelling, did := did t @ [HandleCancel tok ''client closed subscription'']\<rparr>)
         (s\<lparr>permits := permits s - {n}\<rparr>))"
| torn_down: "tasks s n = Some t \<Longrightarrow> phase t = Cancelling \<Longrightarrow>
     session_step from_str disp Upstream s (put_task n (t\<lparr>phase := Ended\<rparr>) s)"
| last_sent: "tasks s n = Some t \<Longrightarrow> phase t = Ending \<Longrightarrow> waiting (channel s) (SubTask n) = [] \<Longrightarrow>
     session_step from_str disp Shim s (put_task n (t\<lparr>phase := Ended\<rparr>) s)"
| answered: "publishes s k = Some p \<Longrightarrow> pub_phase p = Calling \<Longrightarrow> waiting (channel s) (PubTask k) = [] \<Longrightarrow>
     session_step from_str disp Upstream s
       (put_publish k (p\<lparr>pub_phase := Sending a\<rparr>)
         (s\<lparr>channel := give (PubTask k) (publish_frame disp (pub_event p) a) (channel s)\<rparr>))"
| answer_sent: "publishes s k = Some p \<Longrightarrow> pub_phase p = Sending a \<Longrightarrow> waiting (channel s) (PubTask k) = [] \<Longrightarrow>
     session_step from_str disp Shim s (put_publish k (p\<lparr>pub_phase := Answered a\<rparr>) s)"
| transfer: "receiving (channel s) \<or> closing (channel s) \<Longrightarrow> move (channel s) o' \<Longrightarrow>
     session_step from_str disp Shim s (s\<lparr>channel := o'\<rparr>)"
| refused: "\<not> receiving (channel s) \<Longrightarrow> \<not> closing (channel s) \<Longrightarrow> waiting (channel s) i = f # fs \<Longrightarrow>
     session_step from_str disp Shim s
       (send_failed i s\<lparr>channel := (channel s)\<lparr>waiting := (waiting (channel s))(i := fs)\<rparr>\<rparr>)"
| writer_done: "main_phase s = Awaiting \<Longrightarrow>
     \<not> receiving (channel s) \<and> \<not> closing (channel s) \<or> (all_ended s \<and> idle (channel s)) \<Longrightarrow>
     session_step from_str disp Shim s (s\<lparr>main_phase := Returned\<rparr>)"

inductive session_reachable ::
  "(string \<Rightarrow> json list option) \<Rightarrow> (json \<Rightarrow> string) \<Rightarrow> 'tok session \<Rightarrow> bool"
  for from_str disp
where
  start: "session_reachable from_str disp new_session"
| step: "session_reachable from_str disp s \<Longrightarrow> session_step from_str disp who s s' \<Longrightarrow>
     session_reachable from_str disp s'"

section \<open>Effects of the main loop\<close>

lemma act_simps [simp]:
  "main_log (act e s) = main_log s @ [e]" "frames_read (act e s) = frames_read s"
  "conn_state (act e s) = conn_state s"
  by (cases e; simp add: act_def)+

lemma fold_act_simps [simp]:
  "main_log (fold act es s) = main_log s @ es" "frames_read (fold act es s) = frames_read s"
  "conn_state (fold act es s) = conn_state s"
  by (induction es arbitrary: s) auto

lemma act_eqs:
  "act (SpawnSubscribe n i fs) s =
     s\<lparr>tasks := (tasks s)(n \<mapsto> \<lparr>task_sub = i, task_filters = fs, phase = Opening False, did = []\<rparr>),
       main_log := main_log s @ [SpawnSubscribe n i fs]\<rparr>"
  "act (NotifyCancel n) s = s\<lparr>permits := insert n (permits s), main_log := main_log s @ [NotifyCancel n]\<rparr>"
  "act (SpawnPublish e) s =
     s\<lparr>publishes := (publishes s)(next_publish s \<mapsto> \<lparr>pub_event = e, pub_phase = Calling\<rparr>),
       next_publish := Suc (next_publish s), main_log := main_log s @ [SpawnPublish e]\<rparr>"
  "act (Enqueue f) s = s\<lparr>channel := give MainLoop f (channel s), main_log := main_log s @ [Enqueue f]\<rparr>"
  "act AwaitWriter s = s\<lparr>main_phase := Awaiting, main_log := main_log s @ [AwaitWriter]\<rparr>"
  by (simp_all add: act_def)

lemma fold_notify:
  "fold act (map NotifyCancel ns) s =
     s\<lparr>permits := set ns \<union> permits s, main_log := main_log s @ map NotifyCancel ns\<rparr>"
  by (induction ns arbitrary: s) (simp_all add: act_eqs Un_commute)

text \<open>What the loop does with one frame, as the change of the system.\<close>

lemma handle_text_effects:
  assumes "handle_text from_str disp c txt = (es, c')"
  obtains f where "es = [Enqueue f]" | e where "es = [SpawnPublish e]"
  | ns where "es = map NotifyCancel ns" "set ns \<subseteq> snd ` set (subs c)"
  | ns i fs where "es = map NotifyCancel ns @ [SpawnSubscribe (next_task c) i fs]" "set ns \<subseteq> snd ` set (subs c)"
proof -
  have cancel: "\<exists>ns. es1 = map NotifyCancel ns \<and> set ns \<subseteq> snd ` set (subs c)" if "cancel_sub c i = (es1, c1)" for i es1 c1
  proof (cases "map_of (subs c) i")
    case None
    then show ?thesis using cancel_sub_simps(5) [OF that] by simp
  next
    case (Some n)
    then have "n \<in> snd ` set (subs c)" by (force dest: map_of_SomeD)
    then show ?thesis using cancel_sub_simps(5) [OF that] Some by (intro exI [of _ "[n]"]) simp
  qed
  show ?thesis
  proof (cases "parse_client_frame from_str txt")
    case None
    then show ?thesis using assms that(1) by (auto simp: handle_text_def)
  next
    case (Some m)
    show ?thesis
    proof (cases m)
      case (Req i fs)
      obtain es1 c1 where c: "cancel_sub c i = (es1, c1)" by fastforce
      then have "es = es1 @ [SpawnSubscribe (next_task c) i fs]"
        using assms Some Req cancel_sub_simps(1) [OF c] by (auto simp: handle_text_def Let_def)
      then show ?thesis using cancel [OF c] that(4) by blast
    next
      case (Close i)
      then have "cancel_sub c i = (es, c')" using assms Some by (simp add: handle_text_def)
      then show ?thesis using cancel that(3) by blast
    next
      case (ClientPublish e)
      then show ?thesis using assms Some that(2) by (auto simp: handle_text_def)
    qed
  qed
qed

lemma spawned_tasks_notifies [simp]: "spawned_tasks (map NotifyCancel ns) = []"
  by (induction ns) auto

section \<open>Invariants\<close>

text \<open>The channel.\<close>

lemma put_simps [simp]:
  "channel (put_task n t s) = channel s" "channel (put_publish k p s) = channel s"
  "channel (task_send n t ph f s) = give (SubTask n) f (channel s)"
  "channel (send_failed i s) = channel s"
  "tasks (put_task n t s) = (tasks s)(n \<mapsto> t)" "tasks (put_publish k p s) = tasks s"
  "tasks (task_send n t ph f s) = (tasks s)(n \<mapsto> t\<lparr>phase := ph, did := did t @ [TaskSend f]\<rparr>)"
  "publishes (put_task n t s) = publishes s" "publishes (put_publish k p s) = (publishes s)(k \<mapsto> p)"
  "publishes (task_send n t ph f s) = publishes s" "publishes (send_failed i s) = publishes s"
  "permits (put_task n t s) = permits s" "permits (put_publish k p s) = permits s"
  "permits (task_send n t ph f s) = permits s" "permits (send_failed i s) = permits s"
  "main_log (put_task n t s) = main_log s" "main_log (put_publish k p s) = main_log s"
  "main_log (task_send n t ph f s) = main_log s" "main_log (send_failed i s) = main_log s"
  "main_phase (put_task n t s) = main_phase s" "main_phase (put_publish k p s) = main_phase s"
  "main_phase (task_send n t ph f s) = main_phase s" "main_phase (send_failed i s) = main_phase s"
  "next_publish (put_task n t s) = next_publish s" "next_publish (put_publish k p s) = next_publish s"
  "next_publish (task_send n t ph f s) = next_publish s" "next_publish (send_failed i s) = next_publish s"
  "frames_read (put_task n t s) = frames_read s" "frames_read (put_publish k p s) = frames_read s"
  "frames_read (task_send n t ph f s) = frames_read s" "frames_read (send_failed i s) = frames_read s"
  "conn_state (put_task n t s) = conn_state s" "conn_state (put_publish k p s) = conn_state s"
  "conn_state (task_send n t ph f s) = conn_state s" "conn_state (send_failed i s) = conn_state s"
  by (cases i; simp add: put_task_def put_publish_def task_send_def split: option.split task_phase.split)+

lemma channel_handle_text:
  assumes "handle_text from_str disp c txt = (es, c')"
  shows "channel (fold act es s) = channel s \<or> (\<exists>f. channel (fold act es s) = give MainLoop f (channel s))"
  using assms by (rule handle_text_effects) (auto simp: act_eqs fold_notify)

lemma channel_reachable_step:
  assumes "session_step from_str disp who s s'" "outbound_reachable (channel s)"
  shows "outbound_reachable (channel s')"
  using assms
proof cases
  case (read line es c)
  then show ?thesis
    using channel_handle_text [OF read(5), of s] assms(2) outbound_reachable.step outbound_step.hand_over
    by (metis session.update_convs(1,3) session.surjective session.select_convs)
qed (auto simp: act_eqs fold_notify intro: outbound_reachable.step outbound_step.intros move.refuse)

text \<open>The main loop does what \<open>Conn\<close> says: what it did so far belongs to the frames read so far.\<close>

fun goes_on :: "inbound \<Rightarrow> bool" where
  "goes_on (InText t) \<longleftrightarrow> True"
| "goes_on InOther \<longleftrightarrow> True"
| "goes_on InClose \<longleftrightarrow> False"
| "goes_on InError \<longleftrightarrow> False"

lemma read_frames_append:
  "list_all goes_on fs \<Longrightarrow> read_frames from_str disp s (fs @ gs) =
     (let (es, s1) = read_frames from_str disp s fs; (es', s2) = read_frames from_str disp s1 gs in (es @ es', s2))"
  by (induction from_str disp s fs rule: read_frames.induct) (auto split: prod.split)

definition loop_inv :: "(string \<Rightarrow> json list option) \<Rightarrow> (json \<Rightarrow> string) \<Rightarrow> 'tok session \<Rightarrow> bool" where
  "loop_inv from_str disp s \<longleftrightarrow>
     (if main_phase s = Reading
      then list_all goes_on (frames_read s)
        \<and> read_frames from_str disp new_conn (frames_read s) = (main_log s, conn_state s)
      else \<exists>order. (\<forall>xs. mset (order xs) = mset xs) \<and> main_log s = run_session from_str disp order (frames_read s))"

lemma loop_inv_end:
  assumes "list_all goes_on fs" "read_frames from_str disp new_conn fs = (es, c)" "f \<in> {[], [InClose], [InError]}"
    "mset ns = mset (map snd (subs c))"
  shows "\<exists>order. (\<forall>xs. mset (order xs) = mset xs)
    \<and> es @ map NotifyCancel ns @ [AwaitWriter] = run_session from_str disp order (fs @ f)"
proof -
  have "read_frames from_str disp new_conn (fs @ f) = (es, c)"
    using assms(1-3) by (auto simp: read_frames_append)
  then show ?thesis
    using assms(4)
    by (intro exI [of _ "\<lambda>xs. if xs = map snd (subs c) then ns else xs"]) (simp add: run_session_def)
qed

lemma loop_inv_step:
  assumes "session_step from_str disp who s s'" "loop_inv from_str disp s"
  shows "loop_inv from_str disp s'"
  using assms(1)
proof cases
  case (read line es c)
  have "main_phase (fold act es s) = Reading"
    using read(5,3) by (rule_tac handle_text_effects) (auto simp: act_eqs fold_notify)
  then show ?thesis
    using assms(2) read by (simp add: loop_inv_def read_frames_append)
next
  case ignore
  then show ?thesis using assms(2) by (simp add: loop_inv_def read_frames_append)
next
  case (gone f ns)
  then have "list_all goes_on (frames_read s)" "read_frames from_str disp new_conn (frames_read s) = (main_log s, conn_state s)"
    using assms(2) by (simp_all add: loop_inv_def)
  from loop_inv_end [OF this gone(5,6)] show ?thesis
    by (simp add: loop_inv_def gone(2) act_eqs fold_notify)
next
  case (refused i f fs)
  then show ?thesis using assms(2) by (simp add: loop_inv_def)
qed (use assms(2) in \<open>auto simp: loop_inv_def\<close>)

text \<open>The next number is free.\<close>

lemma fresh_task:
  assumes "loop_inv from_str disp s" "main_phase s = Reading"
  shows "next_task (conn_state s) \<notin> fst ` set (spawned_tasks (main_log s))"
    "NotifyCancel (next_task (conn_state s)) \<notin> set (main_log s)"
proof -
  have r: "read_frames from_str disp new_conn (frames_read s) = (main_log s, conn_state s)"
    using assms by (simp add: loop_inv_def)
  have "balanced n new_conn (main_log s) (conn_state s)" for n
    using read_frames_balanced [OF conn_ok_new r] by blast
  then show "next_task (conn_state s) \<notin> fst ` set (spawned_tasks (main_log s))"
    by (simp add: spawned_tasks_spawned balanced_def)
  have "tracks (main_log s) (conn_state s) (fold wants (messages from_str (frames_read s)) Map.empty)"
    using tracks_frames [OF tracks_new r] by simp
  then show "NotifyCancel (next_task (conn_state s)) \<notin> set (main_log s)"
    by (auto simp: tracks_def)
qed

text \<open>The subscription tasks: each is at some point of a run of \<open>subscribe_loop\<close>, and has handed exactly
  the frames of that run to the channel.\<close>

definition script_done :: "'tok stream_setup \<Rightarrow> stream_event list \<Rightarrow> bool" where
  "script_done opened evs \<longleftrightarrow>
     (case opened of
        SetupOk tok \<Rightarrow> (\<exists>es e. evs = es @ [e] \<and> list_all (\<lambda>e. \<not> ends_task e) es \<and> ends_task e)
      | _ \<Rightarrow> True)"

definition task_run :: "(json \<Rightarrow> string) \<Rightarrow> 'tok sub_task \<Rightarrow> bool" where
  "task_run disp t \<longleftrightarrow>
     (case phase t of
        Opening called \<Rightarrow> did t = subscribe_loop disp (task_sub t) (task_filters t) (SetupCancelled called) []
      | Streaming tok \<Rightarrow>
          (\<exists>cs. did t = subscribe_loop disp (task_sub t) (task_filters t) (SetupOk tok) (map (\<lambda>c. StreamChunk c True) cs))
      | _ \<Rightarrow> (\<exists>opened evs. did t = subscribe_loop disp (task_sub t) (task_filters t) opened evs \<and> script_done opened evs))"

lemma subscribe_loop_chunks:
  "subscribe_loop disp i fs (SetupOk tok) (map (\<lambda>c. StreamChunk c True) cs @ evs) =
     CallTool ''subscribe'' (subscribe_args i fs) # map TaskSend cs @ pump disp i tok evs"
  by (induction cs) (auto simp: subscribe_loop_def)

lemmas subscribe_loop_chunks_only = subscribe_loop_chunks [where evs = "[]", simplified]

lemma task_runD:
  assumes "task_run disp t"
  shows "phase t = Opening called \<Longrightarrow>
      did t = (if called then [CallTool ''subscribe'' (subscribe_args (task_sub t) (task_filters t))] else [])"
    and "phase t = Streaming tok \<Longrightarrow>
      \<exists>cs. did t = CallTool ''subscribe'' (subscribe_args (task_sub t) (task_filters t)) # map TaskSend cs"
  using assms by (auto simp: task_run_def subscribe_loop_chunks_only) (auto simp: subscribe_loop_def)

lemma task_run_streaming:
  "phase t = Streaming tok \<Longrightarrow> task_run disp t \<longleftrightarrow>
     (\<exists>cs. did t = CallTool ''subscribe'' (subscribe_args (task_sub t) (task_filters t)) # map TaskSend cs)"
  by (simp add: task_run_def subscribe_loop_chunks_only)

lemma task_run_done:
  assumes "phase t \<in> {Cancelling, Ending, Ended}"
    "did t = subscribe_loop disp (task_sub t) (task_filters t) opened evs" "script_done opened evs"
  shows "task_run disp t"
proof -
  have "\<exists>opened evs. did t = subscribe_loop disp (task_sub t) (task_filters t) opened evs \<and> script_done opened evs"
    using assms(2,3) by blast
  then show ?thesis using assms(1) unfolding task_run_def by (elim insertE emptyE) simp_all
qed

lemma task_run_script:
  assumes "task_run disp t"
  shows "\<exists>opened evs. did t = subscribe_loop disp (task_sub t) (task_filters t) opened evs
    \<and> (phase t = Ended \<longrightarrow> script_done opened evs)"
proof (cases "phase t")
  case (Opening called)
  then have "did t = subscribe_loop disp (task_sub t) (task_filters t) (SetupCancelled called) []"
    using assms by (simp add: task_run_def)
  then show ?thesis using Opening by (intro exI conjI) simp_all
next
  case (Streaming tok)
  then obtain cs where "did t = subscribe_loop disp (task_sub t) (task_filters t) (SetupOk tok) (map (\<lambda>c. StreamChunk c True) cs)"
    using assms by (auto simp: task_run_def)
  then show ?thesis using Streaming by (intro exI conjI) simp_all
qed (use assms in \<open>simp_all add: task_run_def, blast+\<close>)

text \<open>What a streaming task does last.\<close>

lemma task_run_last:
  assumes "task_run disp t" "phase t = Streaming tok" "ends_task e" "ph \<in> {Cancelling, Ending, Ended}"
  shows "task_run disp (t\<lparr>phase := ph, did := did t @ event_effects disp (task_sub t) tok e\<rparr>)"
proof -
  obtain cs where "did t = CallTool ''subscribe'' (subscribe_args (task_sub t) (task_filters t)) # map TaskSend cs"
    using task_runD(2) [OF assms(1,2)] by blast
  then show ?thesis
    using assms(3,4)
    by (intro task_run_done [of _ disp "SetupOk tok" "map (\<lambda>c. StreamChunk c True) cs @ [e]"])
      (auto simp: subscribe_loop_chunks pump_ends script_done_def list_all_iff)
qed

lemma task_run_refused:
  assumes "task_run disp t" "phase t = Streaming tok" "task_sends (did t) \<noteq> []"
  shows "task_run disp (t\<lparr>phase := Ended\<rparr>)"
proof -
  obtain cs where cs: "did t = CallTool ''subscribe'' (subscribe_args (task_sub t) (task_filters t)) # map TaskSend cs"
    using task_runD(2) [OF assms(1,2)] by blast
  then have "cs \<noteq> []" using assms(3) by auto
  then obtain ds d where "cs = ds @ [d]" by (metis rev_exhaust)
  then show ?thesis
    using cs
    by (intro task_run_done [of _ disp "SetupOk tok" "map (\<lambda>c. StreamChunk c True) ds @ [StreamChunk d False]"])
      (auto simp: subscribe_loop_chunks script_done_def list_all_iff)
qed

lemma task_run_opening:
  assumes "task_run disp t" "phase t = Opening called"
  shows "task_run disp (t\<lparr>phase := Ended\<rparr>)"
    and "called \<Longrightarrow> task_run disp (t\<lparr>phase := Streaming tok\<rparr>)"
    and "called \<Longrightarrow> task_run disp (t\<lparr>phase := Ending, did := did t @ [TaskSend (closed_frame disp (task_sub t) e)]\<rparr>)"
proof -
  note d = task_runD(1) [OF assms]
  show "task_run disp (t\<lparr>phase := Ended\<rparr>)"
    using d by (intro task_run_done [of _ disp "SetupCancelled called" "[]"]) (auto simp: subscribe_loop_def script_done_def)
  show "task_run disp (t\<lparr>phase := Streaming tok\<rparr>)" if called
    using d that by (simp add: task_run_streaming)
  show "task_run disp (t\<lparr>phase := Ending, did := did t @ [TaskSend (closed_frame disp (task_sub t) e)]\<rparr>)" if called
    using d that by (intro task_run_done [of _ disp "SetupFailed e" "[]"]) (auto simp: subscribe_loop_def script_done_def)
qed

definition task_inv :: "(json \<Rightarrow> string) \<Rightarrow> 'tok session \<Rightarrow> nat \<Rightarrow> bool" where
  "task_inv disp s n \<longleftrightarrow>
     (case tasks s n of
        None \<Rightarrow> made (channel s) (SubTask n) = [] \<and> n \<notin> fst ` set (spawned_tasks (main_log s))
      | Some t \<Rightarrow>
          task_run disp t \<and> made (channel s) (SubTask n) = task_sends (did t)
          \<and> (n, task_sub t, task_filters t) \<in> set (spawned_tasks (main_log s))
          \<and> (NotifyCancel n \<in> set (main_log s) \<longrightarrow> n \<in> permits s \<or> phase t \<in> {Cancelling, Ended}))
     \<and> (n \<in> permits s \<longrightarrow> NotifyCancel n \<in> set (main_log s))"

lemma task_run_new: "task_run disp \<lparr>task_sub = i, task_filters = fs, phase = Opening False, did = []\<rparr>"
  by (simp add: task_run_def subscribe_loop_def)

lemma task_inv_frame:
  "task_inv disp (s\<lparr>conn_state := c\<rparr>) n \<longleftrightarrow> task_inv disp s n"
  "task_inv disp (s\<lparr>frames_read := fr\<rparr>) n \<longleftrightarrow> task_inv disp s n"
  by (cases "tasks s n"; simp add: task_inv_def)+

lemma task_inv_text:
  assumes "\<forall>n. task_inv disp s n" "loop_inv from_str disp s" "main_phase s = Reading"
    "handle_text from_str disp (conn_state s) line = (es, c)"
  shows "task_inv disp (fold act es s) n"
  using assms(4)
proof (rule handle_text_effects)
  fix ns i fs assume es: "es = map NotifyCancel ns @ [SpawnSubscribe (next_task (conn_state s)) i fs]"
    "set ns \<subseteq> snd ` set (subs (conn_state s))"
  have "read_frames from_str disp new_conn (frames_read s) = (main_log s, conn_state s)"
    using assms(2,3) by (simp add: loop_inv_def)
  then have "conn_ok (conn_state s)" using read_frames_balanced conn_ok_new by blast
  then have "n < next_task (conn_state s)" if "n \<in> snd ` set (subs (conn_state s))" for n
    using that by (auto simp: conn_ok_def)
  then have "next_task (conn_state s) \<notin> set ns" using es(2) by blast
  moreover have "tasks s (next_task (conn_state s)) = None"
    using assms(1) fresh_task(1) [OF assms(2,3)] by (force simp: task_inv_def split: option.splits)
  ultimately show ?thesis
    using assms(1) [rule_format, of n] fresh_task [OF assms(2,3)] unfolding es(1)
    by (auto simp: task_inv_def act_eqs fold_notify task_run_new split: option.splits)
qed (use assms(1) [rule_format, of n] in \<open>auto simp: task_inv_def act_eqs fold_notify split: option.splits\<close>)

lemma task_inv_step:
  assumes "session_step from_str disp who s s'" "loop_inv from_str disp s" "outbound_reachable (channel s)"
    "\<forall>n. task_inv disp s n"
  shows "task_inv disp s' m"
proof -
  note inv = assms(4) [rule_format, of m]
  show ?thesis
    using assms(1)
  proof cases
    case (read line es c)
    then show ?thesis using task_inv_text [OF assms(4,2) read(3,5)] by (simp only: read(2) task_inv_frame)
  next
    case (gone f ns)
    then show ?thesis using inv by (auto simp: task_inv_def act_eqs fold_notify split: option.splits)
  next
    case ignore
    then show ?thesis using inv by (simp only: task_inv_frame)
  next
    case (transfer o')
    then show ?thesis using inv by (cases "tasks s m") (simp_all add: task_inv_def made_move)
  next
    case (refused i f fs)
    have "made (channel s) i \<noteq> []"
      using outbound_reachable_inv [OF assms(3)] refused(5) by (auto simp: outbound_inv_def)
    then show ?thesis
      using inv refused
      by (cases i) (auto simp: task_inv_def task_run_refused put_task_def split: option.splits task_phase.splits)
  next
    case (open_failed n t e)
    then show ?thesis using inv task_run_opening(3) [of disp t True] by (auto simp: task_inv_def split: option.splits)
  next
    case (opened n t tok)
    then show ?thesis using inv task_run_opening(2) [of disp t True] by (auto simp: task_inv_def split: option.splits)
  next
    case (open_cancelled n t called)
    then show ?thesis using inv task_run_opening(1) [of disp t called] by (auto simp: task_inv_def split: option.splits)
  next
    case (stream_error n t tok e)
    then show ?thesis
      using inv task_run_last [of disp t tok "StreamError e" Ending] by (auto simp: task_inv_def split: option.splits)
  next
    case (stream_end n t tok)
    then show ?thesis
      using inv task_run_last [of disp t tok StreamEnd Ended] by (auto simp: task_inv_def split: option.splits)
  next
    case (cancelled n t tok)
    then show ?thesis
      using inv task_run_last [of disp t tok CancelSignal Cancelling] by (auto simp: task_inv_def split: option.splits)
  next
    case (call n t)
    then show ?thesis
      using inv by (auto simp: task_inv_def task_run_def subscribe_loop_def split: option.splits)
  next
    case (chunk n t tok c)
    have "task_run disp (t\<lparr>phase := Streaming tok, did := did t @ [TaskSend c]\<rparr>)" if run: "task_run disp t"
    proof -
      obtain cs where "did t = CallTool ''subscribe'' (subscribe_args (task_sub t) (task_filters t)) # map TaskSend cs"
        using task_runD(2) [OF run chunk(4)] by blast
      then show ?thesis by (simp add: task_run_streaming) (intro exI [of _ "cs @ [c]"], simp)
    qed
    then show ?thesis using chunk inv by (auto simp: task_inv_def split: option.splits)
  next
    case (torn_down n t)
    then show ?thesis using inv by (auto simp: task_inv_def task_run_def split: option.splits)
  next
    case (last_sent n t)
    then show ?thesis using inv by (auto simp: task_inv_def task_run_def split: option.splits)
  qed (use inv in \<open>auto simp: task_inv_def split: option.splits\<close>)
qed

text \<open>The publish tasks: one for each event, in order, and each hands over its one OK frame when the
  answer is there. The main loop hands over its notices.\<close>

fun published_events :: "conn_effect list \<Rightarrow> json list" where
  "published_events [] = []"
| "published_events (SpawnPublish e # es) = e # published_events es"
| "published_events (_ # es) = published_events es"

fun enqueued :: "conn_effect list \<Rightarrow> string list" where
  "enqueued [] = []"
| "enqueued (Enqueue f # es) = f # enqueued es"
| "enqueued (_ # es) = enqueued es"

lemma published_events_append [simp]: "published_events (es @ es') = published_events es @ published_events es'"
  by (induction es rule: published_events.induct) auto

lemma enqueued_append [simp]: "enqueued (es @ es') = enqueued es @ enqueued es'"
  by (induction es rule: enqueued.induct) auto

lemma notifies_simps [simp]:
  "published_events (map NotifyCancel ns) = []" "enqueued (map NotifyCancel ns) = []"
  by (induction ns) auto

definition pub_frames :: "(json \<Rightarrow> string) \<Rightarrow> pub_task \<Rightarrow> string list" where
  "pub_frames disp p =
     (case pub_phase p of
        Calling \<Rightarrow> []
      | Sending a \<Rightarrow> [publish_frame disp (pub_event p) a]
      | Answered a \<Rightarrow> [publish_frame disp (pub_event p) a])"

definition pub_inv :: "(json \<Rightarrow> string) \<Rightarrow> 'tok session \<Rightarrow> nat \<Rightarrow> bool" where
  "pub_inv disp s k \<longleftrightarrow>
     made (channel s) (PubTask k) = (case publishes s k of None \<Rightarrow> [] | Some p \<Rightarrow> pub_frames disp p)
     \<and> map_option pub_event (publishes s k) =
         (if k < next_publish s then Some (published_events (main_log s) ! k) else None)"

definition counters_inv :: "'tok session \<Rightarrow> bool" where
  "counters_inv s \<longleftrightarrow>
     next_publish s = length (published_events (main_log s))
     \<and> made (channel s) MainLoop = enqueued (main_log s)"

lemma counters_inv_step:
  assumes "session_step from_str disp who s s'" "counters_inv s"
  shows "counters_inv s'"
  using assms(1)
proof cases
  case (read line es c)
  show ?thesis
    using read(5) by (rule handle_text_effects) (use assms(2) read(2) in \<open>auto simp: counters_inv_def act_eqs fold_notify\<close>)
next
  case (refused i f fs)
  then show ?thesis using assms(2) by (simp add: counters_inv_def)
qed (use assms(2) in \<open>auto simp: counters_inv_def act_eqs fold_notify made_move\<close>)

lemma pub_inv_step:
  assumes "session_step from_str disp who s s'" "counters_inv s" "\<forall>k. pub_inv disp s k"
  shows "pub_inv disp s' k"
proof -
  note inv = assms(3) [rule_format, of k]
  have n: "next_publish s = length (published_events (main_log s))" using assms(2) by (simp add: counters_inv_def)
  show ?thesis
    using assms(1)
  proof cases
    case (read line es c)
    show ?thesis
      using read(5)
      by (rule handle_text_effects)
        (use inv n read(2) in \<open>auto simp: pub_inv_def act_eqs fold_notify pub_frames_def nth_append\<close>)
  next
    case (refused i f fs)
    then show ?thesis using inv by (simp add: pub_inv_def)
  next
    case (answered k' p a)
    then show ?thesis using inv by (auto simp: pub_inv_def pub_frames_def split: if_splits)
  next
    case (answer_sent k' p a)
    then show ?thesis using inv by (auto simp: pub_inv_def pub_frames_def split: if_splits)
  qed (use inv in \<open>auto simp: pub_inv_def act_eqs fold_notify made_move\<close>)
qed

text \<open>While the socket takes frames, the end of the writer is the end of everything.\<close>

definition end_inv :: "'tok session \<Rightarrow> bool" where
  "end_inv s \<longleftrightarrow> (main_phase s = Returned \<and> receiving (channel s) \<longrightarrow> all_ended s \<and> idle (channel s))"

lemma idle_no_move: "idle s \<Longrightarrow> \<not> move s s'"
  by (auto simp: idle_def in_transit_def elim!: moveE)

lemma end_inv_step:
  assumes "session_step from_str disp who s s'" "end_inv s"
  shows "end_inv s'"
  using assms(1)
proof cases
  case (read line es c)
  show ?thesis
    using read(5) by (rule handle_text_effects) (use read(2,3) in \<open>auto simp: end_inv_def act_eqs fold_notify\<close>)
next
  case (transfer o')
  show ?thesis
  proof (cases "main_phase s = Returned")
    case True
    show ?thesis
    proof (cases "receiving (channel s)")
      case receives: True
      then have "idle (channel s)" using assms(2) True by (simp add: end_inv_def)
      then show ?thesis using idle_no_move transfer(4) by blast
    next
      case False
      then have "\<not> receiving o'" using transfer(4) by (auto elim: moveE)
      then show ?thesis using transfer(2) by (simp add: end_inv_def)
    qed
  next
    case False
    then show ?thesis using transfer(2) by (simp add: end_inv_def)
  qed
next
  case (answered k p a)
  then have "\<not> all_ended s" by (fastforce simp: all_ended_def)
  then show ?thesis using assms(2) answered(2) by (auto simp: end_inv_def)
qed (use assms(2) in \<open>auto simp: end_inv_def act_eqs fold_notify all_ended_def\<close>)

section \<open>Reachable states\<close>

definition session_inv :: "(string \<Rightarrow> json list option) \<Rightarrow> (json \<Rightarrow> string) \<Rightarrow> 'tok session \<Rightarrow> bool" where
  "session_inv from_str disp s \<longleftrightarrow>
     outbound_reachable (channel s) \<and> loop_inv from_str disp s \<and> (\<forall>n. task_inv disp s n)
     \<and> counters_inv s \<and> (\<forall>k. pub_inv disp s k) \<and> end_inv s"

lemma session_inv_new: "session_inv from_str disp new_session"
  by (simp add: session_inv_def new_session_def outbound_reachable.start loop_inv_def task_inv_def counters_inv_def
      pub_inv_def end_inv_def) (simp add: new_outbound_def)

lemma session_inv_step:
  "session_step from_str disp who s s' \<Longrightarrow> session_inv from_str disp s \<Longrightarrow> session_inv from_str disp s'"
  unfolding session_inv_def
  by (intro conjI allI; elim conjE)
    (erule (1) channel_reachable_step loop_inv_step counters_inv_step end_inv_step | erule (3) task_inv_step
      | erule (2) pub_inv_step)+

lemma session_reachable_inv: "session_reachable from_str disp s \<Longrightarrow> session_inv from_str disp s"
  by (induction rule: session_reachable.induct) (auto intro: session_inv_new session_inv_step)

lemma session_task:
  assumes "session_reachable from_str disp s" "tasks s n = Some t"
  shows "task_run disp t" "made (channel s) (SubTask n) = task_sends (did t)"
    "(n, task_sub t, task_filters t) \<in> set (spawned_tasks (main_log s))"
    "NotifyCancel n \<in> set (main_log s) \<Longrightarrow> n \<in> permits s \<or> phase t \<in> {Cancelling, Ended}"
  using session_reachable_inv [OF assms(1)] assms(2)
  by (auto simp: session_inv_def task_inv_def dest!: spec [of _ n])

lemma session_main:
  assumes "session_reachable from_str disp s"
  shows "main_phase s = Reading \<Longrightarrow>
      read_frames from_str disp new_conn (frames_read s) = (main_log s, conn_state s)"
    and "main_phase s \<noteq> Reading \<Longrightarrow>
      \<exists>order. (\<forall>xs. mset (order xs) = mset xs) \<and> main_log s = run_session from_str disp order (frames_read s)"
  using session_reachable_inv [OF assms] by (auto simp: session_inv_def loop_inv_def)

lemma session_spawned:
  assumes "session_reachable from_str disp s" "(n, i, fs) \<in> set (spawned_tasks (main_log s))"
  shows "\<exists>t. tasks s n = Some t"
  using session_reachable_inv [OF assms(1)] assms(2)
  by (force simp: session_inv_def task_inv_def dest!: spec [of _ n] split: option.splits)

text \<open>The number of the next task is not in use.\<close>

lemma task_new:
  assumes "session_reachable from_str disp s" "main_phase s = Reading"
  shows "tasks s (next_task (conn_state s)) = None"
proof (rule ccontr)
  assume "tasks s (next_task (conn_state s)) \<noteq> None"
  then obtain t where "tasks s (next_task (conn_state s)) = Some t" by blast
  then have "next_task (conn_state s) \<in> fst ` set (spawned_tasks (main_log s))"
    using session_task(3) [OF assms(1)] by force
  moreover have "loop_inv from_str disp s"
    using session_reachable_inv [OF assms(1)] by (simp add: session_inv_def)
  ultimately show False using fresh_task(1) assms(2) by blast
qed

text \<open>What the main loop spawned and queued, by the messages it read.\<close>

definition asked_events :: "client_msg option list \<Rightarrow> json list" where
  "asked_events ms = List.map_filter (\<lambda>m. case m of Some (ClientPublish e) \<Rightarrow> Some e | _ \<Rightarrow> None) ms"

lemma published_reactions: "published_events (reactions es) = published_events es"
  by (induction es rule: reactions.induct) auto

lemma enqueued_reactions: "enqueued (reactions es) = enqueued es"
  by (induction es rule: reactions.induct) auto

lemma reactions_asked:
  "published_events (concat (map (reaction disp) ms)) = asked_events ms"
  "enqueued (concat (map (reaction disp) ms)) =
     replicate (count_list ms None) (notice_frame disp ''unrecognized frame'')"
proof (induction ms)
  case (Cons m ms)
  {
    case 1
    show ?case using Cons by (cases "(disp, m)" rule: reaction.cases) (auto simp: asked_events_def List.map_filter_simps)
  next
    case 2
    show ?case using Cons by (cases "(disp, m)" rule: reaction.cases) auto
  }
qed (simp_all add: asked_events_def List.map_filter_simps)

lemma session_answers:
  assumes "session_reachable from_str disp s"
  shows "published_events (main_log s) = asked_events (messages from_str (frames_read s))"
    and "enqueued (main_log s) =
      replicate (count_list (messages from_str (frames_read s)) None) (notice_frame disp ''unrecognized frame'')"
proof -
  obtain es c rest where r: "read_frames from_str disp new_conn (frames_read s) = (es, c)"
    and "main_log s = es @ rest" "published_events rest = []" "enqueued rest = []"
  proof (cases "main_phase s = Reading")
    case True
    then show ?thesis using session_main(1) [OF assms] that [of "main_log s" "conn_state s" "[]"] by simp
  next
    case False
    then obtain order where "main_log s = run_session from_str disp order (frames_read s)"
      using session_main(2) [OF assms] by blast
    then show ?thesis using that by (auto simp: run_session_def split: prod.splits)
  qed
  then show "published_events (main_log s) = asked_events (messages from_str (frames_read s))"
    "enqueued (main_log s) =
      replicate (count_list (messages from_str (frames_read s)) None) (notice_frame disp ''unrecognized frame'')"
    using published_reactions [of es] enqueued_reactions [of es] reactions_frames [OF r]
    by (simp_all add: reactions_asked)
qed

lemma live_tasks_iff:
  "(n, i, fs) \<in> set (live_tasks tr) \<longleftrightarrow> (n, i, fs) \<in> set (spawned_tasks tr) \<and> NotifyCancel n \<notin> set tr"
  by (auto simp: live_tasks_def)

text \<open>A task that runs and was not told to stop.\<close>

lemma session_wanted:
  assumes "session_reachable from_str disp s" "tasks s n = Some t" "phase t \<notin> {Cancelling, Ended}" "n \<notin> permits s"
  shows "main_phase s = Reading \<and> (task_sub t, n) \<in> set (subs (conn_state s))
       \<and> fold wants (messages from_str (frames_read s)) Map.empty (task_sub t) = Some (task_filters t)"
proof -
  have sp: "(n, task_sub t, task_filters t) \<in> set (spawned_tasks (main_log s))" by (rule session_task(3) [OF assms(1,2)])
  have nn: "NotifyCancel n \<notin> set (main_log s)" using session_task(4) [OF assms(1,2)] assms(3,4) by blast
  have reading: "main_phase s = Reading"
  proof (rule ccontr)
    assume "main_phase s \<noteq> Reading"
    then obtain order where "\<And>xs. mset (order xs) = mset xs"
      and log: "main_log s = run_session from_str disp order (frames_read s)"
      using session_main(2) [OF assms(1)] by blast
    then have "notified n (main_log s) = spawned n (main_log s)" using run_session_cancels by fastforce
    moreover have "0 < spawned n (main_log s)" using sp spawned_tasks_spawned by force
    ultimately show False using nn by (simp add: notified_def count_list_0_iff)
  qed
  have "tracks (main_log s) (conn_state s) (fold wants (messages from_str (frames_read s)) Map.empty)"
    using tracks_frames [OF tracks_new session_main(1) [OF assms(1) reading]] by simp
  then show ?thesis using tracks_mem sp nn reading live_tasks_iff by blast
qed

text \<open>A task that cancels its stream, or has done so, was told to stop.\<close>

definition cancels :: "'tok sub_task \<Rightarrow> bool" where
  "cancels t \<longleftrightarrow> phase t = Cancelling \<or> (\<exists>tok r. HandleCancel tok r \<in> set (did t))"

definition told :: "'tok session \<Rightarrow> bool" where
  "told s \<longleftrightarrow> (\<forall>n t. tasks s n = Some t \<and> cancels t \<longrightarrow> NotifyCancel n \<in> set (main_log s))"

lemma told_text:
  assumes "handle_text from_str disp c txt = (es, c')" "told s"
  shows "told (fold act es s)"
  using assms(1) by (rule handle_text_effects) (use assms(2) in \<open>auto simp: told_def act_eqs fold_notify cancels_def\<close>)

lemma told_step:
  assumes "session_step from_str disp who s s'" "session_inv from_str disp s" "told s"
  shows "told s'"
proof -
  have permit: "n \<in> permits s \<Longrightarrow> NotifyCancel n \<in> set (main_log s)" for n
    using assms(2) by (simp add: session_inv_def task_inv_def)
  have put: "told (put_task n t' r)"
    if "tasks s n = Some t" "cancels t' \<Longrightarrow> cancels t \<or> n \<in> permits s" "tasks r = tasks s" "main_log r = main_log s" for n t t' r
    using assms(3) that permit by (auto simp: told_def)
  have send: "told (task_send n t p f s)" if "tasks s n = Some t" "p \<noteq> Cancelling" for n t p f
    unfolding task_send_def using that by (intro put [of n t]) (auto simp: cancels_def)
  show ?thesis
    using assms(1)
  proof cases
    case (read line es c)
    then show ?thesis using told_text [OF read(5) assms(3)] by (simp add: told_def)
  next
    case (refused i f fs)
    have "told (send_failed i s)"
      using assms(3) by (cases i) (auto simp: told_def cancels_def split: option.splits task_phase.splits)
    then show ?thesis using refused(2) by (simp add: told_def)
  next
    case (cancelled n t tok)
    then show ?thesis by (simp add: put)
  qed (use assms(3) in \<open>auto simp: act_eqs fold_notify told_def cancels_def intro!: put send\<close>)
qed

lemma session_told:
  assumes "session_reachable from_str disp s" "tasks s n = Some t" "cancels t"
  shows "NotifyCancel n \<in> set (main_log s)"
proof -
  have "told s"
    using assms(1)
  proof induction
    case start
    show ?case by (simp add: told_def new_session_def)
  next
    case (step s who s')
    then show ?case using told_step session_reachable_inv by blast
  qed
  then show ?thesis using assms(2,3) by (simp add: told_def)
qed

section \<open>An example\<close>

text \<open>A client that opens a subscription, and one that publishes an event and leaves.\<close>

definition example_parse :: "string \<Rightarrow> json list option" where
  "example_parse txt =
     (if txt = ''REQ'' then Some [JString ''REQ'', JString ''s'']
      else if txt = ''EVENT'' then Some [JString ''EVENT'', JNull] else None)"

definition subscribed_session :: "nat session" where
  "subscribed_session = new_session
     \<lparr>tasks := [0 \<mapsto> \<lparr>task_sub = ''s'', task_filters = [], phase = Opening False, did = []\<rparr>],
      main_log := [SpawnSubscribe 0 ''s'' []], conn_state := \<lparr>subs = [(''s'', 0)], next_task = 1\<rparr>,
      frames_read := [InText ''REQ'']\<rparr>"

lemma subscribed_session_reachable: "session_reachable example_parse disp subscribed_session"
proof -
  have "handle_text example_parse disp new_conn ''REQ'' =
      ([SpawnSubscribe 0 ''s'' []], \<lparr>subs = [(''s'', 0)], next_task = 1\<rparr>)"
    by (simp add: handle_text_def parse_client_frame_def example_parse_def cancel_sub_def new_conn_def)
  then have "session_step example_parse disp Client new_session subscribed_session"
    using session_step.read [of new_session example_parse disp "''REQ''"]
    by (simp add: new_session_def new_outbound_def act_eqs subscribed_session_def)
  then show ?thesis by (rule session_reachable.step [OF session_reachable.start])
qed

definition published_session :: "(json \<Rightarrow> string) \<Rightarrow> nat session" where
  "published_session disp = new_session
     \<lparr>publishes := [0 \<mapsto> \<lparr>pub_event = JNull, pub_phase = Answered (Inr None)\<rparr>], next_publish := 1,
      main_log := run_session example_parse disp (\<lambda>xs. xs) [InText ''EVENT''], frames_read := [InText ''EVENT''],
      main_phase := Returned,
      channel := new_outbound\<lparr>made := (\<lambda>_. [])(PubTask 0 := [publish_frame disp JNull (Inr None)]),
        written := [(PubTask 0, publish_frame disp JNull (Inr None))]\<rparr>\<rparr>"

lemma published_session_reachable: "session_reachable example_parse disp (published_session disp)"
proof -
  let ?f = "publish_frame disp JNull (Inr None)"
  let ?pub = "\<lambda>ph. [0 \<mapsto> \<lparr>pub_event = JNull, pub_phase = ph\<rparr>]"
  let ?ch = "new_outbound\<lparr>made := (\<lambda>_. [])(PubTask 0 := [?f])\<rparr> :: sender outbound"
  let ?s = "\<lambda>ph ch. (new_session :: nat session)\<lparr>publishes := ?pub ph, next_publish := 1,
      main_log := [SpawnPublish JNull], frames_read := [InText ''EVENT''], channel := ch\<rparr>"
  let ?reach = "session_reachable example_parse disp"
  note next' = session_reachable.step [of example_parse disp]
  have "handle_text example_parse disp new_conn ''EVENT'' = ([SpawnPublish JNull], new_conn)"
    by (simp add: handle_text_def parse_client_frame_def example_parse_def)
  then have 1: "?reach (?s Calling new_outbound)"
    using next' [OF session_reachable.start session_step.read [of new_session example_parse disp "''EVENT''"]]
    by (simp add: new_session_def new_outbound_def act_eqs)
  have 2: "?reach (?s (Sending (Inr None)) (?ch\<lparr>waiting := (\<lambda>_. [])(PubTask 0 := [?f])\<rparr>))"
    using next' [OF 1 session_step.answered [of _ 0 _ example_parse disp "Inr None"]]
    by (simp add: new_session_def new_outbound_def give_def put_publish_def)
  have 3: "?reach (?s (Sending (Inr None)) (?ch\<lparr>queue := [(PubTask 0, ?f)]\<rparr>))"
    using next' [OF 2 session_step.transfer [OF _ move.enqueue [of _ "PubTask 0" ?f "[]"]]]
    by (simp add: new_session_def new_outbound_def outbound_buf_def fun_upd_idem)
  have 4: "?reach (?s (Sending (Inr None)) (?ch\<lparr>writing := Some (PubTask 0, ?f)\<rparr>))"
    using next' [OF 3 session_step.transfer [OF _ move.recv [of _ "(PubTask 0, ?f)" "[]"]]]
    by (simp add: new_session_def new_outbound_def)
  have 5: "?reach (?s (Sending (Inr None)) (?ch\<lparr>written := [(PubTask 0, ?f)]\<rparr>))"
    using next' [OF 4 session_step.transfer [OF _ move.wrote [of _ "(PubTask 0, ?f)"]]]
    by (simp add: new_session_def new_outbound_def)
  have 6: "?reach (?s (Answered (Inr None)) (?ch\<lparr>written := [(PubTask 0, ?f)]\<rparr>))"
    using next' [OF 5 session_step.answer_sent [of _ 0 _ "Inr None"]]
    by (simp add: new_session_def new_outbound_def put_publish_def)
  have 7: "?reach (?s (Answered (Inr None)) (?ch\<lparr>written := [(PubTask 0, ?f)]\<rparr>)
      \<lparr>main_log := [SpawnPublish JNull, AwaitWriter], main_phase := Awaiting\<rparr>)"
    using next' [OF 6 session_step.gone [of _ "[]" "[]"]]
    by (simp add: new_session_def new_conn_def new_outbound_def act_eqs)
  have log: "run_session example_parse disp (\<lambda>xs. xs) [InText ''EVENT''] = [SpawnPublish JNull, AwaitWriter]"
    by (simp add: run_session_def handle_text_def parse_client_frame_def example_parse_def new_conn_def)
  show ?thesis
    using next' [OF 7 session_step.writer_done]
    by (simp add: published_session_def log all_ended_def idle_def in_transit_def new_session_def new_outbound_def)
qed

section \<open>Properties\<close>

text \<open>C2: no subscription is orphaned. A task that is still running and has not been told to stop belongs
  to a connection that is still read, it is the task the connection's map holds for its
  subscription id, and that subscription is open with exactly its filters. Conversely, for every
  subscription the client has open, the connection's map holds a task with exactly its filters that
  was never told to stop: no cancel was ever sent to it, and it has not cancelled its stream, so it
  runs or its stream has ended by itself.\<close>
theorem session_no_orphans:
  assumes "session_reachable from_str disp s"
  shows "(tasks s n = Some t \<and> phase t \<notin> {Cancelling, Ended} \<and> n \<notin> permits s \<longrightarrow>
       main_phase s = Reading \<and> (task_sub t, n) \<in> set (subs (conn_state s))
       \<and> fold wants (messages from_str (frames_read s)) Map.empty (task_sub t) = Some (task_filters t))
    \<and> (main_phase s = Reading \<and> fold wants (messages from_str (frames_read s)) Map.empty i = Some fs \<longrightarrow>
       (\<exists>n t. (i, n) \<in> set (subs (conn_state s)) \<and> tasks s n = Some t \<and> task_sub t = i \<and> task_filters t = fs
          \<and> NotifyCancel n \<notin> set (main_log s) \<and> n \<notin> permits s
          \<and> phase t \<noteq> Cancelling \<and> (\<forall>tok r. HandleCancel tok r \<notin> set (did t))))"
proof -
  have tr: "tracks (main_log s) (conn_state s) (fold wants (messages from_str (frames_read s)) Map.empty)"
    if "main_phase s = Reading"
    using tracks_frames [OF tracks_new session_main(1) [OF assms that]] by simp
  have 2: "\<exists>n t. (i, n) \<in> set (subs (conn_state s)) \<and> tasks s n = Some t \<and> task_sub t = i \<and> task_filters t = fs
      \<and> NotifyCancel n \<notin> set (main_log s) \<and> n \<notin> permits s \<and> \<not> cancels t"
    if reading: "main_phase s = Reading"
      and wanted: "fold wants (messages from_str (frames_read s)) Map.empty i = Some fs"
  proof -
    obtain n where live: "(n, i, fs) \<in> set (live_tasks (main_log s))"
      using tracks_live [OF tr [OF reading] wanted] by blast
    then have sp: "(n, i, fs) \<in> set (spawned_tasks (main_log s))" and nn: "NotifyCancel n \<notin> set (main_log s)"
      by (simp_all add: live_tasks_iff)
    obtain t where t: "tasks s n = Some t" using session_spawned [OF assms sp] by blast
    have once: "spawned n (main_log s) \<le> 1"
      using read_frames_balanced [OF conn_ok_new session_main(1) [OF assms reading], of n] by (simp add: balanced_def)
    have "(i, fs) = (task_sub t, task_filters t)"
      using spawned_once [OF once] sp session_task(3) [OF assms t] by blast
    moreover have "n \<notin> permits s"
      using session_reachable_inv [OF assms] nn by (auto simp: session_inv_def task_inv_def)
    moreover have "\<not> cancels t" using session_told [OF assms t] nn by blast
    ultimately show ?thesis using t nn tracks_mem(1) [OF tr [OF reading] live] by blast
  qed
  show ?thesis using session_wanted [OF assms] 2 unfolding cancels_def by blast
qed

theorem session_no_orphans_witness:
  "\<exists>t. tasks subscribed_session 0 = Some t \<and> (task_sub t, 0) \<in> set (subs (conn_state subscribed_session))"
proof -
  let ?t = "\<lparr>task_sub = ''s'', task_filters = [], phase = Opening False, did = []\<rparr> :: nat sub_task"
  have "tasks subscribed_session 0 = Some ?t" "permits subscribed_session = {}"
    by (simp_all add: subscribed_session_def new_session_def)
  then show ?thesis
    using session_no_orphans [OF subscribed_session_reachable, where n = 0 and t = ?t] by (intro exI [of _ ?t]) simp
qed

text \<open>C8: the interleaved system refines the sequential descriptions. However the steps interleave, what
  the main loop did is what \<open>read_frames\<close> does on the frames read so far, and a whole \<open>run_session\<close>
  once the client is gone; the tasks are exactly the ones it spawned, and what each of them did is a
  run of \<open>subscribe_loop\<close> with its subscription id and filters, on a script that is complete once the
  task has ended. So whatever holds of these functions holds of every task of the live system.\<close>
theorem session_refines:
  assumes "session_reachable from_str disp s"
  shows "(main_phase s = Reading \<longrightarrow>
       read_frames from_str disp new_conn (frames_read s) = (main_log s, conn_state s))
    \<and> (main_phase s \<noteq> Reading \<longrightarrow>
       (\<exists>order. (\<forall>xs. mset (order xs) = mset xs) \<and> main_log s = run_session from_str disp order (frames_read s)))
    \<and> ((n, i, fs) \<in> set (spawned_tasks (main_log s)) \<longrightarrow> tasks s n \<noteq> None)
    \<and> (tasks s n = Some t \<longrightarrow>
       (n, task_sub t, task_filters t) \<in> set (spawned_tasks (main_log s))
       \<and> (\<exists>opened evs. did t = subscribe_loop disp (task_sub t) (task_filters t) opened evs
            \<and> (phase t = Ended \<longrightarrow> script_done opened evs)))"
proof -
  have "\<exists>opened evs. did t = subscribe_loop disp (task_sub t) (task_filters t) opened evs
      \<and> (phase t = Ended \<longrightarrow> script_done opened evs)" if "tasks s n = Some t"
    using task_run_script session_task(1) [OF assms that] by blast
  then show ?thesis
    using session_main [OF assms] session_task(3) [OF assms] session_spawned [OF assms] by blast
qed

theorem session_refines_witness:
  "\<exists>t opened evs. tasks subscribed_session 0 = Some t
     \<and> did t = subscribe_loop (\<lambda>_. []) ''s'' [] opened evs \<and> phase t = Opening False"
proof -
  let ?t = "\<lparr>task_sub = ''s'', task_filters = [], phase = Opening False, did = []\<rparr> :: nat sub_task"
  have t: "tasks subscribed_session 0 = Some ?t" by (simp add: subscribed_session_def)
  have "\<exists>opened evs. did ?t = subscribe_loop (\<lambda>_. []) (task_sub ?t) (task_filters ?t) opened evs"
    using session_refines [OF subscribed_session_reachable, where n = 0 and t = ?t and disp = "\<lambda>_. []"] t by blast
  then show ?thesis using t by auto
qed

text \<open>C5: everybody gets an answer. While the connection lives, each sender's frames reach the client
  in order. The k-th EVENT of the client has its own publish, which was made with this event; as long
  as its call has no answer the client has got nothing for it, and once it has one, all the client
  ever gets for it is the OK frame made of this event and of the answer to this call. Once the
  connection has ended with the socket intact, nothing is missing: every EVENT's call has its answer
  and its OK frame has been written, exactly once, every frame that is no message has its notice,
  and each subscription's frames are those of a complete run of its task.\<close>
theorem session_delivery:
  assumes "session_reachable from_str disp s"
  shows "(k < length (asked_events (messages from_str (frames_read s))) \<longrightarrow>
       (\<exists>p. publishes s k = Some p \<and> pub_event p = asked_events (messages from_str (frames_read s)) ! k
          \<and> (case pub_phase p of
               Calling \<Rightarrow> of_sender (PubTask k) (written (channel s)) = []
             | Sending a \<Rightarrow> prefix (of_sender (PubTask k) (written (channel s))) [publish_frame disp (pub_event p) a]
             | Answered a \<Rightarrow> prefix (of_sender (PubTask k) (written (channel s))) [publish_frame disp (pub_event p) a])
          \<and> (main_phase s = Returned \<and> receiving (channel s) \<longrightarrow>
              (\<exists>a. pub_phase p = Answered a
                 \<and> of_sender (PubTask k) (written (channel s)) = [publish_frame disp (pub_event p) a]))))
    \<and> (tasks s n = Some t \<longrightarrow> prefix (of_sender (SubTask n) (written (channel s))) (task_sends (did t)))
    \<and> (main_phase s = Returned \<and> receiving (channel s) \<longrightarrow>
       (tasks s n = Some t \<longrightarrow> phase t = Ended \<and> of_sender (SubTask n) (written (channel s)) = task_sends (did t))
       \<and> of_sender MainLoop (written (channel s)) =
           replicate (count_list (messages from_str (frames_read s)) None) (notice_frame disp ''unrecognized frame''))"
proof -
  let ?events = "asked_events (messages from_str (frames_read s))"
  have inv: "session_inv from_str disp s" by (rule session_reachable_inv [OF assms])
  then have out: "outbound_inv (channel s)" by (simp add: session_inv_def outbound_reachable_inv)
  then have pre: "prefix (of_sender i (written (channel s))) (made (channel s) i)" for i
    by (simp add: outbound_inv_def)
  have main: "made (channel s) MainLoop =
      replicate (count_list (messages from_str (frames_read s)) None) (notice_frame disp ''unrecognized frame'')"
    using inv session_answers(2) [OF assms] by (simp add: session_inv_def counters_inv_def)
  have all: "of_sender i (written (channel s)) = made (channel s) i" and ended: "all_ended s"
    if "main_phase s = Returned" "receiving (channel s)" for i
    using inv out that by (auto simp: session_inv_def end_inv_def outbound_inv_def idle_def)
  have 1: "\<exists>p. publishes s k = Some p \<and> pub_event p = ?events ! k
      \<and> (case pub_phase p of
           Calling \<Rightarrow> of_sender (PubTask k) (written (channel s)) = []
         | Sending a \<Rightarrow> prefix (of_sender (PubTask k) (written (channel s))) [publish_frame disp (pub_event p) a]
         | Answered a \<Rightarrow> prefix (of_sender (PubTask k) (written (channel s))) [publish_frame disp (pub_event p) a])
      \<and> (main_phase s = Returned \<and> receiving (channel s) \<longrightarrow>
          (\<exists>a. pub_phase p = Answered a
             \<and> of_sender (PubTask k) (written (channel s)) = [publish_frame disp (pub_event p) a]))"
    if "k < length ?events"
  proof -
    have "k < next_publish s" and "pub_inv disp s k"
      using inv that session_answers(1) [OF assms] by (simp_all add: session_inv_def counters_inv_def)
    then obtain p where p: "publishes s k = Some p" "pub_event p = ?events ! k"
      "made (channel s) (PubTask k) = pub_frames disp p"
      using session_answers(1) [OF assms] by (auto simp: pub_inv_def split: option.splits)
    have "\<exists>a. pub_phase p = Answered a" if "main_phase s = Returned" "receiving (channel s)"
      using ended [OF that] p(1) unfolding all_ended_def by blast
    then show ?thesis
      using pre [of "PubTask k"] all [of "PubTask k"] p by (cases "pub_phase p") (auto simp: pub_frames_def)
  qed
  show ?thesis
    using 1 all ended main pre [of "SubTask n"] session_task(2) [OF assms] by (auto simp: all_ended_def)
qed

theorem session_delivery_witness:
  "of_sender (PubTask 0) (written (channel (published_session (\<lambda>_. ''null'')))) =
     [publish_frame (\<lambda>_. ''null'') JNull (Inr None)]"
proof -
  let ?s = "published_session (\<lambda>_. ''null'')"
  have over: "main_phase ?s = Returned" "receiving (channel ?s)"
    and events: "asked_events (messages example_parse (frames_read ?s)) = [JNull]"
    and pub: "publishes ?s 0 = Some \<lparr>pub_event = JNull, pub_phase = Answered (Inr None)\<rparr>"
    by (simp_all add: published_session_def new_outbound_def parse_client_frame_def example_parse_def asked_events_def
        List.map_filter_simps)
  note d = session_delivery [OF published_session_reachable, where k = 0 and disp = "\<lambda>_. ''null''", THEN conjunct1]
  obtain p a where "publishes ?s 0 = Some p" "pub_phase p = Answered a"
    "of_sender (PubTask 0) (written (channel ?s)) = [publish_frame (\<lambda>_. ''null'') (pub_event p) a]"
    using d over events by (auto simp del: of_sender_simps)
  moreover from this(1) pub have "p = \<lparr>pub_event = JNull, pub_phase = Answered (Inr None)\<rparr>" by simp
  ultimately show ?thesis by simp
qed

end
