(* ===== verification/Session_End.thy ===== *)
theory Session_End
  imports Session
begin

text \<open>
  How a bridged connection ends: once the client is gone, everything the shim does by itself comes
  to an end, and \<open>handle_ws\<close> returns as soon as the transport has answered what it still owes.
\<close>

text \<open>A run: its steps, and those among them that the transport took.\<close>

inductive session_run ::
  "(string \<Rightarrow> json list option) \<Rightarrow> (json \<Rightarrow> string) \<Rightarrow> nat \<Rightarrow> nat \<Rightarrow> 'tok session \<Rightarrow> 'tok session \<Rightarrow> bool"
  for from_str disp
where
  stop: "session_run from_str disp 0 0 s s"
| more: "session_step from_str disp who s s' \<Longrightarrow> session_run from_str disp k d s' s'' \<Longrightarrow>
     session_run from_str disp (Suc k) (if who = Upstream then Suc d else d) s s''"

section \<open>The order of the phases\<close>

fun phase_rank :: "'tok task_phase \<Rightarrow> nat" where
  "phase_rank (Opening called) = (if called then 1 else 0)"
| "phase_rank (Streaming tok) = 2"
| "phase_rank Cancelling = 3"
| "phase_rank Ending = 3"
| "phase_rank Ended = 4"

instantiation task_phase :: (type) order
begin

definition less_eq_task_phase :: "'a task_phase \<Rightarrow> 'a task_phase \<Rightarrow> bool" where
  "x \<le> y \<longleftrightarrow> x = y \<or> phase_rank x < phase_rank y"

definition less_task_phase :: "'a task_phase \<Rightarrow> 'a task_phase \<Rightarrow> bool" where
  "x < y \<longleftrightarrow> phase_rank x < phase_rank y"

instance
  by standard (auto simp: less_eq_task_phase_def less_task_phase_def)

end

lemma phase_le [simp]:
  "Opening False \<le> Opening True" "Opening called \<le> Streaming tok" "Opening called \<le> Ending" "x \<le> Ended"
  "Streaming tok \<le> Cancelling" "Streaming tok \<le> Ending"
  by (simp_all add: less_eq_task_phase_def) (cases x; simp)

text \<open>A step moves no task back, and leaves it its subscription.\<close>

lemma phase_step:
  assumes "session_step from_str disp who s s'" "session_reachable from_str disp s" "tasks s n = Some t"
  shows "\<exists>t'. tasks s' n = Some t' \<and> phase t \<le> phase t' \<and> task_sub t' = task_sub t \<and> task_filters t' = task_filters t"
  using assms(1)
proof cases
  case (read line es c)
  show ?thesis
    using read(5)
  proof (rule handle_text_effects)
    fix ns i fs
    assume es: "es = map NotifyCancel ns @ [SpawnSubscribe (next_task (conn_state s)) i fs]"
    have "n \<noteq> next_task (conn_state s)" using task_new [OF assms(2) read(3)] assms(3) by auto
    then show ?thesis using read(2) assms(3) by (simp add: es fold_notify act_eqs)
  qed (use read(2) assms(3) in \<open>auto simp: fold_notify act_eqs\<close>)
next
  case (gone f ns)
  then show ?thesis using assms(3) by (auto simp: fold_notify act_eqs)
next
  case (refused i f fs)
  then show ?thesis using assms(3) by (cases i) (auto simp: put_task_def split: option.split task_phase.split)
qed (use assms(3) in auto)

section \<open>A measure\<close>

fun task_weight :: "'tok task_phase \<Rightarrow> nat" where
  "task_weight (Opening called) = (if called then 3 else 4)"
| "task_weight (Streaming tok) = 3"
| "task_weight Cancelling = 1"
| "task_weight Ending = 1"
| "task_weight Ended = 0"

fun pub_weight :: "pub_phase \<Rightarrow> nat" where
  "pub_weight Calling = 6"
| "pub_weight (Sending a) = 1"
| "pub_weight (Answered a) = 0"

definition work :: "'tok session \<Rightarrow> nat" where
  "work s = load (channel s) + weigh (\<lambda>t. task_weight (phase t)) (tasks s)
     + weigh (\<lambda>p. pub_weight (pub_phase p)) (publishes s) + (if main_phase s = Returned then 0 else 1)"

lemma session_finite:
  assumes "session_inv from_str disp s"
  shows "finite (dom (tasks s))" "finite (dom (publishes s))" "finite {i. waiting (channel s) i \<noteq> []}"
proof -
  have "n \<in> fst ` set (spawned_tasks (main_log s))" if "tasks s n = Some t" for n t
    using assms that by (force simp: session_inv_def task_inv_def dest!: spec [of _ n])
  then have "dom (tasks s) \<subseteq> fst ` set (spawned_tasks (main_log s))" by blast
  then show "finite (dom (tasks s))" by (rule finite_subset) simp
  have "k < next_publish s" if "publishes s k = Some p" for k p
    using assms that by (auto simp: session_inv_def pub_inv_def split: if_splits dest!: spec [of _ k])
  then have "dom (publishes s) \<subseteq> {..<next_publish s}" by auto
  then show "finite (dom (publishes s))" by (rule finite_subset) simp
  show "finite {i. waiting (channel s) i \<noteq> []}"
    using assms outbound_reachable_inv by (auto simp: session_inv_def outbound_inv_def)
qed

text \<open>Whatever a task does next weighs this much.\<close>

lemma work_put_task:
  assumes "session_inv from_str disp s" "tasks s n = Some t" "s' = put_task n t' r"
    "tasks r = tasks s" "publishes r = publishes s" "main_phase r = main_phase s"
  shows "work s' + task_weight (phase t) + load (channel s) = work s + task_weight (phase t') + load (channel r)"
  using weigh_upd [OF session_finite(1) [OF assms(1)] assms(2), of "\<lambda>t. task_weight (phase t)" t'] assms(3-6)
  by (simp add: work_def)

lemma work_task_send:
  assumes "session_inv from_str disp s" "tasks s n = Some t" "waiting (channel s) (SubTask n) = []"
  shows "work (task_send n t ph f s) + task_weight (phase t) = work s + task_weight ph + 3"
  using work_put_task [OF assms(1,2) task_send_def [of n t ph f s]]
    load_give [OF session_finite(3) [OF assms(1)] assms(3)]
  by simp

lemma work_put_publish:
  assumes "session_inv from_str disp s" "publishes s k = Some p" "s' = put_publish k p' r"
    "tasks r = tasks s" "publishes r = publishes s" "main_phase r = main_phase s"
  shows "work s' + pub_weight (pub_phase p) + load (channel s) =
    work s + pub_weight (pub_phase p') + load (channel r)"
  using weigh_upd [OF session_finite(2) [OF assms(1)] assms(2), of "\<lambda>p. pub_weight (pub_phase p)" p'] assms(3-6)
  by (simp add: work_def)

text \<open>A step of the shim makes the work less, a step of the transport adds at most three; there are no
  steps of the client once it is gone.\<close>

lemma work_step:
  assumes "session_step from_str disp who s s'" "session_inv from_str disp s" "main_phase s \<noteq> Reading"
  shows "work s' + 1 \<le> work s + (if who = Upstream then 4 else 0) \<and> main_phase s' \<noteq> Reading"
proof -
  note fin = session_finite(3) [OF assms(2)]
  note task = work_put_task [OF assms(2)] and sends = work_task_send [OF assms(2)]
    and pub = work_put_publish [OF assms(2)]
  show ?thesis
    using assms(1)
  proof cases
    case (call n t)
    then show ?thesis using task [OF call(3,2)] call assms(3) by simp
  next
    case (opened n t tok)
    then show ?thesis using task [OF opened(3,2)] opened assms(3) by simp
  next
    case (open_failed n t e)
    then show ?thesis using sends [OF open_failed(3,5)] open_failed assms(3) by simp
  next
    case (open_cancelled n t called)
    then show ?thesis using task [OF open_cancelled(3,2)] open_cancelled assms(3)
      by (simp split: if_splits)
  next
    case (chunk n t tok c)
    then show ?thesis using sends [OF chunk(3,5)] chunk assms(3) by simp
  next
    case (stream_error n t tok e)
    then show ?thesis using sends [OF stream_error(3,5)] stream_error assms(3) by simp
  next
    case (stream_end n t tok)
    then show ?thesis using task [OF stream_end(3,2)] stream_end assms(3) by simp
  next
    case (cancelled n t tok)
    then show ?thesis using task [OF cancelled(3,2)] cancelled assms(3) by simp
  next
    case (torn_down n t)
    then show ?thesis using task [OF torn_down(3,2)] torn_down assms(3) by simp
  next
    case (last_sent n t)
    then show ?thesis using task [OF last_sent(3,2)] last_sent assms(3) by simp
  next
    case (answered k p a)
    then show ?thesis using pub [OF answered(3,2)]
        load_give [OF fin answered(5)] answered assms(3) by simp
  next
    case (answer_sent k p a)
    then show ?thesis using pub [OF answer_sent(3,2)] answer_sent assms(3) by simp
  next
    case (transfer o')
    then show ?thesis using load_move [OF transfer(4) fin] assms(3) by (simp add: work_def)
  next
    case (refused i f fs)
    let ?o = "(channel s)\<lparr>waiting := (waiting (channel s))(i := fs)\<rparr>"
    have less: "load ?o < load (channel s)" by (rule load_move [OF move.refuse [OF refused(5,3,4)] fin])
    show ?thesis
    proof (cases "send_failed i s = s")
      case True
      then show ?thesis using refused(2) less assms(3) by (simp add: work_def)
    next
      case False
      then obtain n t tok where "i = SubTask n" "tasks s n = Some t" "phase t = Streaming tok"
        by (cases i) (auto split: option.splits task_phase.splits)
      moreover from this have "s' = put_task n (t\<lparr>phase := Ended\<rparr>) (s\<lparr>channel := ?o\<rparr>)"
        using refused(2) by (simp add: put_task_def)
      ultimately show ?thesis using task [of n t s' "t\<lparr>phase := Ended\<rparr>" "s\<lparr>channel := ?o\<rparr>"] less assms(3) by simp
    qed
  next
    case writer_done
    then show ?thesis by (simp add: work_def)
  qed (use assms(3) in simp_all)
qed

lemma session_run_bound:
  "session_run from_str disp k d s s' \<Longrightarrow> session_inv from_str disp s \<Longrightarrow> main_phase s \<noteq> Reading \<Longrightarrow>
     k + work s' \<le> work s + 4 * d \<and> session_inv from_str disp s' \<and> main_phase s' \<noteq> Reading"
proof (induction rule: session_run.induct)
  case (more who s s' k d s'')
  have "work s' + 1 \<le> work s + (if who = Upstream then 4 else 0)" "main_phase s' \<noteq> Reading"
    using work_step [OF more(1,4,5)] by auto
  moreover have "session_inv from_str disp s'" using session_inv_step more(1,4) by blast
  ultimately show ?case using more.IH by (cases who) auto
qed simp

section \<open>Nothing is stuck\<close>

text \<open>What the transport still owes: the answer to a publish, or the end of a teardown.\<close>

definition owed :: "'tok session \<Rightarrow> bool" where
  "owed s \<longleftrightarrow>
     (\<exists>k p. publishes s k = Some p \<and> pub_phase p = Calling) \<or> (\<exists>n t. tasks s n = Some t \<and> phase t = Cancelling)"

lemma session_next:
  assumes "session_reachable from_str disp s" "main_phase s = Awaiting"
  shows "(\<exists>s'. session_step from_str disp Shim s s')
    \<or> owed s \<and> (\<exists>s'. session_step from_str disp Upstream s s' \<and> work s' < work s)"
proof (cases "(receiving (channel s) \<or> closing (channel s)) \<and> \<not> (all_ended s \<and> idle (channel s))")
  case False
  then show ?thesis using session_step.writer_done [OF assms(2)] by blast
next
  case True
  have inv: "session_inv from_str disp s" by (rule session_reachable_inv [OF assms(1)])
  show ?thesis
  proof (cases "idle (channel s)")
    case False
    moreover have "outbound_inv (channel s)" using inv by (simp add: session_inv_def outbound_reachable_inv)
    ultimately obtain o' where "move (channel s) o'" using move_or_idle by blast
    then show ?thesis using True session_step.transfer by blast
  next
    case idle: True
    then have quiet: "waiting (channel s) i = []" for i by (simp add: idle_def)
    from True idle consider n t where "tasks s n = Some t" "phase t \<noteq> Ended"
      | k p where "publishes s k = Some p" "\<And>a. pub_phase p \<noteq> Answered a"
      unfolding all_ended_def by blast
    then show ?thesis
    proof cases
      case 1
      have told: "n \<in> permits s" if "phase t \<notin> {Cancelling, Ended}"
        using session_wanted [OF assms(1) 1(1) that] assms(2) by auto
      show ?thesis
      proof (cases "phase t")
        case Cancelling
        let ?s' = "put_task n (t\<lparr>phase := Ended\<rparr>) s"
        have "session_step from_str disp Upstream s ?s'" by (rule session_step.torn_down [OF 1(1) Cancelling])
        moreover have "work ?s' < work s" using work_put_task [OF inv 1(1) refl, of s "t\<lparr>phase := Ended\<rparr>"] Cancelling by simp
        ultimately show ?thesis using 1(1) Cancelling unfolding owed_def by blast
      next
        case (Opening called)
        then show ?thesis using session_step.open_cancelled [OF 1(1) Opening] told by auto
      next
        case (Streaming tok)
        then show ?thesis using session_step.cancelled [OF 1(1) Streaming quiet] told by auto
      next
        case Ending
        then show ?thesis using session_step.last_sent [OF 1(1) Ending quiet] by blast
      qed (use 1(2) in simp)
    next
      case 2
      show ?thesis
      proof (cases "pub_phase p")
        case Calling
        let ?f = "publish_frame disp (pub_event p) (Inr None)"
        let ?s' = "put_publish k (p\<lparr>pub_phase := Sending (Inr None)\<rparr>) (s\<lparr>channel := give (PubTask k) ?f (channel s)\<rparr>)"
        have "session_step from_str disp Upstream s ?s'" by (rule session_step.answered [OF 2(1) Calling quiet])
        moreover have "work ?s' < work s"
          using work_put_publish [OF inv 2(1) refl, of "s\<lparr>channel := give (PubTask k) ?f (channel s)\<rparr>"
              "p\<lparr>pub_phase := Sending (Inr None)\<rparr>"] Calling
            load_give [OF session_finite(3) [OF inv] quiet] by simp
        ultimately show ?thesis using 2(1) Calling unfolding owed_def by blast
      next
        case (Sending a)
        then show ?thesis using session_step.answer_sent [OF 2(1) Sending quiet] by blast
      qed (use 2(2) in simp)
    qed
  qed
qed

text \<open>The steps that bring the end nearer: those of the shim, and the answers the transport owes.\<close>

definition settle ::
  "(string \<Rightarrow> json list option) \<Rightarrow> (json \<Rightarrow> string) \<Rightarrow> 'tok session \<Rightarrow> 'tok session \<Rightarrow> bool"
where
  "settle from_str disp s s' \<longleftrightarrow> (\<exists>who. session_step from_str disp who s s') \<and> work s' < work s"

definition left_session :: "(string \<Rightarrow> json list option) \<Rightarrow> (json \<Rightarrow> string) \<Rightarrow> 'tok session \<Rightarrow> bool" where
  "left_session from_str disp s \<longleftrightarrow> session_reachable from_str disp s \<and> main_phase s \<noteq> Reading"

interpretation ending: settling "left_session from_str disp" "settle from_str disp" "\<lambda>s. main_phase s = Returned" work
proof
  fix s s' :: "'tok session"
  assume left: "left_session from_str disp s"
  then have r: "session_reachable from_str disp s" and m: "main_phase s \<noteq> Reading" by (simp_all add: left_session_def)
  have shrinks: "work t' + 1 \<le> work s + (if who = Upstream then 4 else 0) \<and> main_phase t' \<noteq> Reading"
    if "session_step from_str disp who s t'" for who t'
    by (rule work_step [OF that session_reachable_inv [OF r] m])
  show "main_phase s = Returned \<or> (\<exists>s'. settle from_str disp s s')"
  proof (cases "main_phase s")
    case Awaiting
    from session_next [OF r this] obtain who t' where t': "session_step from_str disp who s t'"
      and "who = Shim \<or> work t' < work s" by blast
    then have "work t' < work s" using shrinks [OF t'] by auto
    then show ?thesis using t' unfolding settle_def by blast
  qed (use m in simp_all)
  show "left_session from_str disp s'" if st: "settle from_str disp s s'"
  proof -
    obtain who where who: "session_step from_str disp who s s'" using st by (auto simp: settle_def)
    then show ?thesis
      using session_reachable.step [OF r who] shrinks [OF who] by (simp add: left_session_def)
  qed
  show "work s' < work s" if "settle from_str disp s s'" using that by (simp add: settle_def)
qed

lemma settle_run:
  "(settle from_str disp ^^ n) s s' \<Longrightarrow> \<exists>d. session_run from_str disp n d s s'"
proof (induction n arbitrary: s)
  case (Suc n)
  obtain t where t: "settle from_str disp s t" "(settle from_str disp ^^ n) t s'"
    by (rule relpowp_Suc_E2 [OF Suc.prems])
  obtain who where "session_step from_str disp who s t" using t(1) by (auto simp: settle_def)
  moreover obtain d where "session_run from_str disp n d t s'" using Suc.IH [OF t(2)] by blast
  ultimately show ?case by (intro exI) (rule session_run.more)
qed (auto intro: session_run.stop)

lemma session_returns:
  assumes "session_reachable from_str disp s" "main_phase s \<noteq> Reading"
  shows "\<exists>k d s'. session_run from_str disp k d s s' \<and> main_phase s' = Returned"
proof -
  have "left_session from_str disp s" using assms by (simp add: left_session_def)
  then obtain n s' where "(settle from_str disp ^^ n) s s'" "main_phase s' = Returned"
    using ending.settles by blast
  then show ?thesis using settle_run by blast
qed

section \<open>Properties\<close>

text \<open>C7: a connection ends. Once the client is gone, whatever the order of steps, the number of steps is
  bounded by the work that is left and by how often the transport still answers; streams cannot keep
  it alive, because every task has been told to stop. As long as \<open>handle_ws\<close> has not returned, the
  shim can go on by itself or the transport owes the answer to a publish or a teardown; and it can
  always return.\<close>
theorem session_ends:
  assumes "session_reachable from_str disp s" "main_phase s \<noteq> Reading"
  shows "(session_run from_str disp k d s s' \<longrightarrow>
       k \<le> work s + 4 * d
       \<and> (main_phase s' = Returned \<or> (\<exists>s''. session_step from_str disp Shim s' s'') \<or> owed s'))
    \<and> (\<exists>k d s'. session_run from_str disp k d s s' \<and> main_phase s' = Returned)"
proof -
  have "k \<le> work s + 4 * d \<and> (main_phase s' = Returned \<or> (\<exists>s''. session_step from_str disp Shim s' s'') \<or> owed s')"
    if run: "session_run from_str disp k d s s'"
  proof -
    have b: "k + work s' \<le> work s + 4 * d" "main_phase s' \<noteq> Reading"
      using session_run_bound [OF run session_reachable_inv [OF assms(1)] assms(2)] by auto
    have "session_reachable from_str disp s'"
      using run assms(1) by (induction rule: session_run.induct) (auto intro: session_reachable.step)
    then show ?thesis using b session_next [of from_str disp s'] by (cases "main_phase s'") auto
  qed
  then show ?thesis using session_returns [OF assms] by blast
qed

theorem session_ends_witness:
  "\<exists>s :: nat session. session_reachable example_parse (\<lambda>_. []) s \<and> phase (the (tasks s 0)) = Opening False
     \<and> main_phase s = Awaiting \<and> work s = 7
     \<and> (\<exists>k d s'. session_run example_parse (\<lambda>_. []) k d s s' \<and> main_phase s' = Returned)"
proof -
  let ?s = "subscribed_session\<lparr>permits := {0}, main_log := [SpawnSubscribe 0 ''s'' [], NotifyCancel 0, AwaitWriter],
    main_phase := Awaiting\<rparr>"
  have r: "session_reachable example_parse (\<lambda>_. []) ?s"
    using session_reachable.step [OF subscribed_session_reachable session_step.gone [of _ "[]" "[0]"]]
    by (simp add: subscribed_session_def new_session_def new_outbound_def act_eqs)
  have run: "\<exists>k d s'. session_run example_parse (\<lambda>_. []) k d ?s s' \<and> main_phase s' = Returned"
    using session_ends [OF r] by simp
  have state: "phase (the (tasks ?s 0)) = Opening False" "main_phase ?s = Awaiting" "work ?s = 7"
    by (simp_all add: subscribed_session_def new_session_def new_outbound_def work_def load_def weigh_def)
  show ?thesis by (intro exI [of _ ?s] conjI r state run)
qed

end
