(* ===== verification/Pool.thy ===== *)
theory Pool
  imports Proxy
begin

text \<open>
  The subscribe calls of one outlay server as a concurrent system: any number of calls of
  \<open>Proxy::subscribe\<close> (\<open>crates/outlay/src/proxy.rs\<close>) share one relay pool, which broadcasts what the
  upstream sends to the receiver of every call. A call runs the definitions of \<open>Proxy\<close> one
  iteration at a time; the calls, the upstream, the clients and the clock interleave in any order.

  The broadcast channel is \<open>tokio\<close>'s, as documented: every receiver gets what is sent after it was
  made, in order; one that falls behind by more than \<open>cap\<close> loses the oldest values and is told so
  once. A subscribe request that is answered with an error has opened nothing upstream, and the
  stream to the client takes a chunk without delay, so that reading a message and writing its chunk
  is one step. Time is in milliseconds; \<open>sleep\<close> is made anew in every iteration of the loop. \<open>c_did\<close>,
  \<open>c_script\<close>, \<open>c_lost\<close>, \<open>c_joined\<close> and \<open>p_sent\<close> record what happened; no step depends on them.
\<close>

section \<open>States\<close>

datatype stage = Registering | Forwarding | Leaving | Left "proxy_error + unit"

record ('ev, 'f) call =
  c_sub :: string
  c_uid :: string
  c_filters :: "'f list"
  c_stage :: stage
  c_inbox :: "'ev notification list"
  c_missed :: nat
  c_poll :: nat
  c_alive :: bool
  c_lost :: nat
  c_joined :: nat
  c_script :: "'ev iter list"
  c_did :: "'f proxy_effect list"

record ('ev, 'f) pool =
  p_calls :: "nat \<rightharpoonup> ('ev, 'f) call"
  p_open :: "string set"
  p_hung_up :: bool
  p_sent :: "'ev notification list"

definition new_pool :: "('ev, 'f) pool" where
  "new_pool = \<lparr>p_calls = Map.empty, p_open = {}, p_hung_up = False, p_sent = []\<rparr>"

section \<open>Steps\<close>

definition sink_active_poll :: nat where
  "sink_active_poll = 1000"

definition put :: "nat \<Rightarrow> ('ev, 'f) call \<Rightarrow> ('ev, 'f) pool \<Rightarrow> ('ev, 'f) pool" where
  "put k c s = s\<lparr>p_calls := (p_calls s)(k \<mapsto> c)\<rparr>"

definition each_call :: "(('ev, 'f) call \<Rightarrow> ('ev, 'f) call) \<Rightarrow> ('ev, 'f) pool \<Rightarrow> ('ev, 'f) pool" where
  "each_call f s = s\<lparr>p_calls := (\<lambda>k. map_option f (p_calls s k))\<rparr>"

text \<open>Before the loop: the receiver, then the request, whose answer is awaited.\<close>

definition new_call :: "string \<Rightarrow> 'f list \<Rightarrow> string \<Rightarrow> nat \<Rightarrow> ('ev, 'f) call" where
  "new_call csub filters uid now =
     \<lparr>c_sub = csub, c_uid = uid, c_filters = filters, c_stage = Registering, c_inbox = [], c_missed = 0,
      c_poll = 0, c_alive = True, c_lost = 0, c_joined = now, c_script = [],
      c_did = [Notifications, SubscribeWithId uid filters]\<rparr>"

text \<open>A value arrives at the receiver of a call that still holds one.\<close>

definition listening :: "('ev, 'f) call \<Rightarrow> bool" where
  "listening c \<longleftrightarrow> c_stage c \<in> {Registering, Forwarding}"

definition offer :: "nat \<Rightarrow> 'ev notification \<Rightarrow> ('ev, 'f) call \<Rightarrow> ('ev, 'f) call" where
  "offer cap n c =
     (if \<not> listening c then c
      else if length (c_inbox c) < cap then c\<lparr>c_inbox := c_inbox c @ [n]\<rparr>
      else c\<lparr>c_inbox := tl (c_inbox c @ [n]), c_missed := Suc (c_missed c), c_lost := Suc (c_lost c)\<rparr>)"

text \<open>One iteration of the loop.\<close>

definition iterate ::
  "(json \<Rightarrow> string option) \<Rightarrow> ('ev \<Rightarrow> json) \<Rightarrow> 'ev iter \<Rightarrow> ('ev, 'f) call \<Rightarrow> ('ev, 'f) call"
where
  "iterate ser evj it c =
     (let c' = c\<lparr>c_script := c_script c @ [it], c_poll := sink_active_poll\<rparr> in
      case sel it of
        Recv n \<Rightarrow>
          (case map_notification ser evj n (c_uid c) (c_sub c) of
             Some (Continue x) \<Rightarrow>
               c'\<lparr>c_did := c_did c @ [SinkWrite x], c_stage := if stream_write it then Forwarding else Leaving\<rparr>
           | Some (Stop x) \<Rightarrow> c'\<lparr>c_did := c_did c @ [SinkWrite x], c_stage := Leaving\<rparr>
           | None \<Rightarrow> c')
      | Lagged m \<Rightarrow> c'
      | RecvClosed \<Rightarrow> c'\<lparr>c_stage := Leaving\<rparr>
      | Tick \<Rightarrow> if \<not> active it then c'\<lparr>c_stage := Leaving\<rparr> else c')"

definition leave :: "('ev, 'f) call \<Rightarrow> ('ev, 'f) call" where
  "leave c = c\<lparr>c_stage := Left (Inr ()),
     c_did := c_did c @ [Unsubscribe (c_uid c)] @ (if c_alive c then [SinkClose] else [])\<rparr>"

text \<open>\<open>SubscriptionId::generate\<close> gives a fresh id. The first argument of a step is the time it takes.\<close>

inductive pool_step ::
  "(json \<Rightarrow> string option) \<Rightarrow> ('ev \<Rightarrow> json) \<Rightarrow> nat \<Rightarrow> nat \<Rightarrow> ('ev, 'f) pool \<Rightarrow> ('ev, 'f) pool \<Rightarrow> bool"
  for ser evj cap
where
  begins: "p_calls s k = None \<Longrightarrow> filters \<noteq> [] \<Longrightarrow> (\<And>j c. p_calls s j = Some c \<Longrightarrow> c_uid c \<noteq> uid) \<Longrightarrow>
     pool_step ser evj cap 0 s (put k (new_call csub filters uid (length (p_sent s))) s)"
| opened: "p_calls s k = Some c \<Longrightarrow> c_stage c = Registering \<Longrightarrow>
     pool_step ser evj cap 0 s
       (put k (c\<lparr>c_stage := Forwarding, c_poll := sink_active_poll, c_did := c_did c @ [SinkStart]\<rparr>)
         (s\<lparr>p_open := insert (c_uid c) (p_open s)\<rparr>))"
| refused: "p_calls s k = Some c \<Longrightarrow> c_stage c = Registering \<Longrightarrow>
     pool_step ser evj cap 0 s (put k (c\<lparr>c_stage := Left (Inl (Subscribe e))\<rparr>) s)"
| broadcast: "\<not> p_hung_up s \<Longrightarrow>
     pool_step ser evj cap 0 s (each_call (offer cap n) s\<lparr>p_sent := p_sent s @ [n]\<rparr>)"
| recv: "p_calls s k = Some c \<Longrightarrow> c_stage c = Forwarding \<Longrightarrow> c_missed c = 0 \<Longrightarrow> c_inbox c = n # ns \<Longrightarrow>
     pool_step ser evj cap 0 s
       (put k (iterate ser evj \<lparr>sel = Recv n, write_ok = w, active = c_alive c\<rparr> (c\<lparr>c_inbox := ns\<rparr>)) s)"
| lagged: "p_calls s k = Some c \<Longrightarrow> c_stage c = Forwarding \<Longrightarrow> c_missed c = m \<Longrightarrow> 0 < m \<Longrightarrow>
     pool_step ser evj cap 0 s
       (put k (iterate ser evj \<lparr>sel = Lagged m, write_ok = w, active = c_alive c\<rparr> (c\<lparr>c_missed := 0\<rparr>)) s)"
| closed: "p_calls s k = Some c \<Longrightarrow> c_stage c = Forwarding \<Longrightarrow> c_missed c = 0 \<Longrightarrow> c_inbox c = [] \<Longrightarrow> p_hung_up s \<Longrightarrow>
     pool_step ser evj cap 0 s
       (put k (iterate ser evj \<lparr>sel = RecvClosed, write_ok = w, active = c_alive c\<rparr> c) s)"
| tick: "p_calls s k = Some c \<Longrightarrow> c_stage c = Forwarding \<Longrightarrow> c_poll c = 0 \<Longrightarrow>
     pool_step ser evj cap 0 s
       (put k (iterate ser evj \<lparr>sel = Tick, write_ok = w, active = c_alive c\<rparr> c) s)"
| unwinds: "p_calls s k = Some c \<Longrightarrow> c_stage c = Leaving \<Longrightarrow>
     pool_step ser evj cap 0 s (put k (leave c) (s\<lparr>p_open := p_open s - {c_uid c}\<rparr>))"
| client_gone: "p_calls s k = Some c \<Longrightarrow> pool_step ser evj cap 0 s (put k (c\<lparr>c_alive := False\<rparr>) s)"
| hangs_up: "pool_step ser evj cap 0 s (s\<lparr>p_hung_up := True\<rparr>)"
| passes: "pool_step ser evj cap d s (each_call (\<lambda>c. c\<lparr>c_poll := c_poll c - d\<rparr>) s)"

inductive pool_run ::
  "(json \<Rightarrow> string option) \<Rightarrow> ('ev \<Rightarrow> json) \<Rightarrow> nat \<Rightarrow> nat \<Rightarrow> ('ev, 'f) pool \<Rightarrow> ('ev, 'f) pool \<Rightarrow> bool"
  for ser evj cap
where
  here: "pool_run ser evj cap 0 s s"
| on: "pool_run ser evj cap t s s' \<Longrightarrow> pool_step ser evj cap d s' s'' \<Longrightarrow> pool_run ser evj cap (t + d) s s''"

abbreviation pool_reachable ::
  "(json \<Rightarrow> string option) \<Rightarrow> ('ev \<Rightarrow> json) \<Rightarrow> nat \<Rightarrow> ('ev, 'f) pool \<Rightarrow> bool"
where
  "pool_reachable ser evj cap s \<equiv> \<exists>t. pool_run ser evj cap t new_pool s"

inductive_cases pool_stepE: "pool_step ser evj cap d s s'"

section \<open>One call\<close>

lemma forward_loop_snoc:
  "forward_loop ser evj uid csub its = (cs, False) \<Longrightarrow>
     forward_loop ser evj uid csub (its @ [it]) =
       (cs @ fst (forward_loop ser evj uid csub [it]), snd (forward_loop ser evj uid csub [it]))"
proof (induction its arbitrary: cs)
  case (Cons x its)
  then show ?case
    by (auto simp del: forward_loop.simps(2) simp: forward_loop.simps(2) [of _ _ _ _ x] split: loop_splits)
qed simp

lemma forward_loop_running:
  "forward_loop ser evj uid csub its = (cs, False) \<Longrightarrow> cs = stream_spec ser evj uid csub (received its)"
  by (induction its arbitrary: cs) (auto split: loop_splits)

lemma iterate_simps [simp]:
  "c_sub (iterate ser evj it c) = c_sub c" "c_uid (iterate ser evj it c) = c_uid c"
  "c_filters (iterate ser evj it c) = c_filters c" "c_inbox (iterate ser evj it c) = c_inbox c"
  "c_lost (iterate ser evj it c) = c_lost c" "c_joined (iterate ser evj it c) = c_joined c"
  "c_script (iterate ser evj it c) = c_script c @ [it]" "c_alive (iterate ser evj it c) = c_alive c"
  "c_missed (iterate ser evj it c) = c_missed c" "c_poll (iterate ser evj it c) = sink_active_poll"
  by (simp_all add: iterate_def Let_def split: sel.split option.split forward.split)

text \<open>An iteration is one element of the loop's script.\<close>

lemma iterate_forward:
  assumes "c_stage c = Forwarding"
  shows "c_did (iterate ser evj it c) = c_did c @ map SinkWrite (fst (forward_loop ser evj (c_uid c) (c_sub c) [it]))"
    and "c_stage (iterate ser evj it c) =
      (if snd (forward_loop ser evj (c_uid c) (c_sub c) [it]) then Leaving else Forwarding)"
  using assms by (auto simp: iterate_def Let_def split: sel.split option.split forward.split)

text \<open>What a call has done is what \<open>proxy_subscribe\<close> does on the call's script.\<close>

definition looped :: "(json \<Rightarrow> string option) \<Rightarrow> ('ev \<Rightarrow> json) \<Rightarrow> ('ev, 'f) call \<Rightarrow> string list \<Rightarrow> bool \<Rightarrow> bool" where
  "looped ser evj c cs fin \<longleftrightarrow>
     forward_loop ser evj (c_uid c) (c_sub c) (c_script c) = (cs, fin)
     \<and> c_did c = [Notifications, SubscribeWithId (c_uid c) (c_filters c)] @ [SinkStart] @ map SinkWrite cs"

definition call_run :: "(json \<Rightarrow> string option) \<Rightarrow> ('ev \<Rightarrow> json) \<Rightarrow> ('ev, 'f) call \<Rightarrow> bool" where
  "call_run ser evj c \<longleftrightarrow> c_filters c \<noteq> [] \<and>
     (case c_stage c of
        Registering \<Rightarrow> c_script c = [] \<and> c_did c = [Notifications, SubscribeWithId (c_uid c) (c_filters c)]
      | Forwarding \<Rightarrow> \<exists>cs. looped ser evj c cs False
      | Leaving \<Rightarrow> \<exists>cs. looped ser evj c cs True
      | Left r \<Rightarrow> \<exists>sub_res final_active.
          proxy_subscribe ser evj (c_sub c) (c_filters c) (c_uid c) sub_res (c_script c) final_active
            = (c_did c, Some r))"

lemma call_run_new: "filters \<noteq> [] \<Longrightarrow> call_run ser evj (new_call csub filters uid now)"
  by (simp add: call_run_def new_call_def)

lemma call_run_opened:
  assumes "call_run ser evj c" "c_stage c = Registering"
  shows "call_run ser evj (c\<lparr>c_stage := Forwarding, c_poll := p, c_did := c_did c @ [SinkStart]\<rparr>)"
  using assms by (simp add: call_run_def looped_def)

lemma call_run_refused:
  assumes "call_run ser evj c" "c_stage c = Registering"
  shows "call_run ser evj (c\<lparr>c_stage := Left (Inl (Subscribe e))\<rparr>)"
proof -
  have "proxy_subscribe ser evj (c_sub c) (c_filters c) (c_uid c) (Inl e) (c_script c) True
      = (c_did c, Some (Inl (Subscribe e)))" and "c_filters c \<noteq> []"
    using assms by (auto simp: call_run_def proxy_subscribe_def)
  moreover from this have "\<exists>sub_res final_active.
      proxy_subscribe ser evj (c_sub c) (c_filters c) (c_uid c) sub_res (c_script c) final_active
        = (c_did c, Some (Inl (Subscribe e)))"
    by (intro exI)
  ultimately show ?thesis by (simp add: call_run_def)
qed

lemma call_run_iterate:
  assumes "call_run ser evj c" "c_stage c = Forwarding"
  shows "call_run ser evj (iterate ser evj it c)"
proof -
  obtain cs where "looped ser evj c cs False" using assms by (auto simp: call_run_def)
  then have "looped ser evj (iterate ser evj it c) (cs @ fst (forward_loop ser evj (c_uid c) (c_sub c) [it]))
      (snd (forward_loop ser evj (c_uid c) (c_sub c) [it]))"
    using iterate_forward(1) [OF assms(2), of ser evj it] forward_loop_snoc [of ser evj "c_uid c" "c_sub c" "c_script c" cs it]
    by (simp add: looped_def del: forward_loop.simps(2))
  then show ?thesis
    using assms(1) iterate_forward(2) [OF assms(2), of ser evj it]
    by (auto simp: call_run_def simp del: forward_loop.simps(2))
qed

lemma call_run_leave:
  assumes "call_run ser evj c" "c_stage c = Leaving"
  shows "call_run ser evj (leave c)"
proof -
  obtain cs where "looped ser evj c cs True" and "c_filters c \<noteq> []" using assms by (auto simp: call_run_def)
  then have "proxy_subscribe ser evj (c_sub c) (c_filters c) (c_uid c) (Inr ()) (c_script c) (c_alive c)
      = (c_did (leave c), Some (Inr ()))"
    by (simp add: proxy_subscribe_def looped_def leave_def)
  then have "\<exists>sub_res final_active. proxy_subscribe ser evj (c_sub c) (c_filters c) (c_uid c) sub_res (c_script c) final_active
      = (c_did (leave c), Some (Inr ()))"
    by (intro exI)
  then show ?thesis using \<open>c_filters c \<noteq> []\<close> unfolding call_run_def by (simp add: leave_def)
qed

lemma call_run_cong:
  "call_run ser evj (c\<lparr>c_inbox := i\<rparr>) = call_run ser evj c" "call_run ser evj (c\<lparr>c_missed := m\<rparr>) = call_run ser evj c"
  "call_run ser evj (c\<lparr>c_poll := d\<rparr>) = call_run ser evj c" "call_run ser evj (c\<lparr>c_alive := b\<rparr>) = call_run ser evj c"
  "call_run ser evj (c\<lparr>c_lost := l\<rparr>) = call_run ser evj c"
  by (simp_all add: call_run_def looped_def split: stage.split)

text \<open>What reached a call, of everything that was broadcast since it made its receiver: all of it in
  order as long as it has not fallen behind.\<close>

definition reached :: "('ev, 'f) call \<Rightarrow> 'ev notification list" where
  "reached c = received (c_script c) @ c_inbox c"

definition fed :: "'ev notification list \<Rightarrow> ('ev, 'f) call \<Rightarrow> bool" where
  "fed sent c \<longleftrightarrow>
     c_joined c \<le> length sent \<and> subseq (reached c) (drop (c_joined c) sent)
     \<and> (c_lost c = 0 \<longrightarrow> prefix (reached c) (drop (c_joined c) sent)
          \<and> (listening c \<longrightarrow> reached c = drop (c_joined c) sent))"

lemma received_append: "received (its @ its') = received its @ received its'"
  by (induction its) (auto split: sel.split)

lemma fed_new: "fed sent (new_call csub filters uid (length sent))"
  by (simp add: fed_def reached_def new_call_def)

lemma fed_cong:
  assumes "fed sent c" "reached c' = reached c" "c_lost c' = c_lost c" "c_joined c' = c_joined c"
    "listening c' \<Longrightarrow> listening c"
  shows "fed sent c'"
  using assms by (simp add: fed_def)

lemma fed_offer:
  assumes "fed sent c"
  shows "fed (sent @ [n]) (offer cap n c)"
proof -
  have d: "drop (c_joined c) (sent @ [n]) = drop (c_joined c) sent @ [n]" using assms by (simp add: fed_def)
  have more: "subseq (reached c @ [n]) (drop (c_joined c) sent @ [n])"
    using assms by (simp add: fed_def list_emb_append_mono)
  show ?thesis
  proof (cases "listening c \<and> \<not> length (c_inbox c) < cap")
    case True
    have "subseq (received (c_script c) @ tl (c_inbox c @ [n])) (reached c @ [n])"
      unfolding reached_def append.assoc
      by (intro list_emb_append_mono subseq_order.order_refl suffix_imp_subseq suffix_tl)
    then show ?thesis
      using assms more True unfolding fed_def by (auto simp: offer_def reached_def d intro: subseq_order.trans)
  next
    case False
    then show ?thesis
      using assms more unfolding fed_def
      by (auto simp: offer_def reached_def d listening_def list_emb_append2 prefix_def)
  qed
qed

section \<open>All calls\<close>

definition subscribed :: "('ev, 'f) call \<Rightarrow> bool" where
  "subscribed c \<longleftrightarrow> c_stage c \<in> {Forwarding, Leaving}"

definition pool_inv :: "(json \<Rightarrow> string option) \<Rightarrow> ('ev \<Rightarrow> json) \<Rightarrow> ('ev, 'f) pool \<Rightarrow> bool" where
  "pool_inv ser evj s \<longleftrightarrow>
     (\<forall>k c. p_calls s k = Some c \<longrightarrow> call_run ser evj c \<and> fed (p_sent s) c)
     \<and> (\<forall>j k c d. p_calls s j = Some c \<and> p_calls s k = Some d \<and> c_uid c = c_uid d \<longrightarrow> j = k)
     \<and> (\<forall>uid. uid \<in> p_open s \<longleftrightarrow> (\<exists>k c. p_calls s k = Some c \<and> c_uid c = uid \<and> subscribed c))"

lemma pool_inv_new: "pool_inv ser evj new_pool"
  by (simp add: pool_inv_def new_pool_def)

lemma pool_inv_put:
  assumes "pool_inv ser evj s" "p_calls s k = Some c" "c_uid c' = c_uid c" "call_run ser evj c'" "fed (p_sent s) c'"
    "p_calls r = p_calls s" "p_sent r = p_sent s"
    "p_open r = (if subscribed c' then insert (c_uid c) (p_open s) else p_open s - {c_uid c})"
  shows "pool_inv ser evj (put k c' r)"
proof -
  have uid: "j = k" if "p_calls s j = Some d" "c_uid d = c_uid c" for j d
    using assms(1,2) that unfolding pool_inv_def by blast
  have calls: "p_calls (put k c' r) j = (if j = k then Some c' else p_calls s j)" for j
    using assms(6) by (simp add: put_def)
  have sent: "p_sent (put k c' r) = p_sent s" using assms(7) by (simp add: put_def)
  have opn: "uid \<in> p_open (put k c' r) \<longleftrightarrow>
      (\<exists>j d. p_calls (put k c' r) j = Some d \<and> c_uid d = uid \<and> subscribed d)" for uid
  proof (cases "uid = c_uid c")
    case True
    have "subscribed c'" if "p_calls (put k c' r) j = Some d" "c_uid d = uid" "subscribed d" for j d
      using that uid True by (auto simp: calls split: if_splits)
    moreover have "uid \<in> p_open (put k c' r) \<longleftrightarrow> subscribed c'" using True assms(8) by (simp add: put_def)
    moreover have "p_calls (put k c' r) k = Some c'" "c_uid c' = uid" using True assms(3) by (simp_all add: calls)
    ultimately show ?thesis by blast
  next
    case False
    then have "uid \<in> p_open (put k c' r) \<longleftrightarrow> uid \<in> p_open s" using assms(8) by (simp add: put_def)
    also have "\<dots> \<longleftrightarrow> (\<exists>j d. p_calls s j = Some d \<and> c_uid d = uid \<and> subscribed d)"
      using assms(1) by (simp add: pool_inv_def)
    also have "\<dots> \<longleftrightarrow> (\<exists>j d. p_calls (put k c' r) j = Some d \<and> c_uid d = uid \<and> subscribed d)"
    proof -
      have "p_calls s j = Some d \<and> c_uid d = uid \<longleftrightarrow> p_calls (put k c' r) j = Some d \<and> c_uid d = uid" for j d
        using False assms(2,3) by (auto simp: calls)
      then show ?thesis by metis
    qed
    finally show ?thesis .
  qed
  have run: "call_run ser evj d \<and> fed (p_sent (put k c' r)) d" if "p_calls (put k c' r) j = Some d" for j d
    using that assms(1,4,5) sent by (auto simp: calls pool_inv_def split: if_splits)
  have "i = j" if "p_calls (put k c' r) i = Some d" "p_calls (put k c' r) j = Some e" "c_uid d = c_uid e" for i j d e
    using that uid assms(1,3) by (auto simp: calls pool_inv_def split: if_splits)
  then show ?thesis using run opn unfolding pool_inv_def by blast
qed

lemma pool_inv_open:
  assumes "pool_inv ser evj s" "p_calls s k = Some c"
  shows "c_uid c \<in> p_open s \<longleftrightarrow> subscribed c"
  using assms unfolding pool_inv_def by (metis option.inject)

lemma pool_inv_put_same:
  assumes "pool_inv ser evj s" "p_calls s k = Some c" "c_uid c' = c_uid c" "call_run ser evj c'" "fed (p_sent s) c'"
    "subscribed c' = subscribed c"
  shows "pool_inv ser evj (put k c' s)"
  using pool_inv_open [OF assms(1,2)] assms(6) by (intro pool_inv_put [OF assms(1-5)]) auto

lemma pool_inv_each:
  assumes "pool_inv ser evj s"
    "\<And>c. call_run ser evj c \<Longrightarrow> call_run ser evj (f c)" "\<And>c. fed (p_sent s) c \<Longrightarrow> fed sent (f c)"
    "\<And>c. c_uid (f c) = c_uid c" "\<And>c. subscribed (f c) = subscribed c"
  shows "pool_inv ser evj (each_call f s\<lparr>p_sent := sent\<rparr>)"
proof -
  have "call_run ser evj d \<and> fed sent d" if "map_option f (p_calls s k) = Some d" for k d
    using assms(1-3) that by (auto simp: pool_inv_def)
  moreover have "j = k" if "map_option f (p_calls s j) = Some c" "map_option f (p_calls s k) = Some d" "c_uid c = c_uid d"
    for j k c d
    using assms(1,4) that by (auto simp: pool_inv_def)
  moreover have "uid \<in> p_open s \<longleftrightarrow> (\<exists>k c. map_option f (p_calls s k) = Some c \<and> c_uid c = uid \<and> subscribed c)" for uid
  proof -
    have "uid \<in> p_open s \<longleftrightarrow> (\<exists>k c. p_calls s k = Some c \<and> c_uid c = uid \<and> subscribed c)"
      using assms(1) by (simp add: pool_inv_def)
    then show ?thesis using assms(4,5) by auto
  qed
  ultimately show ?thesis unfolding pool_inv_def each_call_def by simp blast
qed

lemma pool_inv_begin:
  assumes "pool_inv ser evj s" "p_calls s k = None" "filters \<noteq> []" "\<And>j c. p_calls s j = Some c \<Longrightarrow> c_uid c \<noteq> uid"
  shows "pool_inv ser evj (put k (new_call csub filters uid (length (p_sent s))) s)"
proof -
  let ?c = "new_call csub filters uid (length (p_sent s))"
  have calls: "p_calls (put k ?c s) j = (if j = k then Some ?c else p_calls s j)" for j by (simp add: put_def)
  have new: "c_uid ?c = uid" "\<not> subscribed ?c" by (simp_all add: new_call_def subscribed_def)
  have own: "x = k" if "p_calls (put k ?c s) x = Some d" "c_uid d = uid" for x d
    using that assms(4) [of x d] by (auto simp: calls split: if_splits)
  have "call_run ser evj d \<and> fed (p_sent (put k ?c s)) d" if "p_calls (put k ?c s) j = Some d" for j d
    using that assms(1) call_run_new [OF assms(3)] fed_new
    by (auto simp: put_def pool_inv_def split: if_splits)
  moreover have "i = j" if "p_calls (put k ?c s) i = Some d" "p_calls (put k ?c s) j = Some e" "c_uid d = c_uid e" for i j d e
  proof (cases "i = k \<or> j = k")
    case True
    then have "c_uid d = uid" "c_uid e = uid" using that new(1) by (auto simp: calls)
    then show ?thesis using own that(1,2) by metis
  next
    case False
    then have "p_calls s i = Some d" "p_calls s j = Some e" using that by (simp_all add: calls)
    then show ?thesis using assms(1) that(3) unfolding pool_inv_def by blast
  qed
  moreover have "v \<in> p_open s \<longleftrightarrow> (\<exists>j d. p_calls (put k ?c s) j = Some d \<and> c_uid d = v \<and> subscribed d)" for v
  proof -
    have "p_calls s j = Some d \<and> c_uid d = v \<and> subscribed d
        \<longleftrightarrow> p_calls (put k ?c s) j = Some d \<and> c_uid d = v \<and> subscribed d" for j d
      using assms(2) new(2) by (auto simp: calls)
    moreover have "v \<in> p_open s \<longleftrightarrow> (\<exists>j d. p_calls s j = Some d \<and> c_uid d = v \<and> subscribed d)"
      using assms(1) by (simp add: pool_inv_def)
    ultimately show ?thesis by simp
  qed
  moreover have "p_open (put k ?c s) = p_open s" by (simp add: put_def)
  ultimately show ?thesis unfolding pool_inv_def by blast
qed

lemma subscribed_iterate: "c_stage c = Forwarding \<Longrightarrow> subscribed (iterate ser evj it c) = subscribed c"
  by (simp add: subscribed_def iterate_forward(2))

lemma reached_iterate:
  "reached (iterate ser evj it c) = received (c_script c) @ (case sel it of Recv n \<Rightarrow> [n] | _ \<Rightarrow> []) @ c_inbox c"
  by (simp add: reached_def received_append split: sel.split)

lemma pool_inv_iterate:
  assumes "pool_inv ser evj s" "p_calls s k = Some c" "c_stage c = Forwarding"
    "d = c\<lparr>c_inbox := i\<rparr> \<or> d = c\<lparr>c_missed := m\<rparr>" "reached (iterate ser evj it d) = reached c"
  shows "pool_inv ser evj (put k (iterate ser evj it d) s)"
proof -
  have c: "call_run ser evj c" "fed (p_sent s) c" using assms(1,2) by (auto simp: pool_inv_def)
  have d: "call_run ser evj d" "c_stage d = Forwarding" "c_uid d = c_uid c" "subscribed d = subscribed c"
    "c_lost d = c_lost c" "c_joined d = c_joined c"
    using assms(3,4) c(1) by (auto simp: call_run_cong subscribed_def)
  have "listening c" using assms(3) by (simp add: listening_def)
  then have "fed (p_sent s) (iterate ser evj it d)"
    using d(5,6) assms(5) by (intro fed_cong [OF c(2)]) simp_all
  then show ?thesis
    using call_run_iterate [OF d(1,2)] subscribed_iterate [OF d(2)] d(3,4)
    by (intro pool_inv_put_same [OF assms(1,2)]) simp_all
qed

lemma pool_inv_step:
  assumes "pool_step ser evj cap t s s'" "pool_inv ser evj s"
  shows "pool_inv ser evj s'"
proof -
  have run: "call_run ser evj c" and fed: "fed (p_sent s) c" if "p_calls s k = Some c" for k c
    using assms(2) that by (auto simp: pool_inv_def)
  show ?thesis
    using assms(1)
  proof cases
    case (begins k filters uid csub)
    then show ?thesis using pool_inv_begin [OF assms(2)] by simp
  next
    case (opened k c)
    show ?thesis
      unfolding opened(2)
      by (rule pool_inv_put [OF assms(2) opened(3)])
        (use call_run_opened [OF run opened(4)] opened fed in
          \<open>auto simp: subscribed_def listening_def reached_def intro: fed_cong [OF fed [OF opened(3)]]\<close>)
  next
    case (refused k c e)
    show ?thesis
      unfolding refused(2)
      by (rule pool_inv_put_same [OF assms(2) refused(3)])
        (use call_run_refused [OF run refused(4)] refused in
          \<open>auto simp: subscribed_def listening_def reached_def intro: fed_cong [OF fed [OF refused(3)]]\<close>)
  next
    case (broadcast n)
    have "pool_inv ser evj (each_call (offer cap n) s\<lparr>p_sent := p_sent s @ [n]\<rparr>)"
      by (rule pool_inv_each [OF assms(2)])
        (auto simp: fed_offer, auto simp: offer_def call_run_cong subscribed_def split: if_splits)
    then show ?thesis using broadcast(2) by simp
  next
    case (recv k c n ns w)
    then show ?thesis
      using pool_inv_iterate [OF assms(2) recv(3,4), of "c\<lparr>c_inbox := ns\<rparr>" ns 0 "\<lparr>sel = Recv n, write_ok = w, active = c_alive c\<rparr>"]
      by (simp add: reached_iterate) (simp add: reached_def)
  next
    case (lagged k c m w)
    then show ?thesis
      using pool_inv_iterate [OF assms(2) lagged(3,4), of "c\<lparr>c_missed := 0\<rparr>" "[]" 0 "\<lparr>sel = Lagged m, write_ok = w, active = c_alive c\<rparr>"]
      by (simp add: reached_iterate) (simp add: reached_def)
  next
    case (closed k c w)
    then show ?thesis
      using pool_inv_iterate [OF assms(2) closed(3,4), of c "c_inbox c" 0 "\<lparr>sel = RecvClosed, write_ok = w, active = c_alive c\<rparr>"] by (simp add: reached_iterate) (simp add: reached_def)
  next
    case (tick k c w)
    then show ?thesis
      using pool_inv_iterate [OF assms(2) tick(3,4), of c "c_inbox c" 0 "\<lparr>sel = Tick, write_ok = w, active = c_alive c\<rparr>"] by (simp add: reached_iterate) (simp add: reached_def)
  next
    case (unwinds k c)
    show ?thesis
      unfolding unwinds(2)
      by (rule pool_inv_put [OF assms(2) unwinds(3)])
        (use call_run_leave [OF run unwinds(4)] unwinds in
          \<open>auto simp: subscribed_def listening_def reached_def leave_def intro: fed_cong [OF fed [OF unwinds(3)]]\<close>)
  next
    case (client_gone k c)
    show ?thesis
      unfolding client_gone(2)
      by (rule pool_inv_put_same [OF assms(2) client_gone(3)])
        (use run client_gone in
          \<open>auto simp: subscribed_def listening_def reached_def call_run_cong intro: fed_cong [OF fed [OF client_gone(3)]]\<close>)
  next
    case hangs_up
    then show ?thesis using assms(2) by (simp add: pool_inv_def)
  next
    case passes
    have "pool_inv ser evj (each_call (\<lambda>c. c\<lparr>c_poll := c_poll c - t\<rparr>) s\<lparr>p_sent := p_sent s\<rparr>)"
      by (rule pool_inv_each [OF assms(2)])
        (auto simp: call_run_cong subscribed_def listening_def reached_def fed_def)
    then show ?thesis using passes by (simp add: each_call_def)
  qed
qed

lemma pool_run_inv: "pool_run ser evj cap t s s' \<Longrightarrow> pool_inv ser evj s \<Longrightarrow> pool_inv ser evj s'"
  by (induction rule: pool_run.induct) (auto intro: pool_inv_step)

lemma pool_reachable_inv: "pool_reachable ser evj cap s \<Longrightarrow> pool_inv ser evj s"
  using pool_run_inv pool_inv_new by blast

lemma stream_spec_prefix:
  "prefix ns ms \<Longrightarrow> prefix (stream_spec ser evj uid csub ns) (stream_spec ser evj uid csub ms)"
proof (induction ns arbitrary: ms)
  case (Cons n ns)
  from Cons.prems obtain ms' where "ms = n # ms'" "prefix ns ms'" by (cases ms) auto
  then show ?case using Cons.IH by (auto split: option.split forward.split)
qed simp

lemma call_writes:
  assumes "call_run ser evj c"
  shows "prefix (sink_writes (c_did c)) (stream_spec ser evj (c_uid c) (c_sub c) (received (c_script c)))"
    and "c_stage c = Forwarding \<Longrightarrow>
      sink_writes (c_did c) = stream_spec ser evj (c_uid c) (c_sub c) (received (c_script c))"
proof -
  have loop: "prefix (sink_writes (c_did c)) (stream_spec ser evj (c_uid c) (c_sub c) (received (c_script c)))"
    if "looped ser evj c cs fin" for cs fin
    using that forward_loop_prefix [of ser evj "c_uid c" "c_sub c" "c_script c"] by (simp add: looped_def)
  have whole: "prefix (sink_writes (c_did c)) (stream_spec ser evj (c_uid c) (c_sub c) (received (c_script c)))"
    if "proxy_subscribe ser evj (c_sub c) (c_filters c) (c_uid c) sub_res (c_script c) act = (c_did c, r)" for sub_res act r
    using subscribe_writes [of ser evj "c_sub c" "c_filters c" "c_uid c" sub_res "c_script c" act] that by simp
  show "prefix (sink_writes (c_did c)) (stream_spec ser evj (c_uid c) (c_sub c) (received (c_script c)))"
    using assms loop whole by (auto simp: call_run_def split: stage.splits)
  show "sink_writes (c_did c) = stream_spec ser evj (c_uid c) (c_sub c) (received (c_script c))"
    if "c_stage c = Forwarding"
    using assms that forward_loop_running [of ser evj "c_uid c" "c_sub c" "c_script c"]
    by (auto simp: call_run_def looped_def)
qed

lemma calls_written:
  assumes "pool_inv ser evj s" "p_calls s k = Some c"
  shows "c_joined c \<le> length (p_sent s)"
    and "\<exists>ns. subseq ns (drop (c_joined c) (p_sent s))
      \<and> prefix (sink_writes (c_did c)) (stream_spec ser evj (c_uid c) (c_sub c) ns)"
    and "c_lost c = 0 \<Longrightarrow>
      prefix (sink_writes (c_did c)) (stream_spec ser evj (c_uid c) (c_sub c) (drop (c_joined c) (p_sent s)))"
    and "c_lost c = 0 \<Longrightarrow> c_stage c = Forwarding \<Longrightarrow> c_inbox c = [] \<Longrightarrow>
      sink_writes (c_did c) = stream_spec ser evj (c_uid c) (c_sub c) (drop (c_joined c) (p_sent s))"
proof -
  let ?spec = "stream_spec ser evj (c_uid c) (c_sub c)"
  have run: "call_run ser evj c" and fed: "fed (p_sent s) c"
    using assms by (simp_all add: pool_inv_def)
  note writes = call_writes [OF run]
  have "subseq (received (c_script c)) (drop (c_joined c) (p_sent s))"
    using fed unfolding fed_def reached_def by (meson list_emb_append2 prefixI prefix_imp_subseq subseq_order.trans)
  then show "\<exists>ns. subseq ns (drop (c_joined c) (p_sent s)) \<and> prefix (sink_writes (c_did c)) (?spec ns)"
    using writes(1) by blast
  show "prefix (sink_writes (c_did c)) (?spec (drop (c_joined c) (p_sent s)))" if "c_lost c = 0"
  proof -
    have "prefix (received (c_script c)) (drop (c_joined c) (p_sent s))"
      using fed that unfolding fed_def reached_def by (meson append_prefixD)
    then show ?thesis using writes(1) stream_spec_prefix prefix_order.trans by blast
  qed
  show "sink_writes (c_did c) = ?spec (drop (c_joined c) (p_sent s))"
    if "c_lost c = 0" "c_stage c = Forwarding" "c_inbox c = []"
  proof -
    have "received (c_script c) = drop (c_joined c) (p_sent s)"
      using fed that by (simp add: fed_def reached_def listening_def)
    then show ?thesis using writes(2) [OF that(2)] by simp
  qed
  show "c_joined c \<le> length (p_sent s)" using fed by (simp add: fed_def)
qed

section \<open>Properties\<close>

text \<open>A pool with one call, which has been served one message.\<close>

definition attended_call :: "bool \<Rightarrow> (unit, unit) call" where
  "attended_call alive =
     \<lparr>c_sub = ''s'', c_uid = ''a'', c_filters = [()], c_stage = Forwarding, c_inbox = [], c_missed = 0,
      c_poll = 1000, c_alive = alive, c_lost = 0, c_joined = 0,
      c_script = [\<lparr>sel = Recv (NMessage ''r'' (REndOfStoredEvents ''a'')), write_ok = True, active = True\<rparr>],
      c_did = [Notifications, SubscribeWithId ''a'' [()], SinkStart, SinkWrite ''x'']\<rparr>"

definition attended :: "bool \<Rightarrow> (unit, unit) pool" where
  "attended alive = \<lparr>p_calls = [0 \<mapsto> attended_call alive], p_open = {''a''}, p_hung_up = False,
     p_sent = [NMessage ''r'' (REndOfStoredEvents ''a'')]\<rparr>"

lemma each_call_single: "p_calls s = [k \<mapsto> c] \<Longrightarrow> each_call f s = s\<lparr>p_calls := [k \<mapsto> f c]\<rparr>"
  by (simp add: each_call_def fun_eq_iff)

lemma pool_run_step: "pool_run ser evj cap t s s' \<Longrightarrow> pool_step ser evj cap 0 s' s'' \<Longrightarrow> pool_run ser evj cap t s s''"
  using pool_run.on [of ser evj cap t s s' 0 s''] by simp

lemma attended_run:
  "pool_run (\<lambda>_. Some ''x'') (\<lambda>_. JNull) 4 0 (put 0 (new_call ''s'' [()] ''a'' 0) new_pool) (attended alive)"
proof -
  let ?run = "pool_run (\<lambda>_. Some ''x'') (\<lambda>_ :: unit. JNull) 4 0 (put 0 (new_call ''s'' [()] ''a'' 0) new_pool :: (unit, unit) pool)"
  let ?n = "NMessage ''r'' (REndOfStoredEvents ''a'') :: unit notification"
  let ?c = "new_call ''s'' [()] ''a'' 0 :: (unit, unit) call"
  let ?c1 = "?c\<lparr>c_stage := Forwarding, c_poll := sink_active_poll, c_did := c_did ?c @ [SinkStart]\<rparr>"
  let ?s1 = "\<lparr>p_calls = [0 \<mapsto> ?c], p_open = {}, p_hung_up = False, p_sent = []\<rparr> :: (unit, unit) pool"
  let ?s2 = "\<lparr>p_calls = [0 \<mapsto> ?c1], p_open = {''a''}, p_hung_up = False, p_sent = []\<rparr> :: (unit, unit) pool"
  let ?s3 = "\<lparr>p_calls = [0 \<mapsto> ?c1\<lparr>c_inbox := [?n]\<rparr>], p_open = {''a''}, p_hung_up = False, p_sent = [?n]\<rparr> :: (unit, unit) pool"
  have "?run ?s1"
    using pool_run.here by (simp add: put_def new_pool_def)
  then have at: "?run ?s2"
    using pool_run_step [OF _ pool_step.opened [of ?s1 0 ?c]] by (simp add: put_def new_call_def)
  have "each_call (offer 4 ?n) ?s2\<lparr>p_sent := p_sent ?s2 @ [?n]\<rparr> = ?s3"
    using each_call_single [of ?s2 0 ?c1 "offer 4 ?n"] by (simp add: offer_def listening_def new_call_def)
  then have "?run ?s3" using pool_run_step [OF at pool_step.broadcast [of ?s2 _ _ 4 ?n]] by simp
  then have on: "?run (attended True)"
    using pool_run_step [OF _ pool_step.recv [of ?s3 0 "?c1\<lparr>c_inbox := [?n]\<rparr>" ?n "[]" "\<lambda>_. Some ''x''" _ _ True]]
    by (simp add: put_def iterate_def Let_def new_call_def stream_write_def chunk_def attended_def attended_call_def sink_active_poll_def)
  then show ?thesis
    using pool_run_step [OF on pool_step.client_gone [of "attended True" 0 "attended_call True"]]
    by (cases alive) (simp_all add: put_def attended_def attended_call_def)
qed

lemma pool_run_trans:
  "pool_run ser evj cap u s' s'' \<Longrightarrow> pool_run ser evj cap t s s' \<Longrightarrow> pool_run ser evj cap (t + u) s s''"
proof (induction rule: pool_run.induct)
  case (on u s' r d s'')
  then show ?case using pool_run.on [of ser evj cap "t + u" s r d s''] by (simp add: add.assoc)
qed simp

lemma attended_reachable: "pool_run (\<lambda>_. Some ''x'') (\<lambda>_. JNull) 4 0 new_pool (attended alive)"
proof -
  have "pool_run (\<lambda>_. Some ''x'') (\<lambda>_ :: unit. JNull) 4 0 (new_pool :: (unit, unit) pool) (put 0 (new_call ''s'' [()] ''a'' 0) new_pool)"
    using pool_run_step [OF pool_run.here pool_step.begins [of new_pool 0 "[()]" "''a''" _ _ _ "''s''"]]
    by (simp add: new_pool_def)
  then show ?thesis using pool_run_trans [OF attended_run, of 0] by simp
qed

lemma attended_pool: "pool_reachable (\<lambda>_. Some ''x'') (\<lambda>_. JNull) 4 (attended alive)"
  using attended_reachable by blast

lemma attended_calls: "p_calls (attended alive) 0 = Some (attended_call alive)"
  by (simp add: attended_def)

lemma attended_call_fields:
  "c_stage (attended_call alive) = Forwarding" "c_sub (attended_call alive) = ''s''" "c_uid (attended_call alive) = ''a''"
  "c_filters (attended_call alive) = [()]" "c_inbox (attended_call alive) = []" "c_lost (attended_call alive) = 0"
  "c_missed (attended_call alive) = 0" "c_joined (attended_call alive) = 0" "c_alive (attended_call alive) = alive"
  by (simp_all add: attended_call_def)

text \<open>C4: however the subscribe calls of a server, the upstream, the clients and the clock interleave,
  every call behaves as the function of the code does when it runs alone on what this call has
  received: while it is in its loop it has done exactly the effects of \<open>proxy_subscribe\<close> on its
  own script, which has not returned yet; when it is leaving, only the clean-up is missing; when it
  has returned, effects and result are those of the function.\<close>
theorem calls_refine:
  assumes "pool_reachable ser evj cap s" "p_calls s k = Some c"
  shows "case c_stage c of
       Registering \<Rightarrow> \<forall>act e. proxy_subscribe ser evj (c_sub c) (c_filters c) (c_uid c) (Inl e) (c_script c) act
         = (c_did c, Some (Inl (Subscribe e)))
     | Forwarding \<Rightarrow> \<forall>act. proxy_subscribe ser evj (c_sub c) (c_filters c) (c_uid c) (Inr ()) (c_script c) act
         = (c_did c, None)
     | Leaving \<Rightarrow> \<forall>act. proxy_subscribe ser evj (c_sub c) (c_filters c) (c_uid c) (Inr ()) (c_script c) act
         = (c_did c @ [Unsubscribe (c_uid c)] @ (if act then [SinkClose] else []), Some (Inr ()))
     | Left r \<Rightarrow> \<exists>sub_res act.
         proxy_subscribe ser evj (c_sub c) (c_filters c) (c_uid c) sub_res (c_script c) act = (c_did c, Some r)"
proof -
  have "call_run ser evj c" using pool_reachable_inv [OF assms(1)] assms(2) by (simp add: pool_inv_def)
  then show ?thesis
  proof (cases "c_stage c")
    case Registering
    then show ?thesis using \<open>call_run ser evj c\<close> by (simp add: call_run_def proxy_subscribe_def)
  next
    case Forwarding
    then obtain cs where "looped ser evj c cs False" "c_filters c \<noteq> []"
      using \<open>call_run ser evj c\<close> by (auto simp: call_run_def)
    then show ?thesis using Forwarding by (simp add: looped_def proxy_subscribe_def)
  next
    case Leaving
    then obtain cs where "looped ser evj c cs True" "c_filters c \<noteq> []"
      using \<open>call_run ser evj c\<close> by (auto simp: call_run_def)
    then show ?thesis using Leaving by (simp add: looped_def proxy_subscribe_def)
  next
    case (Left r)
    then show ?thesis using \<open>call_run ser evj c\<close> by (simp add: call_run_def)
  qed
qed

theorem calls_refine_witness:
  "proxy_subscribe (\<lambda>_. Some ''x'') (\<lambda>_. JNull) ''s'' [()] ''a'' (Inr ()) (c_script (attended_call True)) True
     = (c_did (attended_call True), None)"
  using calls_refine [OF attended_pool attended_calls, of True]
  by (simp only: attended_call_fields stage.case)

text \<open>C3: no upstream subscription leaks, and none is shared: the subscriptions that are open upstream
  are exactly those of the calls that are forwarding or about to clean up, each belongs to one
  call, and a call that has returned, with success or with an error, has none.\<close>
theorem calls_no_leak:
  assumes "pool_reachable ser evj cap s"
  shows "p_open s = {c_uid c | k c. p_calls s k = Some c \<and> c_stage c \<in> {Forwarding, Leaving}}
    \<and> (\<forall>j k c d. p_calls s j = Some c \<and> p_calls s k = Some d \<and> c_uid c = c_uid d \<longrightarrow> j = k)
    \<and> (\<forall>k c r. p_calls s k = Some c \<and> c_stage c = Left r \<longrightarrow> c_uid c \<notin> p_open s)"
proof -
  have inv: "pool_inv ser evj s" by (rule pool_reachable_inv [OF assms])
  then have "p_open s = {c_uid c | k c. p_calls s k = Some c \<and> subscribed c}"
    by (intro set_eqI) (simp add: pool_inv_def, blast)
  moreover have "c_uid c \<notin> p_open s" if "p_calls s k = Some c" "c_stage c = Left r" for k c r
    using pool_inv_open [OF inv that(1)] that(2) by (simp add: subscribed_def)
  moreover have "\<forall>j k c d. p_calls s j = Some c \<and> p_calls s k = Some d \<and> c_uid c = c_uid d \<longrightarrow> j = k"
    using inv unfolding pool_inv_def by blast
  ultimately show ?thesis unfolding subscribed_def by blast
qed

theorem calls_no_leak_witness:
  "''a'' \<in> p_open (attended True) \<and> p_open (attended True) =
     {c_uid c | k c. p_calls (attended True) k = Some c \<and> c_stage c \<in> {Forwarding, Leaving}}"
  by (rule conjI [OF _ calls_no_leak [OF attended_pool, THEN conjunct1]]) (simp add: attended_def)

text \<open>C11: a call that has not fallen behind misses nothing of what was broadcast since it made its
  receiver, which is before it asked for the subscription: it has written the frames of its own
  messages in order, up to some point, and all of them once it has read its inbox. A call that has
  fallen behind has still written frames of broadcast messages only, in order.\<close>
theorem calls_complete:
  assumes "pool_reachable ser evj cap s" "p_calls s k = Some c"
  shows "c_joined c \<le> length (p_sent s)
    \<and> (\<exists>ns. subseq ns (drop (c_joined c) (p_sent s))
         \<and> prefix (sink_writes (c_did c)) (stream_spec ser evj (c_uid c) (c_sub c) ns))
    \<and> (c_lost c = 0 \<longrightarrow>
         prefix (sink_writes (c_did c)) (stream_spec ser evj (c_uid c) (c_sub c) (drop (c_joined c) (p_sent s))))
    \<and> (c_lost c = 0 \<and> c_stage c = Forwarding \<and> c_inbox c = [] \<longrightarrow>
         sink_writes (c_did c) = stream_spec ser evj (c_uid c) (c_sub c) (drop (c_joined c) (p_sent s)))"
  using calls_written [OF pool_reachable_inv [OF assms(1)] assms(2)] by blast

theorem calls_complete_witness:
  "sink_writes (c_did (attended_call True)) =
     stream_spec (\<lambda>_. Some ''x'') (\<lambda>_. JNull) ''a'' ''s'' (p_sent (attended True))"
  using calls_complete [OF attended_pool attended_calls, of True]
  by (simp only: attended_call_fields drop_0 simp_thms)

end
