(* ===== verification/Pool_Poll.thy ===== *)
theory Pool_Poll
  imports Pool
begin

text \<open>
  The liveness poll of \<open>Proxy::subscribe\<close> over time: runs of the pool in which no call dawdles, and
  what becomes in them of the subscription of a client that has dropped without a signal.
\<close>

section \<open>Runs in which calls do not dawdle\<close>

text \<open>Nothing is due for any of the calls in \<open>K\<close> within \<open>d\<close>: none has something to read, and no poll
  would be overslept.\<close>

definition nothing_due :: "nat set \<Rightarrow> nat \<Rightarrow> ('ev, 'f) pool \<Rightarrow> bool" where
  "nothing_due K d s \<longleftrightarrow>
     (\<forall>k \<in> K. \<forall>c. p_calls s k = Some c \<and> c_stage c = Forwarding
        \<longrightarrow> \<not> p_hung_up s \<and> c_inbox c = [] \<and> c_missed c = 0 \<and> d \<le> c_poll c)"

text \<open>A run in which the executor does not leave the calls in \<open>K\<close> waiting: time passes only while
  nothing is due for them. The other calls may be as slow as they like. In a prompt run no call is
  left waiting.\<close>

inductive attentive_run ::
  "nat set \<Rightarrow> (json \<Rightarrow> string option) \<Rightarrow> ('ev \<Rightarrow> json) \<Rightarrow> nat \<Rightarrow> nat \<Rightarrow> ('ev, 'f) pool \<Rightarrow> ('ev, 'f) pool \<Rightarrow> bool"
  for K ser evj cap
where
  stay: "attentive_run K ser evj cap 0 s s"
| go: "attentive_run K ser evj cap t s s' \<Longrightarrow> pool_step ser evj cap d s' s'' \<Longrightarrow>
     (0 < d \<Longrightarrow> nothing_due K d s') \<Longrightarrow> attentive_run K ser evj cap (t + d) s s''"

abbreviation prompt_run ::
  "(json \<Rightarrow> string option) \<Rightarrow> ('ev \<Rightarrow> json) \<Rightarrow> nat \<Rightarrow> nat \<Rightarrow> ('ev, 'f) pool \<Rightarrow> ('ev, 'f) pool \<Rightarrow> bool"
where
  "prompt_run \<equiv> attentive_run UNIV"

lemma attentive_run_is_run: "attentive_run K ser evj cap t s s' \<Longrightarrow> pool_run ser evj cap t s s'"
  by (induction rule: attentive_run.induct) (auto intro: pool_run.intros)

lemma attentive_run_step:
  "attentive_run K ser evj cap t s s' \<Longrightarrow> pool_step ser evj cap 0 s' s'' \<Longrightarrow> attentive_run K ser evj cap t s s''"
  using attentive_run.go [of K ser evj cap t s s' 0 s''] by simp

section \<open>A busy upstream\<close>

text \<open>The one call of a pool, stranded: its client is gone, and it has nothing to read.\<close>

definition stranded :: "nat \<Rightarrow> string \<Rightarrow> ('ev, 'f) pool \<Rightarrow> bool" where
  "stranded k uid s \<longleftrightarrow>
     (\<exists>c. p_calls s = [k \<mapsto> c] \<and> c_stage c = Forwarding \<and> \<not> c_alive c \<and> c_inbox c = [] \<and> c_missed c = 0 \<and> c_uid c = uid)
     \<and> \<not> p_hung_up s"

text \<open>A message of no concern resets the clock of the poll.\<close>

lemma busy_round:
  fixes s :: "('ev, 'f) pool" and n :: "'ev notification"
  assumes "stranded k uid s" "\<not> concerns uid n" "0 < cap"
  shows "\<exists>s'. (\<forall>t r. prompt_run ser evj cap t r s \<longrightarrow> prompt_run ser evj cap (t + 999) r s') \<and> stranded k uid s' \<and> p_open s' = p_open s"
proof -
  obtain c where c: "p_calls s = [k \<mapsto> c]" "c_stage c = Forwarding" "\<not> c_alive c" "c_inbox c = []" "c_missed c = 0"
    "c_uid c = uid" and up: "\<not> p_hung_up s"
    using assms(1) by (auto simp: stranded_def)
  let ?it = "\<lparr>sel = Recv n, write_ok = True, active = c_alive (c\<lparr>c_inbox := [n]\<rparr>)\<rparr>"
  let ?d = "c\<lparr>c_inbox := [n]\<rparr>"
  let ?e = "iterate ser evj ?it (?d\<lparr>c_inbox := []\<rparr>)"
  let ?s1 = "each_call (offer cap n) s\<lparr>p_sent := p_sent s @ [n]\<rparr>"
  let ?s2 = "put k ?e ?s1"
  let ?s3 = "each_call (\<lambda>c. c\<lparr>c_poll := c_poll c - 999\<rparr>) ?s2"
  have s1: "p_calls ?s1 = [k \<mapsto> ?d]"
    using c assms(3) by (simp add: each_call_single offer_def listening_def)
  have e: "c_stage ?e = Forwarding" "c_alive ?e = c_alive c" "c_inbox ?e = []" "c_missed ?e = 0" "c_poll ?e = 1000" "c_uid ?e = uid"
    using c assms(2) by (simp_all add: iterate_def Let_def sink_active_poll_def)
  have s2: "p_calls ?s2 = [k \<mapsto> ?e]" "p_hung_up ?s2 = p_hung_up s" using s1 by (simp_all add: put_def each_call_def)
  have steps: "pool_step ser evj cap 0 s ?s1" "pool_step ser evj cap 0 ?s1 ?s2" "pool_step ser evj cap 999 ?s2 ?s3"
    using pool_step.broadcast [OF up] pool_step.recv [of ?s1 k ?d n "[]" ser evj cap True] pool_step.passes s1 c by auto
  have "nothing_due UNIV 999 ?s2" using s2 e up by (simp add: nothing_due_def)
  then have "prompt_run ser evj cap (t + 999) r ?s3" if "prompt_run ser evj cap t r s" for t r
    using attentive_run_step [OF attentive_run_step [OF that steps(1)] steps(2)] steps(3) by (auto intro: attentive_run.go)
  moreover have "stranded k uid ?s3"
    unfolding stranded_def
    by (intro conjI exI [of _ "?e\<lparr>c_poll := c_poll ?e - 999\<rparr>"])
      (use each_call_single [OF s2(1)] e s2(2) up c(3) in simp_all)
  moreover have "p_open ?s3 = p_open s" by (simp add: each_call_def put_def)
  ultimately show ?thesis by blast
qed

lemma busy_rounds:
  fixes s :: "('ev, 'f) pool" and n :: "'ev notification"
  assumes "stranded k uid s" "\<not> concerns uid n" "0 < cap"
  shows "\<exists>s'. prompt_run ser evj cap (999 * m) s s' \<and> stranded k uid s' \<and> p_open s' = p_open s"
proof (induction m)
  case 0
  then show ?case using assms(1) attentive_run.stay by fastforce
next
  case (Suc m)
  then obtain r where r: "prompt_run ser evj cap (999 * m) s r" "stranded k uid r" "p_open r = p_open s" by blast
  obtain s' where "\<forall>t q. prompt_run ser evj cap t q r \<longrightarrow> prompt_run ser evj cap (t + 999) q s'" "stranded k uid s'" "p_open s' = p_open r"
    using busy_round [OF r(2) assms(2,3)] by blast
  moreover from this r(1) have "prompt_run ser evj cap (999 * m + 999) s s'" by blast
  ultimately show ?case using r(3) by (intro exI [of _ s']) (simp add: add.commute)
qed

section \<open>A quiet upstream\<close>

lemma pool_step_sent: "pool_step ser evj cap d s s' \<Longrightarrow> length (p_sent s) \<le> length (p_sent s')"
  by (erule pool_stepE) (simp_all add: put_def each_call_def)

lemma attentive_run_sent: "attentive_run K ser evj cap t s s' \<Longrightarrow> length (p_sent s) \<le> length (p_sent s')"
  by (induction rule: attentive_run.induct) (auto dest!: pool_step_sent)

text \<open>How long the poll of a call has been going, while it waits for a client that is gone.\<close>

definition polled :: "string \<Rightarrow> nat \<Rightarrow> nat \<Rightarrow> nat \<Rightarrow> ('ev, 'f) pool \<Rightarrow> bool" where
  "polled uid k p t s \<longleftrightarrow>
     (\<exists>c. p_calls s k = Some c \<and> c_uid c = uid \<and> c_stage c \<noteq> Registering
        \<and> (c_stage c = Forwarding \<longrightarrow> \<not> c_alive c \<and> c_inbox c = [] \<and> c_missed c = 0 \<and> c_poll c + t = p))"

lemma polled_put: "polled uid k p t s \<Longrightarrow> j \<noteq> k \<Longrightarrow> p_calls r = p_calls s \<Longrightarrow> polled uid k p t (put j c r)"
  by (simp add: polled_def put_def)

lemma polled_put_left:
  "c_uid c = uid \<Longrightarrow> c_stage c \<noteq> Registering \<Longrightarrow> c_stage c \<noteq> Forwarding \<Longrightarrow> polled uid k p t (put k c r)"
  by (simp add: polled_def put_def)

lemma polled_step:
  assumes "pool_step ser evj cap d s s'" "polled uid k p t s" "0 < d \<Longrightarrow> nothing_due {k} d s" "length (p_sent s') = length (p_sent s)"
  shows "polled uid k p (t + d) s'"
proof -
  obtain c where c: "p_calls s k = Some c" "c_stage c \<noteq> Registering" "c_uid c = uid"
    "c_stage c = Forwarding \<Longrightarrow> \<not> c_alive c \<and> c_inbox c = [] \<and> c_missed c = 0 \<and> c_poll c + t = p"
    using assms(2) by (auto simp: polled_def)
  show ?thesis
    using assms(1)
  proof cases
    case (begins j filters v csub)
    then have "j \<noteq> k" using c(1,2) by auto
    then show ?thesis using polled_put [OF assms(2)] begins(1,2) by simp
  next
    case (opened j e)
    then have "j \<noteq> k" using c(1,2) by auto
    then show ?thesis using polled_put [OF assms(2)] opened(1,2) by simp
  next
    case (refused j e)
    then have "j \<noteq> k" using c(1,2) by auto
    then show ?thesis using polled_put [OF assms(2)] refused(1,2) by simp
  next
    case broadcast
    then show ?thesis using assms(4) by (simp add: each_call_def)
  next
    case (recv j e n ns w)
    then show ?thesis using polled_put [OF assms(2), of j] c by (cases "j = k") auto
  next
    case (lagged j e m w)
    then show ?thesis using polled_put [OF assms(2), of j] c by (cases "j = k") auto
  next
    case (closed j e w)
    then show ?thesis
      using polled_put [OF assms(2), of j] c by (cases "j = k") (auto simp: iterate_def Let_def intro: polled_put_left)
  next
    case (tick j e w)
    then show ?thesis
      using polled_put [OF assms(2), of j] c by (cases "j = k") (auto simp: iterate_def Let_def intro: polled_put_left)
  next
    case (unwinds j e)
    then show ?thesis
      using polled_put [OF assms(2), of j] c by (cases "j = k") (auto simp: leave_def intro: polled_put_left)
  next
    case (client_gone j e)
    then show ?thesis
      using polled_put [OF assms(2), of j] c by (cases "j = k") (auto simp: polled_def put_def)
  next
    case hangs_up
    then show ?thesis using assms(2) by (simp add: polled_def)
  next
    case passes
    have "d \<le> c_poll c" if "c_stage c = Forwarding"
      using assms(3) c(1) that by (cases "d = 0") (auto simp: nothing_due_def)
    then show ?thesis using passes c by (auto simp: polled_def each_call_def)
  qed
qed

lemma polled_run:
  assumes "attentive_run {k} ser evj cap t s s'" "polled uid k p 0 s" "length (p_sent s') = length (p_sent s)"
  shows "polled uid k p t s'"
  using assms
proof (induction rule: attentive_run.induct)
  case (go t s s' d s'')
  have "length (p_sent s') = length (p_sent s)" "length (p_sent s'') = length (p_sent s')"
    using attentive_run_sent [OF go.hyps(1)] pool_step_sent [OF go.hyps(2)] go.prems(2) by auto
  then show ?case using go.IH [OF go.prems(1)] go.hyps(3) by (intro polled_step [OF go.hyps(2)]) auto
qed simp

text \<open>No poll is ever further away than its period.\<close>

definition polls_soon :: "('ev, 'f) pool \<Rightarrow> bool" where
  "polls_soon s \<longleftrightarrow> (\<forall>k c. p_calls s k = Some c \<longrightarrow> c_poll c \<le> sink_active_poll)"

lemma polls_soon_put: "polls_soon s \<Longrightarrow> c_poll c \<le> sink_active_poll \<Longrightarrow> p_calls r = p_calls s \<Longrightarrow> polls_soon (put k c r)"
  by (simp add: polls_soon_def put_def)

lemma polls_soon_each: "polls_soon s \<Longrightarrow> (\<And>c. c_poll (f c) \<le> c_poll c) \<Longrightarrow> polls_soon (each_call f s)"
  unfolding polls_soon_def each_call_def by (auto intro: order_trans)

lemma polls_soon_step:
  assumes "pool_step ser evj cap d s s'" "polls_soon s"
  shows "polls_soon s'"
proof -
  have soon: "c_poll c \<le> sink_active_poll" if "p_calls s k = Some c" for k c
    using assms(2) that by (simp add: polls_soon_def)
  have each: "polls_soon (each_call f s\<lparr>p_sent := sent\<rparr>)" if "\<And>c. c_poll (f c) \<le> c_poll c" for f sent
    using polls_soon_each [of s f, OF assms(2) that] by (simp add: polls_soon_def)
  show ?thesis
    using assms(1)
    by cases (auto simp: new_call_def leave_def offer_def polls_soon_def [of "s\<lparr>p_hung_up := True\<rparr>"]
        intro!: polls_soon_put [OF assms(2)] each polls_soon_each [OF assms(2)] dest: soon)
qed

lemma polls_soon_run: "pool_run ser evj cap t s s' \<Longrightarrow> polls_soon s \<Longrightarrow> polls_soon s'"
  by (induction rule: pool_run.induct) (auto intro: polls_soon_step)

lemma reachable_polls_soon: "pool_reachable ser evj cap s \<Longrightarrow> polls_soon s"
  using polls_soon_run by (fastforce simp: polls_soon_def new_pool_def)

section \<open>Properties\<close>

text \<open>C9: a client that drops without a signal is noticed by a call that is scheduled in time. Take a
  run in which time passes only while this call has nothing to read and its poll is not yet due;
  other calls may be left waiting. Once the call has read what was there, and as long as the upstream
  broadcasts nothing more, it has left its loop after one period of the poll: it has returned, or
  its clean-up is all it has left to do, and then the subscription is closed upstream.\<close>
theorem dropped_client_noticed:
  assumes "pool_reachable ser evj cap s" and "p_calls s k = Some c" and "c_stage c = Forwarding"
    and "\<not> c_alive c" and "c_inbox c = []" and "c_missed c = 0"
    and "attentive_run {k} ser evj cap t s s'" and "p_sent s' = p_sent s" and "1000 < t"
  shows "\<exists>c'. p_calls s' k = Some c' \<and> c_uid c' = c_uid c
    \<and> (c_stage c' = Leaving \<and> (\<exists>r. pool_step ser evj cap 0 s' r \<and> c_uid c \<notin> p_open r)
       \<or> (\<exists>res. c_stage c' = Left res) \<and> c_uid c \<notin> p_open s')"
proof -
  have soon: "c_poll c \<le> 1000"
    using reachable_polls_soon [OF assms(1)] assms(2) by (simp add: polls_soon_def sink_active_poll_def)
  have "polled (c_uid c) k (c_poll c) 0 s" using assms(2-6) by (simp add: polled_def)
  then have "polled (c_uid c) k (c_poll c) t s'" using polled_run [OF assms(7)] assms(8) by simp
  then obtain c' where c': "p_calls s' k = Some c'" "c_uid c' = c_uid c" "c_stage c' \<noteq> Registering" "c_stage c' \<noteq> Forwarding"
    using soon assms(9) by (auto simp: polled_def)
  have inv: "pool_inv ser evj s'"
    using pool_run_inv [OF attentive_run_is_run [OF assms(7)] pool_reachable_inv [OF assms(1)]] .
  show ?thesis
  proof (cases "c_stage c'")
    case Leaving
    have "pool_step ser evj cap 0 s' (put k (leave c') (s'\<lparr>p_open := p_open s' - {c_uid c'}\<rparr>))"
      by (rule pool_step.unwinds [OF c'(1) Leaving])
    then show ?thesis using c'(1,2) Leaving by (fastforce simp: put_def)
  next
    case (Left res)
    then show ?thesis using c' pool_inv_open [OF inv c'(1)] by (simp add: subscribed_def)
  qed (use c' in simp_all)
qed

theorem dropped_client_noticed_witness:
  "\<exists>s' c'. attentive_run {0} (\<lambda>_. Some ''x'') (\<lambda>_. JNull) 4 1001 (attended False) s' \<and> p_calls s' 0 = Some c'
     \<and> (c_stage c' = Leaving \<or> (\<exists>res. c_stage c' = Left res))"
proof -
  let ?run = "attentive_run {0} (\<lambda>_. Some ''x'') (\<lambda>_ :: unit. JNull) 4"
  let ?c1 = "attended_call False\<lparr>c_poll := 0\<rparr>"
  let ?s1 = "each_call (\<lambda>c. c\<lparr>c_poll := c_poll c - 1000\<rparr>) (attended False)"
  let ?s2 = "put 0 (iterate (\<lambda>_. Some ''x'') (\<lambda>_. JNull) \<lparr>sel = Tick, write_ok = True, active = c_alive ?c1\<rparr> ?c1) ?s1"
  let ?s3 = "each_call (\<lambda>c. c\<lparr>c_poll := c_poll c - 1\<rparr>) ?s2"
  have "nothing_due {0} 1000 (attended False)" by (simp add: nothing_due_def attended_def attended_call_def)
  then have "?run 1000 (attended False) ?s1"
    using attentive_run.go [OF attentive_run.stay pool_step.passes] by fastforce
  moreover have c1: "p_calls ?s1 0 = Some ?c1"
    by (simp add: each_call_def attended_def) (simp add: attended_call_def)
  ultimately have "?run 1000 (attended False) ?s2"
    by (intro attentive_run_step [OF _ pool_step.tick [OF c1]]) (simp_all add: attended_call_fields)
  moreover have "nothing_due {0} 1 ?s2"
    by (simp add: nothing_due_def put_def each_call_def attended_def iterate_def attended_call_fields)
  ultimately have run: "?run 1001 (attended False) ?s3"
    using attentive_run.go [OF _ pool_step.passes, of "{0}" "\<lambda>_. Some ''x''" "\<lambda>_. JNull" 4 1000 "attended False" ?s2 1] by simp
  have "p_sent ?s3 = p_sent (attended False)" by (simp add: put_def each_call_def)
  then obtain c' where "p_calls ?s3 0 = Some c'" "c_stage c' = Leaving \<or> (\<exists>res. c_stage c' = Left res)"
    using dropped_client_noticed [OF attended_pool [of False] attended_calls _ _ _ _ run] by (auto simp: attended_call_fields)
  then show ?thesis using run by blast
qed

text \<open>C10: the poll starts anew with every message, also one that is not for the subscription. While
  messages of other subscriptions, or acknowledgements of published events, come in more often than
  once a second, the subscription of a client that has dropped stays open for as long as one
  likes, although the call reads every message at once and oversleeps no poll.\<close>
theorem dropped_client_leaks:
  fixes s :: "('ev, 'f) pool" and n :: "'ev notification"
  assumes "pool_reachable ser evj cap s" and "p_calls s = [k \<mapsto> c]" and "c_stage c = Forwarding"
    and "\<not> c_alive c" and "c_inbox c = []" and "c_missed c = 0" and "\<not> p_hung_up s"
    and "\<not> concerns (c_uid c) n" and "0 < cap"
  shows "\<exists>t s' c'. N \<le> t \<and> prompt_run ser evj cap t s s' \<and> p_calls s' k = Some c' \<and> c_stage c' = Forwarding
    \<and> \<not> c_alive c' \<and> c_uid c' = c_uid c \<and> c_uid c \<in> p_open s'"
proof -
  have "stranded k (c_uid c) s" unfolding stranded_def using assms(2-7) by (intro conjI exI [of _ c]) simp_all
  then obtain s' where s': "prompt_run ser evj cap (999 * N) s s'" "stranded k (c_uid c) s'" "p_open s' = p_open s"
    using busy_rounds [OF _ assms(8,9)] by blast
  moreover have "c_uid c \<in> p_open s"
    using pool_inv_open [OF pool_reachable_inv [OF assms(1)], of k c] assms(2,3) by (simp add: subscribed_def)
  moreover obtain c' where "p_calls s' k = Some c'" "c_stage c' = Forwarding" "\<not> c_alive c'" "c_uid c' = c_uid c"
    using s'(2) by (auto simp: stranded_def)
  ultimately show ?thesis by (intro exI [of _ "999 * N"]) auto
qed

theorem dropped_client_leaks_witness:
  "\<forall>N. \<exists>t s' c'. N \<le> t \<and> prompt_run (\<lambda>_. Some ''x'') (\<lambda>_. JNull) 4 t (attended False) s' \<and> p_calls s' 0 = Some c'
     \<and> c_stage c' = Forwarding \<and> \<not> c_alive c' \<and> c_uid c' = ''a'' \<and> ''a'' \<in> p_open s'"
proof
  fix N
  have single: "p_calls (attended False) = [0 \<mapsto> attended_call False]" by (simp add: attended_def)
  show "\<exists>t s' c'. N \<le> t \<and> prompt_run (\<lambda>_. Some ''x'') (\<lambda>_. JNull) 4 t (attended False) s' \<and> p_calls s' 0 = Some c'
     \<and> c_stage c' = Forwarding \<and> \<not> c_alive c' \<and> c_uid c' = ''a'' \<and> ''a'' \<in> p_open s'"
    using dropped_client_leaks [OF attended_pool [of False] single, of "NMessage ''r'' (ROk ''e'' True [])" N]
    by (simp add: attended_call_fields attended_def)
qed

end
