(* ===== verification/Pool_End.thy ===== *)
theory Pool_End
  imports Pool_Poll Runs
begin

text \<open>
  How the subscribe calls of a server go on and end: a call passes through its stages in one
  direction, and when the relay pool hangs up, all of them return.
\<close>

section \<open>The order of the stages\<close>

fun stage_rank :: "stage \<Rightarrow> nat" where
  "stage_rank Registering = 0"
| "stage_rank Forwarding = 1"
| "stage_rank Leaving = 2"
| "stage_rank (Left r) = 3"

instantiation stage :: order
begin

definition less_eq_stage :: "stage \<Rightarrow> stage \<Rightarrow> bool" where
  "x \<le> y \<longleftrightarrow> x = y \<or> stage_rank x < stage_rank y"

definition less_stage :: "stage \<Rightarrow> stage \<Rightarrow> bool" where
  "x < y \<longleftrightarrow> stage_rank x < stage_rank y"

instance
  by standard (auto simp: less_eq_stage_def less_stage_def)

end

lemma stage_le [simp]:
  "Registering \<le> x" "Forwarding \<le> Leaving" "Forwarding \<le> Left r" "Leaving \<le> Left r"
  by (cases x; simp add: less_eq_stage_def)+

text \<open>A step moves no call back.\<close>

lemma stage_iterate: "c_stage c = Forwarding \<Longrightarrow> c_stage c \<le> c_stage (iterate ser evj it c)"
  by (simp add: iterate_forward(2) del: forward_loop.simps)

lemma stage_step:
  assumes "pool_step ser evj cap d s s'" "p_calls s k = Some c"
  shows "\<exists>c'. p_calls s' k = Some c' \<and> c_stage c \<le> c_stage c'"
proof -
  have put: "\<exists>c'. p_calls (put j e' r) k = Some c' \<and> c_stage c \<le> c_stage c'"
    if "p_calls s j = Some e" "c_stage e \<le> c_stage e'" "p_calls r = p_calls s" for j e e' r
    using that assms(2) by (cases "j = k") (auto simp: put_def)
  show ?thesis
    using assms(1)
  proof cases
    case (begins j filters uid csub)
    then show ?thesis using assms(2) by (auto simp: put_def)
  next
    case (recv j e n ns w)
    then show ?thesis using put [OF recv(3)] stage_iterate [of "e\<lparr>c_inbox := ns\<rparr>"] by simp
  next
    case (lagged j e m w)
    then show ?thesis using put [OF lagged(3)] stage_iterate [of "e\<lparr>c_missed := 0\<rparr>"] by simp
  next
    case (closed j e w)
    then show ?thesis using put [OF closed(3)] stage_iterate [of e] by simp
  next
    case (tick j e w)
    then show ?thesis using put [OF tick(3)] stage_iterate [of e] by simp
  next
    case (opened j e)
    show ?thesis unfolding opened(2) by (rule put [OF opened(3)]) (simp_all add: opened(4))
  next
    case (refused j e x)
    show ?thesis unfolding refused(2) by (rule put [OF refused(3)]) (simp_all add: refused(4))
  next
    case (unwinds j e)
    show ?thesis unfolding unwinds(2) by (rule put [OF unwinds(3)]) (simp_all add: unwinds(4) leave_def)
  next
    case (client_gone j e)
    show ?thesis unfolding client_gone(2) by (rule put [OF client_gone(3)]) simp_all
  next
    case (broadcast n)
    then show ?thesis using assms(2) by (simp add: each_call_def offer_def)
  next
    case passes
    then show ?thesis using assms(2) by (simp add: each_call_def)
  next
    case hangs_up
    then show ?thesis using assms(2) by simp
  qed
qed

section \<open>The end of the pool\<close>

text \<open>What a call has left to do once the pool has hung up: the stages ahead, the messages it has not
  read, the report of a lag, a poll that is due, and the loss of its client.\<close>

definition call_weight :: "('ev, 'f) call \<Rightarrow> nat" where
  "call_weight c = 3 - stage_rank (c_stage c) + length (c_inbox c)
     + (if c_missed c = 0 then 0 else 1) + (if c_stage c = Forwarding \<and> c_poll c = 0 then 1 else 0)
     + (if c_alive c then 1 else 0)"

text \<open>A step of a call or of a client that changes something; it takes no time.\<close>

definition winds_down ::
  "(json \<Rightarrow> string option) \<Rightarrow> ('ev \<Rightarrow> json) \<Rightarrow> nat \<Rightarrow> ('ev, 'f) pool \<Rightarrow> ('ev, 'f) pool \<Rightarrow> bool"
where
  "winds_down ser evj cap s s' \<longleftrightarrow> pool_step ser evj cap 0 s s' \<and> dom (p_calls s') = dom (p_calls s) \<and> s' \<noteq> s"

definition hung_up :: "(json \<Rightarrow> string option) \<Rightarrow> ('ev \<Rightarrow> json) \<Rightarrow> nat \<Rightarrow> ('ev, 'f) pool \<Rightarrow> bool" where
  "hung_up ser evj cap s \<longleftrightarrow> pool_reachable ser evj cap s \<and> finite (dom (p_calls s)) \<and> p_hung_up s"

definition all_left :: "('ev, 'f) pool \<Rightarrow> bool" where
  "all_left s \<longleftrightarrow> (\<forall>k c. p_calls s k = Some c \<longrightarrow> (\<exists>r. c_stage c = Left r))"

abbreviation pool_load :: "('ev, 'f) pool \<Rightarrow> nat" where
  "pool_load s \<equiv> weigh call_weight (p_calls s)"

lemma pool_load_put:
  assumes "finite (dom (p_calls s))" "p_calls s k = Some c" "call_weight c' < call_weight c" "p_calls r = p_calls s"
  shows "pool_load (put k c' r) < pool_load s"
  using weigh_upd [OF assms(1,2), of call_weight c'] assms(3,4) by (simp add: put_def)

lemma put_hung_up [simp]: "p_hung_up (put k c s) = p_hung_up s"
  by (simp add: put_def)

lemma iterate_weight:
  assumes "c_stage c = Forwarding"
  shows "call_weight (iterate ser evj it c) + (if c_poll c = 0 then 1 else 0)
      + (if c_stage (iterate ser evj it c) = Leaving then 1 else 0) = call_weight c"
  using iterate_forward(2) [OF assms, of ser evj it] assms
  by (simp add: call_weight_def sink_active_poll_def del: forward_loop.simps)

lemma winds_down_load:
  assumes "winds_down ser evj cap s s'" "finite (dom (p_calls s))" "p_hung_up s"
  shows "pool_load s' < pool_load s \<and> p_hung_up s'"
proof -
  note put = pool_load_put [OF assms(2)]
  have step: "pool_step ser evj cap 0 s s'" and dom: "dom (p_calls s') = dom (p_calls s)" and new: "s' \<noteq> s"
    using assms(1) by (simp_all add: winds_down_def)
  show ?thesis
    using step
  proof cases
    case (begins k filters uid csub)
    then show ?thesis using dom by (auto simp: put_def)
  next
    case (opened k c)
    show ?thesis using opened assms(3) by (auto intro!: put simp: call_weight_def sink_active_poll_def)
  next
    case (refused k c e)
    show ?thesis using refused assms(3) by (auto intro!: put simp: call_weight_def)
  next
    case (recv k c n ns w)
    have "call_weight (c\<lparr>c_inbox := ns\<rparr>) < call_weight c" using recv by (simp add: call_weight_def)
    then show ?thesis
      using recv assms(3) iterate_weight [of "c\<lparr>c_inbox := ns\<rparr>" ser evj "\<lparr>sel = Recv n, write_ok = w, active = c_alive c\<rparr>"]
      by (auto intro!: put)
  next
    case (lagged k c m w)
    have "call_weight (c\<lparr>c_missed := 0\<rparr>) < call_weight c" using lagged by (simp add: call_weight_def)
    then show ?thesis
      using lagged assms(3) iterate_weight [of "c\<lparr>c_missed := 0\<rparr>" ser evj "\<lparr>sel = Lagged m, write_ok = w, active = c_alive c\<rparr>"]
      by (auto intro!: put)
  next
    case (closed k c w)
    have "c_stage (iterate ser evj \<lparr>sel = RecvClosed, write_ok = w, active = c_alive c\<rparr> c) = Leaving"
      by (simp add: iterate_def)
    then show ?thesis
      using closed assms(3) iterate_weight [of c ser evj "\<lparr>sel = RecvClosed, write_ok = w, active = c_alive c\<rparr>"]
      by (auto intro!: put)
  next
    case (tick k c w)
    then show ?thesis
      using assms(3) iterate_weight [of c ser evj "\<lparr>sel = Tick, write_ok = w, active = c_alive c\<rparr>"]
      by (auto intro!: put)
  next
    case (unwinds k c)
    show ?thesis using unwinds assms(3) by (auto intro!: put simp: call_weight_def leave_def)
  next
    case (client_gone k c)
    have "c_alive c"
    proof (rule ccontr)
      assume "\<not> c_alive c"
      then have "put k (c\<lparr>c_alive := False\<rparr>) s = s"
        using client_gone(2) by (cases s; cases c) (auto simp: put_def)
      then show False using new client_gone(1) by simp
    qed
    then show ?thesis using client_gone assms(3) by (auto intro!: put simp: call_weight_def)
  next
    case hangs_up
    then show ?thesis using assms(3) new by (cases s) simp
  next
    case passes
    have "each_call (\<lambda>c. c\<lparr>c_poll := c_poll c - 0\<rparr>) s = s"
      by (cases s) (simp add: each_call_def fun_eq_iff option.map_ident)
    then show ?thesis using new passes by simp
  qed (use assms(3) in simp)
qed

lemma hung_up_next:
  assumes "hung_up ser evj cap s"
  shows "all_left s \<or> (\<exists>s'. winds_down ser evj cap s s')"
proof (cases "all_left s")
  case False
  then obtain k c where c: "p_calls s k = Some c" "\<And>r. c_stage c \<noteq> Left r" by (auto simp: all_left_def)
  have next': "\<exists>s'. winds_down ser evj cap s s'"
    if "pool_step ser evj cap 0 s (put k c' r)" "c' \<noteq> c" "p_calls r = p_calls s" for c' and r :: "('a, 'b) pool"
  proof -
    have "p_calls (put k c' r) k = Some c'" "dom (p_calls (put k c' r)) = dom (p_calls s)"
      using that(3) c(1) by (auto simp: put_def)
    moreover from this(1) have "put k c' r \<noteq> s" using c(1) that(2) by auto
    ultimately show ?thesis using that(1) unfolding winds_down_def by blast
  qed
  have iter: "iterate ser evj it d \<noteq> c" if "c_script d = c_script c" for it d
    using that iterate_simps(7) [of ser evj it d] by (metis append_self_conv list.distinct(1))
  have "\<exists>s'. winds_down ser evj cap s s'"
  proof (cases "c_stage c")
    case Registering
    show ?thesis
    proof (rule next' [OF pool_step.refused [OF c(1) Registering]])
      show "c\<lparr>c_stage := Left (Inl (Subscribe []))\<rparr> \<noteq> c" using Registering by (metis c(2) call.select_convs(4) call.surjective call.update_convs(4))
    qed simp
  next
    case Forwarding
    show ?thesis
    proof (cases "c_missed c")
      case (Suc m)
      then show ?thesis
        using next' [OF pool_step.lagged [OF c(1) Forwarding refl]] iter [of "c\<lparr>c_missed := 0\<rparr>"] by simp
    next
      case 0
      show ?thesis
      proof (cases "c_inbox c")
        case (Cons n ns)
        then show ?thesis using next' [OF pool_step.recv [OF c(1) Forwarding 0 Cons]] iter [of "c\<lparr>c_inbox := ns\<rparr>"] by simp
      next
        case Nil
        have "p_hung_up s" using assms by (simp add: hung_up_def)
        then show ?thesis using next' [OF pool_step.closed [OF c(1) Forwarding 0 Nil]] iter [of c] by simp
      qed
    qed
  next
    case Leaving
    then have "leave c \<noteq> c" by (metis c(2) call.select_convs(4) call.surjective call.update_convs(4,12) leave_def)
    then show ?thesis using next' [OF pool_step.unwinds [OF c(1) Leaving]] by simp
  qed (use c(2) in simp)
  then show ?thesis ..
qed simp

lemma hung_up_step:
  assumes "hung_up ser evj cap s" "winds_down ser evj cap s s'"
  shows "hung_up ser evj cap s' \<and> pool_load s' < pool_load s"
proof -
  obtain t where t: "pool_run ser evj cap t new_pool s" using assms(1) by (auto simp: hung_up_def)
  have "pool_step ser evj cap 0 s s'" using assms(2) by (simp add: winds_down_def)
  then have "pool_run ser evj cap (t + 0) new_pool s'" by (rule pool_run.on [OF t])
  moreover have "finite (dom (p_calls s'))" using assms by (simp add: hung_up_def winds_down_def)
  ultimately show ?thesis
    using winds_down_load [OF assms(2)] assms(1) by (auto simp: hung_up_def)
qed

interpretation shutdown: settling "hung_up ser evj cap" "winds_down ser evj cap" all_left pool_load
  by unfold_locales (auto simp: hung_up_step hung_up_next dest: hung_up_step)

lemma pool_step_dom:
  assumes "pool_step ser evj cap d s s'"
  shows "\<exists>k. dom (p_calls s') \<subseteq> insert k (dom (p_calls s))"
proof -
  have put: "\<exists>j. dom (p_calls (put k c r)) \<subseteq> insert j (dom (p_calls s))" if "p_calls r = p_calls s" for k c r
    using that by (intro exI [of _ k]) (auto simp: put_def)
  have each: "dom (p_calls (each_call f s)) = dom (p_calls s)" for f by (auto simp: each_call_def dom_def)
  show ?thesis
    using assms by (cases; simp add: put) (simp_all add: each subset_insertI)
qed

lemma pool_finite: "pool_run ser evj cap t s s' \<Longrightarrow> finite (dom (p_calls s)) \<Longrightarrow> finite (dom (p_calls s'))"
proof (induction rule: pool_run.induct)
  case (on t s s' d s'')
  then obtain k where "dom (p_calls s'') \<subseteq> insert k (dom (p_calls s'))" using pool_step_dom by blast
  then show ?case using on.IH on.prems by (meson finite_insert finite_subset)
qed simp

lemma all_left_closed:
  assumes "pool_inv ser evj s" "all_left s"
  shows "p_open s = {}"
proof -
  have "\<not> subscribed c" if "p_calls s k = Some c" for k c
    using assms(2) that by (fastforce simp: all_left_def subscribed_def)
  then show ?thesis using assms(1) unfolding pool_inv_def by blast
qed

section \<open>Runs after the end of the pool\<close>

text \<open>A prompt run, with its steps counted: how many of a call or a client, how many calls begun, and
  the time that passes while nothing is due.\<close>

inductive shutdown_run ::
  "(json \<Rightarrow> string option) \<Rightarrow> ('ev \<Rightarrow> json) \<Rightarrow> nat \<Rightarrow> nat \<Rightarrow> nat \<Rightarrow> nat \<Rightarrow> ('ev, 'f) pool \<Rightarrow> ('ev, 'f) pool \<Rightarrow> bool"
  for ser evj cap
where
  stop: "shutdown_run ser evj cap 0 0 0 s s"
| step: "shutdown_run ser evj cap n b t s s' \<Longrightarrow> winds_down ser evj cap s' s'' \<Longrightarrow>
     shutdown_run ser evj cap (Suc n) b t s s''"
| begun: "shutdown_run ser evj cap n b t s s' \<Longrightarrow> pool_step ser evj cap 0 s' s'' \<Longrightarrow>
     dom (p_calls s'') \<noteq> dom (p_calls s') \<Longrightarrow> shutdown_run ser evj cap n (Suc b) t s s''"
| passed: "shutdown_run ser evj cap n b t s s' \<Longrightarrow> pool_step ser evj cap d s' s'' \<Longrightarrow> 0 < d \<Longrightarrow>
     nothing_due UNIV d s' \<Longrightarrow> shutdown_run ser evj cap n b (t + d) s s''"

lemma prompt_run_counted: "prompt_run ser evj cap t s s' \<Longrightarrow> \<exists>n b. shutdown_run ser evj cap n b t s s'"
proof (induction rule: attentive_run.induct)
  case (stay s)
  then show ?case using shutdown_run.stop by blast
next
  case (go t s s' d s'')
  then obtain n b where run: "shutdown_run ser evj cap n b t s s'" by blast
  show ?case
  proof (cases "d = 0")
    case False
    then show ?thesis using shutdown_run.passed [OF run go.hyps(2)] go.hyps(3) by blast
  next
    case True
    then have st: "pool_step ser evj cap 0 s' s''" using go.hyps(2) by simp
    consider "s'' = s'" | "dom (p_calls s'') \<noteq> dom (p_calls s')" | "winds_down ser evj cap s' s''"
      using st by (auto simp: winds_down_def)
    then show ?thesis
    proof cases
      case 1
      then show ?thesis using run True by auto
    next
      case 2
      then show ?thesis using shutdown_run.begun [OF run st] True by auto
    next
      case 3
      then show ?thesis using shutdown_run.step [OF run] True by auto
    qed
  qed
qed

lemma dom_put: "p_calls s k = Some c \<Longrightarrow> p_calls r = p_calls s \<Longrightarrow> dom (p_calls (put k c' r)) = dom (p_calls s)"
  by (auto simp: put_def)

lemma dom_each: "dom (p_calls (each_call f s)) = dom (p_calls s)"
  by (auto simp: each_call_def dom_def)

text \<open>A new call brings its own work; time brings none, for no call that waits in its loop lets it pass.\<close>

lemma begun_load:
  assumes "pool_step ser evj cap 0 s s'" "dom (p_calls s') \<noteq> dom (p_calls s)" "finite (dom (p_calls s))"
  shows "pool_load s' = pool_load s + 4 \<and> p_hung_up s' = p_hung_up s"
  using assms(1)
proof cases
  case (begins k filters uid csub)
  have "call_weight (new_call csub filters uid (length (p_sent s))) = 4" by (simp add: call_weight_def new_call_def)
  then show ?thesis
    using begins weigh_new [OF assms(3) begins(2), of call_weight] by (simp add: put_def)
qed (use assms(2) in \<open>simp_all add: dom_put dom_each\<close>)

lemma passed_load:
  assumes "pool_step ser evj cap d s s'" "0 < d" "nothing_due UNIV d s" "p_hung_up s"
  shows "pool_load s' = pool_load s \<and> p_hung_up s' \<and> dom (p_calls s') = dom (p_calls s)"
  using assms(1)
proof cases
  case passes
  have "call_weight (c\<lparr>c_poll := c_poll c - d\<rparr>) = call_weight c" if "p_calls s k = Some c" for k c
    using assms(3,4) that by (auto simp: nothing_due_def call_weight_def)
  then show ?thesis
    using passes assms(4) weigh_same [of "p_calls s" call_weight] by (auto simp: each_call_def dom_def)
qed (use assms(2) in simp_all)

lemma shutdown_run_bound:
  assumes "shutdown_run ser evj cap n b t s s'" "hung_up ser evj cap s"
  shows "hung_up ser evj cap s' \<and> n + pool_load s' \<le> pool_load s + 4 * b"
  using assms
proof (induction rule: shutdown_run.induct)
  case (step n b t s s' s'')
  then show ?case using hung_up_step [of ser evj cap s' s''] by fastforce
next
  case (begun n b t s s' s'')
  then have h: "hung_up ser evj cap s'" by simp
  then obtain u where "pool_run ser evj cap u new_pool s'" by (auto simp: hung_up_def)
  then have "pool_run ser evj cap (u + 0) new_pool s''" using begun.hyps(2) by (rule pool_run.on)
  moreover from this have "finite (dom (p_calls s''))" by (rule pool_finite) (simp add: new_pool_def)
  ultimately show ?case
    using begun begun_load [OF begun.hyps(2,3)] h by (auto simp: hung_up_def)
next
  case (passed n b t s s' d s'')
  then have h: "hung_up ser evj cap s'" by simp
  then obtain u where "pool_run ser evj cap u new_pool s'" by (auto simp: hung_up_def)
  then have "pool_run ser evj cap (u + d) new_pool s''" using passed.hyps(2) by (rule pool_run.on)
  then show ?case using passed passed_load [OF passed.hyps(2-4)] h by (auto simp: hung_up_def)
qed simp

section \<open>Properties\<close>

text \<open>C12: a relay pool that hangs up ends every subscribe call. Take any run from then on in which the
  executor leaves no call waiting (time passes only while nothing is due for any call), of whatever
  length and duration, and whatever calls are begun in it. The calls and their clients take no more
  steps in it than what was left to do at the start (for each call the stages ahead, the messages
  still unread, one report of a lag, one poll, one loss of its client), and four for each call begun
  since; while a call has not returned there is such a step, and once there is none, no subscription
  is open upstream. That end can be reached at once, with the calls there are.\<close>
theorem pool_shuts_down:
  assumes "pool_reachable ser evj cap s" and "p_hung_up s"
  shows "(prompt_run ser evj cap t s s' \<longrightarrow> (\<exists>n b. shutdown_run ser evj cap n b t s s'))
    \<and> (shutdown_run ser evj cap n b t s s' \<longrightarrow>
       n \<le> pool_load s + 4 * b \<and> ((\<exists>s''. winds_down ser evj cap s' s'') \<or> all_left s' \<and> p_open s' = {}))
    \<and> (\<exists>n s'. (winds_down ser evj cap ^^ n) s s' \<and> all_left s' \<and> p_open s' = {})"
proof -
  have "finite (dom (p_calls s))"
    using assms(1) pool_finite [of ser evj cap _ new_pool s] by (auto simp: new_pool_def)
  then have h: "hung_up ser evj cap s" using assms by (simp add: hung_up_def)
  have closed: "p_open r = {}" if "hung_up ser evj cap r" "all_left r" for r
  proof -
    have "pool_reachable ser evj cap r" using that(1) by (simp add: hung_up_def)
    then have "pool_inv ser evj r" by (rule pool_reachable_inv)
    then show ?thesis using that(2) by (rule all_left_closed)
  qed
  have "n \<le> pool_load s + 4 * b \<and> ((\<exists>s''. winds_down ser evj cap s' s'') \<or> all_left s' \<and> p_open s' = {})"
    if "shutdown_run ser evj cap n b t s s'"
    using shutdown_run_bound [OF that h] hung_up_next [of ser evj cap s'] closed by fastforce
  then show ?thesis using prompt_run_counted shutdown.settles [OF h] closed by blast
qed

theorem pool_shuts_down_witness:
  "\<exists>n s'. (winds_down (\<lambda>_. Some ''x'') (\<lambda>_. JNull) 4 ^^ n) (attended True\<lparr>p_hung_up := True\<rparr>) s'
     \<and> all_left s' \<and> p_open s' = {}"
proof -
  have "pool_reachable (\<lambda>_. Some ''x'') (\<lambda>_. JNull) 4 (attended True\<lparr>p_hung_up := True\<rparr>)"
    using pool_run_step [OF attended_reachable pool_step.hangs_up] by blast
  then show ?thesis using pool_shuts_down by fastforce
qed

end
