(* ===== verification/Live.thy ===== *)
theory Live
  imports End_To_End Session_End Pool_End
begin

text \<open>
  Both programs at work: one client's connection of the shim (\<open>Session\<close>) and outlay's pool of
  subscribe calls (\<open>Pool\<close>), which other clients share, joined by the transport. The transport routes
  a tool call of a task to a call of the server and delivers the chunks of a call in the order in
  which they were written; it may be late with any of them, may lose the rest of a stream, and may
  report an error at any time. Nothing else is asked of it.
\<close>

section \<open>The joint system\<close>

record ('ev, 'f, 'tok) world =
  bridge :: "'tok session"
  server :: "('ev, 'f) pool"
  routed :: "nat \<rightharpoonup> nat"

definition new_world :: "('ev, 'f, 'tok) world" where
  "new_world = \<lparr>bridge = new_session, server = new_pool, routed = Map.empty\<rparr>"

text \<open>A step of the connection in which a stream gives a chunk.\<close>

definition takes_chunk :: "'tok session \<Rightarrow> 'tok session \<Rightarrow> bool" where
  "takes_chunk s s' \<longleftrightarrow>
     (\<exists>n t t' tok tok'. tasks s n = Some t \<and> tasks s' n = Some t' \<and> phase t = Streaming tok \<and> phase t' = Streaming tok'
        \<and> did t' \<noteq> did t)"

text \<open>The chunks a server's call has written so far.\<close>

definition chunks_of :: "('ev, 'f) pool \<Rightarrow> nat option \<Rightarrow> string list" where
  "chunks_of s k = (case Option.bind k (p_calls s) of Some c \<Rightarrow> sink_writes (c_did c) | None \<Rightarrow> [])"

inductive live_step ::
  "(string \<Rightarrow> json list option) \<Rightarrow> (json \<Rightarrow> string) \<Rightarrow> (json \<Rightarrow> string + 'f) \<Rightarrow> (json \<Rightarrow> string option) \<Rightarrow> ('ev \<Rightarrow> json)
   \<Rightarrow> nat \<Rightarrow> ('ev, 'f, 'tok) world \<Rightarrow> ('ev, 'f, 'tok) world \<Rightarrow> bool"
  for from_str disp filter_of ser evj cap
where
  bridges: "session_step from_str disp who (bridge w) b \<Longrightarrow> \<not> takes_chunk (bridge w) b \<Longrightarrow>
     live_step from_str disp filter_of ser evj cap w (w\<lparr>bridge := b\<rparr>)"
| serves: "pool_step ser evj cap d (server w) p \<Longrightarrow>
     live_step from_str disp filter_of ser evj cap w (w\<lparr>server := p\<rparr>)"
| routes: "tasks (bridge w) n = Some t \<Longrightarrow> did t \<noteq> [] \<Longrightarrow> routed w n = None \<Longrightarrow> p_calls (server w) k = None \<Longrightarrow>
     subscribe_params_of (subscribe_args (task_sub t) (task_filters t)) = Some ps \<Longrightarrow>
     map filter_of (param_filters ps) = map Inr gs \<Longrightarrow> gs \<noteq> [] \<Longrightarrow>
     (\<And>j c. p_calls (server w) j = Some c \<Longrightarrow> c_uid c \<noteq> uid) \<Longrightarrow>
     live_step from_str disp filter_of ser evj cap w
       (w\<lparr>server := put k (new_call (subscription_id ps) gs uid (length (p_sent (server w)))) (server w),
          routed := (routed w)(n \<mapsto> k)\<rparr>)"
| delivers: "tasks (bridge w) n = Some t \<Longrightarrow> phase t = Streaming tok \<Longrightarrow> waiting (channel (bridge w)) (SubTask n) = [] \<Longrightarrow>
     length (task_sends (did t)) < length (chunks_of (server w) (routed w n)) \<Longrightarrow>
     live_step from_str disp filter_of ser evj cap w
       (w\<lparr>bridge := task_send n t (Streaming tok)
            (chunks_of (server w) (routed w n) ! length (task_sends (did t))) (bridge w)\<rparr>)"

inductive live_reachable ::
  "(string \<Rightarrow> json list option) \<Rightarrow> (json \<Rightarrow> string) \<Rightarrow> (json \<Rightarrow> string + 'f) \<Rightarrow> (json \<Rightarrow> string option) \<Rightarrow> ('ev \<Rightarrow> json)
   \<Rightarrow> nat \<Rightarrow> ('ev, 'f, 'tok) world \<Rightarrow> bool"
  for from_str disp filter_of ser evj cap
where
  boot: "live_reachable from_str disp filter_of ser evj cap new_world"
| runs: "live_reachable from_str disp filter_of ser evj cap w \<Longrightarrow> live_step from_str disp filter_of ser evj cap w w' \<Longrightarrow>
     live_reachable from_str disp filter_of ser evj cap w'"

section \<open>Its parts\<close>

lemma pool_reachable_step: "pool_reachable ser evj cap s \<Longrightarrow> pool_step ser evj cap d s s' \<Longrightarrow> pool_reachable ser evj cap s'"
  using pool_run.on by blast

lemma live_parts:
  "live_reachable from_str disp filter_of ser evj cap w \<Longrightarrow>
     session_reachable from_str disp (bridge w) \<and> pool_reachable ser evj cap (server w)"
proof (induction rule: live_reachable.induct)
  case boot
  show ?case by (auto simp: new_world_def intro: session_reachable.start pool_run.here)
next
  case (runs w w')
  from runs.hyps(2) show ?case
  proof cases
    case (bridges who b)
    then show ?thesis using runs.IH session_reachable.step by auto
  next
    case (serves d p)
    then show ?thesis using runs.IH pool_reachable_step by fastforce
  next
    case (routes n t k ps gs uid)
    have "pool_step ser evj cap 0 (server w)
        (put k (new_call (subscription_id ps) gs uid (length (p_sent (server w)))) (server w))"
      using routes by (intro pool_step.begins) auto
    then show ?thesis using runs.IH pool_reachable_step routes(1) by fastforce
  next
    case (delivers n t tok)
    then have "session_step from_str disp Upstream (bridge w) (bridge w')"
      using session_step.chunk [OF delivers(2-4)] by simp
    then show ?thesis using runs.IH session_reachable.step delivers(1) by auto
  qed
qed

text \<open>What a step of the connection does to a task.\<close>

definition last_words :: "'tok sub_task \<Rightarrow> bool" where
  "last_words t \<longleftrightarrow> phase t \<in> {Ending, Ended}"

lemma task_step:
  assumes "session_step from_str disp who s s'" "session_reachable from_str disp s" "\<not> takes_chunk s s'"
    "tasks s' n = Some t'"
  shows "tasks s n = None \<and> did t' = []
    \<or> (\<exists>t. tasks s n = Some t \<and> task_sub t' = task_sub t \<and> task_filters t' = task_filters t \<and> (did t \<noteq> [] \<longrightarrow> did t' \<noteq> [])
        \<and> (task_sends (did t') = task_sends (did t) \<and> (last_words t \<longrightarrow> last_words t')
           \<or> \<not> last_words t \<and> last_words t' \<and> (\<exists>e. task_sends (did t') = task_sends (did t) @ [closed_frame disp (task_sub t) e])))"
  using assms(1)
proof cases
  case (read line es c)
  have same: "?thesis" if "tasks (fold act es s) = tasks s"
    using that read(2) assms(4) by auto
  show ?thesis
    using read(5)
  proof (rule handle_text_effects)
    fix ns i fs
    assume es: "es = map NotifyCancel ns @ [SpawnSubscribe (next_task (conn_state s)) i fs]"
    show ?thesis
      using read(2) assms(4) task_new [OF assms(2) read(3)]
      by (cases "n = next_task (conn_state s)") (auto simp: es fold_notify act_eqs)
  qed (auto simp: fold_notify act_eqs intro!: same)
next
  case (gone f ns)
  then show ?thesis using assms(4) by (auto simp: fold_notify act_eqs)
next
  case (refused i f fs)
  then show ?thesis
    using assms(4) by (cases i) (auto simp: last_words_def put_task_def split: option.splits task_phase.splits if_splits)
next
  case (chunk m t tok c)
  then have "takes_chunk s s'" unfolding takes_chunk_def
    by (intro exI [of _ m] exI [of _ t] exI [of _ "t\<lparr>phase := Streaming tok, did := did t @ [TaskSend c]\<rparr>"]) auto
  then show ?thesis using assms(3) by simp
next
  case (call m t)
  have "did t = []"
    using task_runD(1) [OF session_task(1) [OF assms(2) call(3)] call(4)] by simp
  then show ?thesis using call assms(4) by (auto simp: last_words_def split: if_splits)
qed (use assms(4) in \<open>auto simp: last_words_def split: if_splits\<close>)

text \<open>What a step of the pool does to a call.\<close>

definition later :: "('ev, 'f) call \<Rightarrow> ('ev, 'f) call \<Rightarrow> bool" where
  "later c c' \<longleftrightarrow> c_sub c' = c_sub c \<and> c_filters c' = c_filters c \<and> c_uid c' = c_uid c
     \<and> prefix (sink_writes (c_did c)) (sink_writes (c_did c'))"

lemma later_refl [simp]: "later c c"
  by (simp add: later_def)

lemma later_iterate: "c_stage c = Forwarding \<Longrightarrow> later c (iterate ser evj it c)"
  by (simp add: later_def iterate_forward)

lemma later_each: "p_calls s k = Some c \<Longrightarrow> later c (f c) \<Longrightarrow> \<exists>c'. p_calls (each_call f s) k = Some c' \<and> later c c'"
  by (simp add: each_call_def)

lemma later_put:
  assumes "p_calls s k = Some c" "p_calls s j = Some d \<Longrightarrow> later d d'" "j = k \<Longrightarrow> p_calls s j = Some d" "p_calls r = p_calls s"
  shows "\<exists>c'. p_calls (put j d' r) k = Some c' \<and> later c c'"
  using assms by (cases "j = k") (auto simp: put_def)

lemma pool_step_later:
  assumes "pool_step ser evj cap d s s'" "p_calls s k = Some c"
  shows "\<exists>c'. p_calls s' k = Some c' \<and> later c c'"
  using assms(1)
proof cases
  case (begins j filters uid csub)
  then show ?thesis using assms(2) by (auto simp: put_def)
next
  case (broadcast n)
  have "later c (offer cap n c)" by (simp add: later_def offer_def)
  then show ?thesis using later_each [OF assms(2)] broadcast by (simp add: each_call_def)
next
  case passes
  have "later c (c\<lparr>c_poll := c_poll c - d\<rparr>)" by (simp add: later_def)
  then show ?thesis using later_each [OF assms(2), of "\<lambda>c. c\<lparr>c_poll := c_poll c - d\<rparr>"] passes by simp
next
  case (recv j e n ns w)
  have "later e (iterate ser evj \<lparr>sel = Recv n, write_ok = w, active = c_alive e\<rparr> (e\<lparr>c_inbox := ns\<rparr>))"
    using later_iterate [of "e\<lparr>c_inbox := ns\<rparr>"] recv(4) by (simp add: later_def)
  then show ?thesis unfolding recv(2) using recv(3) by (intro later_put [OF assms(2)]) auto
next
  case (lagged j e m w)
  have "later e (iterate ser evj \<lparr>sel = Lagged m, write_ok = w, active = c_alive e\<rparr> (e\<lparr>c_missed := 0\<rparr>))"
    using later_iterate [of "e\<lparr>c_missed := 0\<rparr>"] lagged(4) by (simp add: later_def)
  then show ?thesis unfolding lagged(2) using lagged(3) by (intro later_put [OF assms(2)]) auto
next
  case (closed j e w)
  show ?thesis unfolding closed(2) using closed(3) later_iterate [OF closed(4)] by (intro later_put [OF assms(2)]) auto
next
  case (tick j e w)
  show ?thesis unfolding tick(2) using tick(3) later_iterate [OF tick(4)] by (intro later_put [OF assms(2)]) auto
next
  case (opened j e)
  show ?thesis unfolding opened(2) using opened(3) by (intro later_put [OF assms(2)]) (auto simp: later_def)
next
  case (refused j e x)
  show ?thesis unfolding refused(2) using refused(3) by (intro later_put [OF assms(2)]) (auto simp: later_def)
next
  case (unwinds j e)
  show ?thesis unfolding unwinds(2) using unwinds(3) by (intro later_put [OF assms(2)]) (auto simp: later_def leave_def)
next
  case (client_gone j e)
  show ?thesis unfolding client_gone(2) using client_gone(3) by (intro later_put [OF assms(2)]) (auto simp: later_def)
next
  case hangs_up
  then show ?thesis using assms(2) by simp
qed

section \<open>The invariant\<close>

text \<open>A task has sent a part of the chunks of its call, and after them at most one CLOSED frame of the
  shim's own.\<close>

definition fed_by :: "(json \<Rightarrow> string) \<Rightarrow> 'tok sub_task \<Rightarrow> string list \<Rightarrow> bool" where
  "fed_by disp t chunks \<longleftrightarrow>
     prefix (task_sends (did t)) chunks
     \<or> last_words t \<and> (\<exists>cs e. prefix cs chunks \<and> task_sends (did t) = cs @ [closed_frame disp (task_sub t) e])"

lemma fed_by_mono: "fed_by disp t chunks \<Longrightarrow> prefix chunks chunks' \<Longrightarrow> fed_by disp t chunks'"
  unfolding fed_by_def by (meson prefix_order.trans)

definition live_inv :: "(json \<Rightarrow> string) \<Rightarrow> (json \<Rightarrow> string + 'f) \<Rightarrow> ('ev, 'f, 'tok) world \<Rightarrow> bool" where
  "live_inv disp filter_of w \<longleftrightarrow>
     (\<forall>n t. tasks (bridge w) n = Some t \<longrightarrow> fed_by disp t (chunks_of (server w) (routed w n)))
     \<and> (\<forall>n k. routed w n = Some k \<longrightarrow>
          (\<exists>t c. tasks (bridge w) n = Some t \<and> p_calls (server w) k = Some c \<and> c_sub c = task_sub t
             \<and> map filter_of (task_filters t) = map Inr (c_filters c)))
     \<and> (\<forall>m n k. routed w m = Some k \<and> routed w n = Some k \<longrightarrow> m = n)"

lemma fed_by_step:
  assumes "session_step from_str disp who s s'" "session_reachable from_str disp s" "\<not> takes_chunk s s'"
    "tasks s' n = Some t'" "\<And>t. tasks s n = Some t \<Longrightarrow> fed_by disp t chunks"
  shows "fed_by disp t' chunks"
  using task_step [OF assms(1-4)]
proof (elim disjE exE conjE)
  assume "did t' = []"
  then show ?thesis by (simp add: fed_by_def)
next
  fix t
  assume t: "tasks s n = Some t" "task_sub t' = task_sub t"
    and same: "task_sends (did t') = task_sends (did t)" "last_words t \<longrightarrow> last_words t'"
  have "fed_by disp t chunks" by (rule assms(5) [OF t(1)])
  then show ?thesis using t(2) same unfolding fed_by_def by auto
next
  fix t e
  assume t: "tasks s n = Some t" "task_sub t' = task_sub t" "\<not> last_words t" "last_words t'"
    and last: "task_sends (did t') = task_sends (did t) @ [closed_frame disp (task_sub t) e]"
  have "prefix (task_sends (did t)) chunks" using assms(5) [OF t(1)] t(3) by (simp add: fed_by_def)
  then show ?thesis using t(2,4) last unfolding fed_by_def by auto
qed

lemma live_inv_bridges:
  assumes "session_step from_str disp who (bridge w) b" "session_reachable from_str disp (bridge w)"
    "\<not> takes_chunk (bridge w) b" "live_inv disp filter_of w"
  shows "live_inv disp filter_of (w\<lparr>bridge := b\<rparr>)"
proof -
  have keeps: "\<exists>t'. tasks b n = Some t' \<and> task_sub t' = task_sub t \<and> task_filters t' = task_filters t"
    if "tasks (bridge w) n = Some t" for n t
    using phase_step [OF assms(1,2) that] by blast
  have "fed_by disp t' (chunks_of (server w) (routed w n))" if "tasks b n = Some t'" for n t'
    using fed_by_step [OF assms(1-3) that, of "chunks_of (server w) (routed w n)"] assms(4) by (simp add: live_inv_def)
  moreover have "\<exists>t c. tasks b n = Some t \<and> p_calls (server w) k = Some c \<and> c_sub c = task_sub t
      \<and> map filter_of (task_filters t) = map Inr (c_filters c)" if r: "routed w n = Some k" for n k
  proof -
    obtain t c where tc: "tasks (bridge w) n = Some t" "p_calls (server w) k = Some c" "c_sub c = task_sub t"
      "map filter_of (task_filters t) = map Inr (c_filters c)"
      using assms(4) r unfolding live_inv_def by blast
    then show ?thesis using keeps [OF tc(1)] by auto
  qed
  ultimately show ?thesis using assms(4) unfolding live_inv_def by simp
qed

lemma chunks_of_later:
  assumes "\<And>c. p_calls s k = Some c \<Longrightarrow> \<exists>c'. p_calls s' k = Some c' \<and> later c c'"
  shows "prefix (chunks_of s (Some k)) (chunks_of s' (Some k))"
  using assms by (cases "p_calls s k") (auto simp: chunks_of_def later_def)

lemma live_inv_serves:
  assumes "pool_step ser evj cap d (server w) p" "live_inv disp filter_of w"
  shows "live_inv disp filter_of (w\<lparr>server := p\<rparr>)"
proof -
  have "prefix (chunks_of (server w) k) (chunks_of p k)" for k
    using chunks_of_later [OF pool_step_later [OF assms(1)]] by (cases k) (auto simp: chunks_of_def)
  then have "fed_by disp t (chunks_of p (routed w n))" if "tasks (bridge w) n = Some t" for n t
    using assms(2) that fed_by_mono unfolding live_inv_def by blast
  moreover have "\<exists>t c. tasks (bridge w) n = Some t \<and> p_calls p k = Some c \<and> c_sub c = task_sub t
      \<and> map filter_of (task_filters t) = map Inr (c_filters c)" if r: "routed w n = Some k" for n k
  proof -
    obtain t c where tc: "tasks (bridge w) n = Some t" "p_calls (server w) k = Some c" "c_sub c = task_sub t"
      "map filter_of (task_filters t) = map Inr (c_filters c)"
      using assms(2) r unfolding live_inv_def by blast
    then show ?thesis using pool_step_later [OF assms(1) tc(2)] by (auto simp: later_def)
  qed
  ultimately show ?thesis using assms(2) unfolding live_inv_def by simp
qed

lemma live_inv_routes:
  assumes "live_inv disp filter_of w" "tasks (bridge w) n = Some t" "routed w n = None" "p_calls (server w) k = None"
    "map filter_of (task_filters t) = map Inr gs"
  shows "live_inv disp filter_of
    (w\<lparr>server := put k (new_call (task_sub t) gs uid now) (server w), routed := (routed w)(n \<mapsto> k)\<rparr>)"
proof -
  let ?c = "new_call (task_sub t) gs uid now"
  let ?p = "put k ?c (server w)"
  let ?w = "w\<lparr>server := ?p, routed := (routed w)(n \<mapsto> k)\<rparr>"
  have calls: "p_calls ?p j = (if j = k then Some ?c else p_calls (server w) j)" for j by (simp add: put_def)
  have c: "c_sub ?c = task_sub t" "c_filters ?c = gs" by (simp_all add: new_call_def)
  have unused: "routed w m \<noteq> Some k" for m
    using assms(1,4) unfolding live_inv_def by force
  have single: "m = m'" if "routed w m = Some j" "routed w m' = Some j" for m m' j
    using assms(1) that unfolding live_inv_def by blast
  have fed: "fed_by disp u (chunks_of (server w) (routed w m))" if "tasks (bridge w) m = Some u" for m u
    using assms(1) that by (simp add: live_inv_def)
  have "fed_by disp u (chunks_of ?p (((routed w)(n \<mapsto> k)) m))" if u: "tasks (bridge w) m = Some u" for m u
  proof (cases "m = n")
    case True
    have "fed_by disp u []" using fed [OF u] True assms(3) by (simp add: chunks_of_def)
    then show ?thesis by (rule fed_by_mono) simp
  next
    case False
    then have "chunks_of ?p (((routed w)(n \<mapsto> k)) m) = chunks_of (server w) (routed w m)"
      using unused [of m] by (cases "routed w m") (auto simp: chunks_of_def calls)
    then show ?thesis using fed [OF u] by simp
  qed
  moreover have "\<exists>u d. tasks (bridge w) m = Some u \<and> p_calls ?p j = Some d \<and> c_sub d = task_sub u
      \<and> map filter_of (task_filters u) = map Inr (c_filters d)" if r: "((routed w)(n \<mapsto> k)) m = Some j" for m j
  proof (cases "m = n")
    case True
    then have "tasks (bridge w) m = Some t" "p_calls ?p j = Some ?c" using r assms(2) by (simp_all add: put_def)
    moreover have "map filter_of (task_filters t) = map Inr (c_filters ?c)" by (simp only: c assms(5))
    ultimately show ?thesis using c(1) by blast
  next
    case False
    then have "routed w m = Some j" "j \<noteq> k" using r unused by auto
    then show ?thesis using assms(1) by (simp add: calls live_inv_def)
  qed
  moreover have "m = m'" if "((routed w)(n \<mapsto> k)) m = Some j" "((routed w)(n \<mapsto> k)) m' = Some j" for m m' j
  proof (cases "m = n \<or> m' = n")
    case True
    then show ?thesis using that unused [of m] unused [of m'] by (auto split: if_splits)
  next
    case False
    then have "routed w m = Some j" using that(1) by simp
    moreover have "routed w m' = Some j" using False that(2) by simp
    ultimately show ?thesis by (rule single)
  qed
  moreover have proj: "bridge ?w = bridge w" "server ?w = ?p" "routed ?w = (routed w)(n \<mapsto> k)" by simp_all
  ultimately show ?thesis unfolding live_inv_def proj by blast
qed

lemma live_inv_delivers:
  assumes "live_inv disp filter_of w" "tasks (bridge w) n = Some t" "phase t = Streaming tok"
    "length (task_sends (did t)) < length (chunks_of (server w) (routed w n))"
  shows "live_inv disp filter_of
    (w\<lparr>bridge := task_send n t (Streaming tok) (chunks_of (server w) (routed w n) ! length (task_sends (did t))) (bridge w)\<rparr>)"
proof -
  let ?chunks = "chunks_of (server w) (routed w n)"
  let ?t = "t\<lparr>phase := Streaming tok, did := did t @ [TaskSend (?chunks ! length (task_sends (did t)))]\<rparr>"
  have "prefix (task_sends (did t)) ?chunks"
    using assms(1-3) unfolding live_inv_def fed_by_def last_words_def by force
  then have "prefix (task_sends (did ?t)) ?chunks"
    using assms(4) by (auto simp: prefix_def nth_append hd_conv_nth [symmetric] neq_Nil_conv)
  then have "fed_by disp ?t ?chunks" by (simp add: fed_by_def)
  moreover have "\<exists>u c. ((tasks (bridge w))(n \<mapsto> ?t)) m = Some u \<and> p_calls (server w) k = Some c \<and> c_sub c = task_sub u
      \<and> map filter_of (task_filters u) = map Inr (c_filters c)" if r: "routed w m = Some k" for m k
  proof -
    obtain u c where "tasks (bridge w) m = Some u" "p_calls (server w) k = Some c" "c_sub c = task_sub u"
      "map filter_of (task_filters u) = map Inr (c_filters c)"
      using assms(1) r unfolding live_inv_def by blast
    then show ?thesis using assms(2) by (cases "m = n") auto
  qed
  ultimately show ?thesis using assms(1) unfolding live_inv_def by simp
qed

lemma live_inv_new: "live_inv disp filter_of new_world"
  by (simp add: live_inv_def new_world_def new_session_def)

lemma live_reachable_inv: "live_reachable from_str disp filter_of ser evj cap w \<Longrightarrow> live_inv disp filter_of w"
proof (induction rule: live_reachable.induct)
  case boot
  show ?case by (rule live_inv_new)
next
  case (runs w w')
  have parts: "session_reachable from_str disp (bridge w)" using live_parts [OF runs.hyps(1)] by blast
  from runs.hyps(2) show ?case
  proof cases
    case (bridges who b)
    then show ?thesis using live_inv_bridges [OF _ parts _ runs.IH] by simp
  next
    case (serves d p)
    then show ?thesis using live_inv_serves [OF _ runs.IH] by simp
  next
    case (routes n t k ps gs uid)
    have "ps = \<lparr>subscription_id = task_sub t, param_filters = task_filters t\<rparr>"
      using routes(6) by (simp add: subscribe_params_roundtrip)
    then show ?thesis using live_inv_routes [OF runs.IH routes(2,4,5)] routes(1,7) by simp
  next
    case (delivers n t tok)
    then show ?thesis using live_inv_delivers [OF runs.IH delivers(2,3,5)] by simp
  qed
qed

lemma live_route:
  assumes "live_inv disp filter_of w" "routed w n = Some k" "tasks (bridge w) n = Some t"
  obtains c where "p_calls (server w) k = Some c" "c_sub c = task_sub t" "map filter_of (task_filters t) = map Inr (c_filters c)"
proof -
  obtain u c where "tasks (bridge w) n = Some u" "p_calls (server w) k = Some c" "c_sub c = task_sub u"
    "map filter_of (task_filters u) = map Inr (c_filters c)"
    using assms(1,2) unfolding live_inv_def by blast
  moreover from this(1) have "u = t" using assms(3) by simp
  ultimately show ?thesis using that by blast
qed

text \<open>What the client has of a subscription.\<close>

definition received_frames :: "('ev, 'f, 'tok) world \<Rightarrow> nat \<Rightarrow> string list" where
  "received_frames w n = of_sender (SubTask n) (written (channel (bridge w)))"

lemma received_frames_sent:
  assumes "session_reachable from_str disp (bridge w)" "tasks (bridge w) n = Some t"
  shows "prefix (received_frames w n) (task_sends (did t))"
    and "idle (channel (bridge w)) \<Longrightarrow> receiving (channel (bridge w)) \<Longrightarrow> received_frames w n = task_sends (did t)"
proof -
  have out: "outbound_inv (channel (bridge w))"
    using session_reachable_inv [OF assms(1)] by (auto simp: session_inv_def intro: outbound_reachable_inv)
  note made = session_task(2) [OF assms]
  show "prefix (received_frames w n) (task_sends (did t))"
    using out made unfolding outbound_inv_def received_frames_def by metis
  show "received_frames w n = task_sends (did t)" if "idle (channel (bridge w))" "receiving (channel (bridge w))"
  proof -
    have "made (channel (bridge w)) (SubTask n) = received_frames w n"
      using out that by (simp add: outbound_inv_def idle_def received_frames_def)
    then show ?thesis using made by simp
  qed
qed

lemma fed_by_received:
  assumes "fed_by disp t chunks" "prefix fs (task_sends (did t))"
  shows "\<exists>cs. prefix cs chunks \<and> (fs = cs \<or> (\<exists>e. fs = cs @ [closed_frame disp (task_sub t) e]))"
  using assms(1) unfolding fed_by_def
proof (elim disjE exE conjE)
  assume "prefix (task_sends (did t)) chunks"
  then have "prefix fs chunks" using assms(2) prefix_order.trans by blast
  then show ?thesis by blast
next
  fix cs e
  assume cs: "prefix cs chunks" "task_sends (did t) = cs @ [closed_frame disp (task_sub t) e]"
  then have "fs = cs @ [closed_frame disp (task_sub t) e] \<or> prefix fs cs" using assms(2) by simp
  then show ?thesis using cs(1) prefix_order.trans by blast
qed

lemma chunks_of_call: "p_calls s k = Some c \<Longrightarrow> chunks_of s (Some k) = sink_writes (c_did c)"
  by (simp add: chunks_of_def)

text \<open>The chunks of a routed task are those of its call's own stream.\<close>

lemma live_served:
  assumes "live_inv disp filter_of w" "pool_inv ser evj (server w)" "routed w n = Some k" "tasks (bridge w) n = Some t"
    "prefix cs (chunks_of (server w) (Some k))"
  shows "\<exists>c ms. p_calls (server w) k = Some c \<and> c_sub c = task_sub t
    \<and> map filter_of (task_filters t) = map Inr (c_filters c) \<and> subseq ms (drop (c_joined c) (p_sent (server w)))
    \<and> (c_lost c = 0 \<longrightarrow> ms = drop (c_joined c) (p_sent (server w)))
    \<and> prefix cs (stream_spec ser evj (c_uid c) (task_sub t) ms)"
proof -
  obtain c where c: "p_calls (server w) k = Some c" "c_sub c = task_sub t" "map filter_of (task_filters t) = map Inr (c_filters c)"
    by (rule live_route [OF assms(1,3,4)])
  then have sent: "prefix cs (sink_writes (c_did c))" using assms(5) by (simp add: chunks_of_call)
  obtain ms where "subseq ms (drop (c_joined c) (p_sent (server w)))"
    "prefix (sink_writes (c_did c)) (stream_spec ser evj (c_uid c) (task_sub t) ms)"
    "c_lost c = 0 \<longrightarrow> ms = drop (c_joined c) (p_sent (server w))"
    using calls_written(2,3) [OF assms(2) c(1)] c(2) by (cases "c_lost c = 0") auto
  moreover from this(2) have "prefix cs (stream_spec ser evj (c_uid c) (task_sub t) ms)"
    using sent prefix_order.trans by blast
  ultimately show ?thesis using c by (intro exI [of _ c] exI [of _ ms] conjI) simp_all
qed

text \<open>No step moves a task or a call back.\<close>

lemma live_advances:
  assumes "live_step from_str disp filter_of ser evj cap w w'" "session_reachable from_str disp (bridge w)"
  shows "tasks (bridge w) n = Some t \<Longrightarrow> \<exists>t'. tasks (bridge w') n = Some t' \<and> phase t \<le> phase t'"
    and "p_calls (server w) k = Some c \<Longrightarrow> \<exists>c'. p_calls (server w') k = Some c' \<and> c_stage c \<le> c_stage c'"
proof -
  show "\<exists>t'. tasks (bridge w') n = Some t' \<and> phase t \<le> phase t'" if "tasks (bridge w) n = Some t"
    using assms(1)
  proof cases
    case (bridges who b)
    then show ?thesis using phase_step [OF _ assms(2) that] by fastforce
  qed (use that in auto)
  show "\<exists>c'. p_calls (server w') k = Some c' \<and> c_stage c \<le> c_stage c'" if "p_calls (server w) k = Some c"
    using assms(1)
  proof cases
    case (serves d p)
    then show ?thesis using stage_step [OF _ that] by simp
  next
    case (routes n t j ps gs uid)
    then show ?thesis using that by (auto simp: put_def)
  qed (use that in auto)
qed

lemma live_advances_run:
  assumes "(live_step from_str disp filter_of ser evj cap)\<^sup>*\<^sup>* w w'" "live_reachable from_str disp filter_of ser evj cap w"
  shows "live_reachable from_str disp filter_of ser evj cap w'
    \<and> (tasks (bridge w) n = Some t \<longrightarrow> (\<exists>t'. tasks (bridge w') n = Some t' \<and> phase t \<le> phase t'))
    \<and> (p_calls (server w) k = Some c \<longrightarrow> (\<exists>c'. p_calls (server w') k = Some c' \<and> c_stage c \<le> c_stage c'))"
  using assms(1)
proof (induction rule: rtranclp_induct)
  case base
  show ?case using assms(2) by simp
next
  case (step v w')
  then have "session_reachable from_str disp (bridge v)" using live_parts by blast
  note one = live_advances [OF step.hyps(2) this]
  have "live_reachable from_str disp filter_of ser evj cap w'" using step live_reachable.runs by blast
  moreover have "\<exists>t'. tasks (bridge w') n = Some t' \<and> phase t \<le> phase t'" if "tasks (bridge w) n = Some t"
    using step.IH that one(1) [of n] order_trans by metis
  moreover have "\<exists>c'. p_calls (server w') k = Some c' \<and> c_stage c \<le> c_stage c'" if "p_calls (server w) k = Some c"
    using step.IH that one(2) [of k] order_trans by metis
  ultimately show ?case by blast
qed

section \<open>An example\<close>

lemma live_bridges:
  "live_reachable from_str disp filter_of ser evj cap w \<Longrightarrow> session_step from_str disp who (bridge w) b \<Longrightarrow>
     \<not> takes_chunk (bridge w) b \<Longrightarrow> live_reachable from_str disp filter_of ser evj cap (w\<lparr>bridge := b\<rparr>)"
  by (rule live_reachable.runs [OF _ live_step.bridges])

lemma live_serves:
  "pool_run ser evj cap t s p \<Longrightarrow> live_reachable from_str disp filter_of ser evj cap w \<Longrightarrow> server w = s \<Longrightarrow>
     live_reachable from_str disp filter_of ser evj cap (w\<lparr>server := p\<rparr>)"
proof (induction rule: pool_run.induct)
  case (on t s s' d s'')
  then have "live_reachable from_str disp filter_of ser evj cap (w\<lparr>server := s', server := s''\<rparr>)"
    using live_reachable.runs [OF _ live_step.serves [of ser evj cap d "w\<lparr>server := s'\<rparr>" s'']] by simp
  then show ?case by simp
next
  case (here s)
  then show ?case by (cases w) auto
qed

lemma live_example:
  fixes disp :: "json \<Rightarrow> string" and tok :: 'tok
  shows "\<exists>w :: (unit, unit, 'tok) world. \<exists>t.
     live_reachable (\<lambda>_. Some [JString ''REQ'', JString ''s'', JNull]) disp (\<lambda>_. Inr ()) (\<lambda>_. Some ''x'') (\<lambda>_. JNull) 4 w
     \<and> tasks (bridge w) 0 = Some t \<and> task_sub t = ''s'' \<and> phase t = Streaming tok \<and> task_sends (did t) = [''x'']
     \<and> routed w 0 = Some 0 \<and> server w = attended True \<and> idle (channel (bridge w)) \<and> receiving (channel (bridge w))"
proof -
  let ?parse = "\<lambda>_ :: string. Some [JString ''REQ'', JString ''s'', JNull]"
  let ?live = "live_reachable ?parse disp (\<lambda>_. Inr ()) (\<lambda>_. Some ''x'') (\<lambda>_ :: unit. JNull) 4 :: (unit, unit, 'tok) world \<Rightarrow> bool"
  let ?t = "\<lambda>ph d. \<lparr>task_sub = ''s'', task_filters = [JNull], phase = ph, did = d\<rparr> :: 'tok sub_task"
  let ?call = "CallTool ''subscribe'' (subscribe_args ''s'' [JNull]) :: 'tok task_effect"
  let ?b = "\<lambda>t ch. (new_session :: 'tok session)\<lparr>tasks := [0 \<mapsto> t], main_log := [SpawnSubscribe 0 ''s'' [JNull]],
      conn_state := \<lparr>subs = [(''s'', 0)], next_task = 1\<rparr>, frames_read := [InText []], channel := ch\<rparr>"
  let ?w = "\<lambda>t ch p r. \<lparr>bridge = ?b t ch, server = p, routed = r\<rparr> :: (unit, unit, 'tok) world"
  let ?p0 = "put 0 (new_call ''s'' [()] ''a'' 0) new_pool :: (unit, unit) pool"
  let ?ch = "new_outbound\<lparr>made := (\<lambda>_. [])(SubTask 0 := [''x''])\<rparr>"
  note quiet = takes_chunk_def new_session_def
  have frame: "handle_text ?parse disp new_conn [] = ([SpawnSubscribe 0 ''s'' [JNull]], \<lparr>subs = [(''s'', 0)], next_task = 1\<rparr>)"
    by (simp add: handle_text_def parse_client_frame_def cancel_sub_def new_conn_def)
  have "session_step ?parse disp Client new_session (?b (?t (Opening False) []) new_outbound)"
    using session_step.read [of new_session ?parse disp "[]" "[SpawnSubscribe 0 ''s'' [JNull]]"] frame
    by (simp add: new_session_def new_outbound_def act_eqs)
  then have 1: "?live (?w (?t (Opening False) []) new_outbound new_pool Map.empty)"
    using live_bridges [OF live_reachable.boot, of ?parse disp Client "?b (?t (Opening False) []) new_outbound"]
    by (simp add: new_world_def quiet)
  have 2: "?live (?w (?t (Opening True) [?call]) new_outbound new_pool Map.empty)"
    using live_bridges [OF 1 session_step.call [of _ 0 "?t (Opening False) []"]]
    by (simp add: quiet put_task_def)
  have 3: "?live (?w (?t (Opening True) [?call]) new_outbound ?p0 [0 \<mapsto> 0])"
    using live_reachable.runs [OF 2 live_step.routes [of _ 0 "?t (Opening True) [?call]" 0 _ "\<lambda>_. Inr ()" "[()]" "''a''"]]
    by (simp add: subscribe_params_roundtrip new_session_def new_pool_def)
  have 4: "?live (?w (?t (Streaming tok) [?call]) new_outbound ?p0 [0 \<mapsto> 0])"
    using live_bridges [OF 3 session_step.opened [of _ 0 "?t (Opening True) [?call]" _ _ tok]]
    by (simp add: quiet put_task_def)
  have 5: "?live (?w (?t (Streaming tok) [?call]) new_outbound (attended True) [0 \<mapsto> 0])"
    using live_serves [OF attended_run 4] by simp
  have "chunks_of (attended True) (Some 0) = [''x'']"
    by (simp add: chunks_of_def attended_def attended_call_def)
  then have 6: "?live (?w (?t (Streaming tok) [?call, TaskSend ''x'']) (?ch\<lparr>waiting := (\<lambda>_. [])(SubTask 0 := [''x''])\<rparr>) (attended True) [0 \<mapsto> 0])"
    using live_reachable.runs [OF 5 live_step.delivers [of _ 0 "?t (Streaming tok) [?call]" tok]]
    by (simp add: new_session_def new_outbound_def task_send_def put_task_def give_def)
  have 7: "?live (?w (?t (Streaming tok) [?call, TaskSend ''x'']) (?ch\<lparr>queue := [(SubTask 0, ''x'')]\<rparr>) (attended True) [0 \<mapsto> 0])"
    using live_bridges [OF 6 session_step.transfer [OF _ move.enqueue [of _ "SubTask 0" "''x''" "[]"]]]
    by (simp add: quiet new_outbound_def outbound_buf_def fun_upd_idem)
  have 8: "?live (?w (?t (Streaming tok) [?call, TaskSend ''x'']) (?ch\<lparr>writing := Some (SubTask 0, ''x'')\<rparr>) (attended True) [0 \<mapsto> 0])"
    using live_bridges [OF 7 session_step.transfer [OF _ move.recv [of _ "(SubTask 0, ''x'')" "[]"]]]
    by (simp add: quiet new_outbound_def)
  have 9: "?live (?w (?t (Streaming tok) [?call, TaskSend ''x'']) (?ch\<lparr>written := [(SubTask 0, ''x'')]\<rparr>) (attended True) [0 \<mapsto> 0])"
    using live_bridges [OF 8 session_step.transfer [OF _ move.wrote [of _ "(SubTask 0, ''x'')"]]]
    by (simp add: quiet new_outbound_def)
  then show ?thesis
    by (intro exI [of _ "?w (?t (Streaming tok) [?call, TaskSend ''x'']) (?ch\<lparr>written := [(SubTask 0, ''x'')]\<rparr>) (attended True) [0 \<mapsto> 0]"]
        exI [of _ "?t (Streaming tok) [?call, TaskSend ''x'']"] conjI) (simp_all add: idle_def in_transit_def new_outbound_def)
qed

section \<open>Properties\<close>

text \<open>C1: the live system, whatever its clients, tasks, calls, clock and transport do in which order.
  What a client holds of a subscription is a part, from the start, of the frames of its own upstream
  messages in the order of their broadcast, with at most one CLOSED frame of the shim after them; a
  call that fell behind may lack some. Every frame bears the subscription id of the client's REQ, its
  filters are what the server subscribed to, and no other task is served by the same call.\<close>
theorem live_stream:
  assumes "live_reachable from_str disp filter_of ser evj cap w" and "tasks (bridge w) n = Some t"
  shows "(\<forall>f \<in> set (received_frames w n). labelled ser (task_sub t) f \<or> (\<exists>e. f = closed_frame disp (task_sub t) e))
    \<and> (routed w n = None \<longrightarrow> (\<exists>e. prefix (received_frames w n) [closed_frame disp (task_sub t) e]))
    \<and> (routed w n = Some k \<longrightarrow>
        (\<forall>m. routed w m = Some k \<longrightarrow> m = n)
        \<and> (\<exists>c. p_calls (server w) k = Some c \<and> c_sub c = task_sub t \<and> map filter_of (task_filters t) = map Inr (c_filters c)
            \<and> (\<exists>ms cs. subseq ms (drop (c_joined c) (p_sent (server w)))
                 \<and> (c_lost c = 0 \<longrightarrow> ms = drop (c_joined c) (p_sent (server w)))
                 \<and> prefix cs (stream_spec ser evj (c_uid c) (task_sub t) ms)
                 \<and> (received_frames w n = cs \<or> (\<exists>e. received_frames w n = cs @ [closed_frame disp (task_sub t) e])))))"
proof -
  let ?got = "received_frames w n"
  have session: "session_reachable from_str disp (bridge w)" and pool: "pool_inv ser evj (server w)"
    using live_parts [OF assms(1)] pool_reachable_inv by blast+
  have inv: "live_inv disp filter_of w" by (rule live_reachable_inv [OF assms(1)])
  then have "fed_by disp t (chunks_of (server w) (routed w n))" using assms(2) by (simp add: live_inv_def)
  then obtain cs where cs: "prefix cs (chunks_of (server w) (routed w n))"
    "?got = cs \<or> (\<exists>e. ?got = cs @ [closed_frame disp (task_sub t) e])"
    using fed_by_received received_frames_sent(1) [OF session assms(2)] by blast
  note served = live_served [OF inv pool _ assms(2)]
  have upstream: "prefix cs (chunks_of (server w) (Some k))" if "routed w n = Some k" for k using cs(1) that by simp
  have "labelled ser (task_sub t) f" if f: "f \<in> set cs" for f
  proof (cases "routed w n")
    case None
    then show ?thesis using cs(1) f by (simp add: chunks_of_def)
  next
    case (Some k)
    obtain uid ms where "prefix cs (stream_spec ser evj uid (task_sub t) ms)" using served [OF Some upstream [OF Some]] by blast
    then have "f \<in> set (stream_spec ser evj uid (task_sub t) ms)" using f set_mono_prefix by blast
    then show ?thesis by (rule stream_spec_labelled)
  qed
  then have "\<forall>f \<in> set ?got. labelled ser (task_sub t) f \<or> (\<exists>e. f = closed_frame disp (task_sub t) e)"
    using cs(2) by auto
  moreover have "\<exists>e. prefix ?got [closed_frame disp (task_sub t) e]" if "routed w n = None"
    using cs that by (auto simp: chunks_of_def)
  moreover have "\<forall>m. routed w m = Some k \<longrightarrow> m = n" if "routed w n = Some k"
    using inv that unfolding live_inv_def by blast
  moreover have "\<exists>c. p_calls (server w) k = Some c \<and> c_sub c = task_sub t \<and> map filter_of (task_filters t) = map Inr (c_filters c)
            \<and> (\<exists>ms cs. subseq ms (drop (c_joined c) (p_sent (server w)))
                 \<and> (c_lost c = 0 \<longrightarrow> ms = drop (c_joined c) (p_sent (server w)))
                 \<and> prefix cs (stream_spec ser evj (c_uid c) (task_sub t) ms)
                 \<and> (?got = cs \<or> (\<exists>e. ?got = cs @ [closed_frame disp (task_sub t) e])))" if "routed w n = Some k"
    using served [OF that upstream [OF that]] cs(2) by (elim exE conjE) (intro exI [of _ cs] exI conjI, assumption+)
  ultimately show ?thesis by (intro conjI impI)
qed

theorem live_stream_witness:
  "\<exists>w :: (unit, unit, nat) world. received_frames w 0 = [''x'']
     \<and> (\<forall>f \<in> set (received_frames w 0). labelled (\<lambda>_. Some ''x'') ''s'' f \<or> (\<exists>e. f = closed_frame (\<lambda>_. []) ''s'' e))"
proof -
  obtain w :: "(unit, unit, nat) world" and t where w:
    "live_reachable (\<lambda>_. Some [JString ''REQ'', JString ''s'', JNull]) (\<lambda>_. []) (\<lambda>_. Inr ()) (\<lambda>_. Some ''x'') (\<lambda>_. JNull) 4 w"
    "tasks (bridge w) 0 = Some t" "task_sub t = ''s''" "task_sends (did t) = [''x'']" "idle (channel (bridge w))"
    "receiving (channel (bridge w))"
    using live_example [of "\<lambda>_. []" 7] by blast
  have "received_frames w 0 = [''x'']"
    using received_frames_sent(2) [OF conjunct1 [OF live_parts [OF w(1)]] w(2)] w(4-6) by simp
  then show ?thesis using live_stream [OF w(1,2), THEN conjunct1] w(3) by (intro exI [of _ w]) simp
qed

text \<open>C6: nothing is missing once nothing is in flight. When a subscription streams, its call has not
  fallen behind and has read its inbox, the transport has delivered what the call wrote, and the
  connection's channel is empty, then the client holds the frames of all own messages that were
  broadcast since the call began, the first to the last.\<close>
theorem live_caught_up:
  assumes "live_reachable from_str disp filter_of ser evj cap w"
    and "tasks (bridge w) n = Some t" and "phase t = Streaming tok" and "routed w n = Some k"
    and "p_calls (server w) k = Some c" and "c_stage c = Forwarding" and "c_lost c = 0" and "c_inbox c = []"
    and "length (task_sends (did t)) = length (sink_writes (c_did c))"
    and "idle (channel (bridge w))" and "receiving (channel (bridge w))"
  shows "received_frames w n = stream_spec ser evj (c_uid c) (task_sub t) (drop (c_joined c) (p_sent (server w)))"
proof -
  have session: "session_reachable from_str disp (bridge w)" and pool: "pool_inv ser evj (server w)"
    using live_parts [OF assms(1)] pool_reachable_inv by blast+
  have inv: "live_inv disp filter_of w" by (rule live_reachable_inv [OF assms(1)])
  then have "fed_by disp t (sink_writes (c_did c))"
    using assms(2,4,5) by (simp add: live_inv_def) (metis chunks_of_call)
  then have "prefix (task_sends (did t)) (sink_writes (c_did c))"
    using assms(3) by (simp add: fed_by_def last_words_def)
  then have "task_sends (did t) = sink_writes (c_did c)"
    using assms(9) by (auto simp: prefix_def)
  moreover have "c_sub c = task_sub t"
    using live_route [OF inv assms(4,2)] assms(5) by (metis option.inject)
  ultimately show ?thesis
    using calls_written(4) [OF pool assms(5,7,6,8)] received_frames_sent(2) [OF session assms(2,10,11)] by simp
qed

theorem live_caught_up_witness:
  "\<exists>w :: (unit, unit, nat) world. received_frames w 0 =
     stream_spec (\<lambda>_. Some ''x'') (\<lambda>_. JNull) ''a'' ''s'' [NMessage ''r'' (REndOfStoredEvents ''a'')]"
proof -
  obtain w :: "(unit, unit, nat) world" and t where w:
    "live_reachable (\<lambda>_. Some [JString ''REQ'', JString ''s'', JNull]) (\<lambda>_. []) (\<lambda>_. Inr ()) (\<lambda>_. Some ''x'') (\<lambda>_. JNull) 4 w"
    "tasks (bridge w) 0 = Some t" "task_sub t = ''s''" "phase t = Streaming 7" "task_sends (did t) = [''x'']"
    "routed w 0 = Some 0" "server w = attended True" "idle (channel (bridge w))" "receiving (channel (bridge w))"
    using live_example [of "\<lambda>_. []" 7] by blast
  have c: "p_calls (server w) 0 = Some (attended_call True)" using w(7) by (simp add: attended_calls)
  have n: "length (task_sends (did t)) = length (sink_writes (c_did (attended_call True)))"
    using w(5) by (simp add: attended_call_def)
  have "received_frames w 0 = stream_spec (\<lambda>_. Some ''x'') (\<lambda>_. JNull) (c_uid (attended_call True)) (task_sub t)
      (drop (c_joined (attended_call True)) (p_sent (server w)))"
    by (rule live_caught_up [OF w(1,2,4,6) c _ _ _ n w(8,9)]) (simp_all only: attended_call_fields)
  then show ?thesis using w(3,7) by (intro exI [of _ w]) (simp only: attended_call_fields, simp add: attended_def)
qed

text \<open>Nothing goes back. However the live system runs on, a task only moves forward through opening,
  streaming and ending, and keeps the token of its stream as long as it streams; a call only moves
  forward from registering to its return. One that has ended stays so, a call with the result it
  returned.\<close>

lemma live_never_back:
  assumes "live_reachable from_str disp filter_of ser evj cap w"
    and "(live_step from_str disp filter_of ser evj cap)\<^sup>*\<^sup>* w w'"
  shows "(tasks (bridge w) n = Some t \<longrightarrow> (\<exists>t'. tasks (bridge w') n = Some t' \<and> phase t \<le> phase t'
          \<and> (phase t = Ended \<longrightarrow> phase t' = Ended)
          \<and> (\<forall>tok tok'. phase t = Streaming tok \<and> phase t' = Streaming tok' \<longrightarrow> tok = tok')))
    \<and> (p_calls (server w) k = Some c \<longrightarrow> (\<exists>c'. p_calls (server w') k = Some c' \<and> c_stage c \<le> c_stage c'
          \<and> (\<forall>r. c_stage c = Left r \<longrightarrow> c_stage c' = Left r)))"
proof -
  have "phase t = Ended \<longrightarrow> phase t' = Ended" "\<forall>tok tok'. phase t = Streaming tok \<and> phase t' = Streaming tok' \<longrightarrow> tok = tok'"
    if "phase t \<le> phase t'" for t'
    using that by (auto simp: less_eq_task_phase_def) (cases "phase t'"; auto split: if_splits)
  moreover have "\<forall>r. c_stage c = Left r \<longrightarrow> c_stage c' = Left r" if "c_stage c \<le> c_stage c'" for c'
    using that by (cases "c_stage c'") (auto simp: less_eq_stage_def)
  ultimately show ?thesis
    using live_advances_run [OF assms(2,1), of n t k c] by blast
qed

end
