(* ===== verification/Shim_System.thy ===== *)
theory Shim_System
  imports Server Session
begin

text \<open>
  The whole shim at work: any number of visitors at once, each a WebSocket connection or a request
  for a page, dispatched by the router of \<open>server.rs\<close>, all of them callers of the one transport
  cache (\<open>transport.rs\<close>), and each connection a \<open>Session\<close> (\<open>conn.rs\<close>) once it has its transport.
  Lookups, builds, sessions and pages interleave in any order.

  A visitor is its own caller of the cache, under its number. The future of a page request can be
  dropped while it waits, that of a connection runs on. \<open>dialed\<close> records the configuration
  with which \<open>build_client\<close> made a transport; no step depends on it.
\<close>

section \<open>States\<close>

datatype ('h, 'tok) visitor =
    Resolving string parsed_path
  | Bridged parsed_path transport "'tok session"
  | Asking string parsed_path "'h option"
  | Page parsed_path "string + transport" response
  | Done "served option" "conn_effect list"

record ('m, 'h, 'tok) shim =
  app :: "'m app_state"
  visitors :: "nat \<rightharpoonup> ('h, 'tok) visitor"
  dialed :: "nat \<rightharpoonup> client_transport_config"

definition new_shim :: "'m app_state \<Rightarrow> ('m, 'h, 'tok) shim" where
  "new_shim st = \<lparr>app = st, visitors = Map.empty, dialed = Map.empty\<rparr>"

abbreviation shared :: "('m, 'h, 'tok) shim \<Rightarrow> 'm cache" where
  "shared s \<equiv> transports (app s)"

definition with_cache :: "'m cache \<Rightarrow> ('m, 'h, 'tok) shim \<Rightarrow> ('m, 'h, 'tok) shim" where
  "with_cache c s = s\<lparr>app := (app s)\<lparr>transports := c\<rparr>\<rparr>"

definition put_visitor :: "nat \<Rightarrow> ('h, 'tok) visitor \<Rightarrow> ('m, 'h, 'tok) shim \<Rightarrow> ('m, 'h, 'tok) shim" where
  "put_visitor v x s = s\<lparr>visitors := (visitors s)(v \<mapsto> x)\<rparr>"

text \<open>The address of a visitor that has asked the cache and has no answer yet.\<close>

fun pending :: "('h, 'tok) visitor \<Rightarrow> parsed_path option" where
  "pending (Resolving pubkey p) = Some p"
| "pending (Asking pubkey p accept) = Some p"
| "pending _ = None"

text \<open>\<open>TransportCache::get\<close> of a visitor begins.\<close>

definition ask_cache ::
  "('m \<Rightarrow> string \<Rightarrow> nat option \<times> 'm) \<Rightarrow> ('m \<Rightarrow> string \<Rightarrow> nat \<Rightarrow> 'm) \<Rightarrow> nat \<Rightarrow> string \<Rightarrow> 'm cache \<Rightarrow> 'm cache"
where
  "ask_cache lget lput v k c =
     (let (a, c') = cache_lookup lget lput c k in c'\<lparr>callers := (callers c')(v := Waiting k a)\<rparr>)"

section \<open>Steps\<close>

inductive shim_step ::
  "(string \<Rightarrow> json list option) \<Rightarrow> (json \<Rightarrow> string) \<Rightarrow> (json \<Rightarrow> string option) \<Rightarrow> ('h \<Rightarrow> string option)
   \<Rightarrow> (string \<Rightarrow> path_error + parsed_path) \<Rightarrow> (transport \<Rightarrow> string + json option)
   \<Rightarrow> (string \<Rightarrow> 'u option) \<Rightarrow> ('u \<Rightarrow> string)
   \<Rightarrow> ('m \<Rightarrow> string \<Rightarrow> nat option \<times> 'm) \<Rightarrow> ('m \<Rightarrow> string \<Rightarrow> nat \<Rightarrow> 'm)
   \<Rightarrow> ('m, 'h, 'tok) shim \<Rightarrow> ('m, 'h, 'tok) shim \<Rightarrow> bool"
  for from_str disp pretty to_str parse rpc parse_url url_str lget lput
where
  connects: "visitors s v = None \<Longrightarrow>
     router pretty to_str parse get rpc (app s) segments up hs accept = Some (Bridge pubkey n m) \<Longrightarrow>
     parse pubkey = Inr p \<Longrightarrow>
     shim_step from_str disp pretty to_str parse rpc parse_url url_str lget lput s
       (put_visitor v (Resolving pubkey p) (with_cache (ask_cache lget lput v (hex p) (shared s)) s))"
| asks: "visitors s v = None \<Longrightarrow> parse pubkey = Inr p \<Longrightarrow>
     shim_step from_str disp pretty to_str parse rpc parse_url url_str lget lput s
       (put_visitor v (Asking pubkey p accept) (with_cache (ask_cache lget lput v (hex p) (shared s)) s))"
| at_once: "visitors s v = None \<Longrightarrow>
     out = router pretty to_str parse get rpc (app s) segments up hs accept \<Longrightarrow>
     (\<And>pubkey p. segments = [pubkey] \<Longrightarrow> parse pubkey = Inr p \<Longrightarrow> up \<and> hs \<noteq> Inr ()) \<Longrightarrow>
     es = (case out of Some (Bridge pubkey n m) \<Rightarrow> handle_ws from_str disp order parse get pubkey [] | _ \<Rightarrow> []) \<Longrightarrow>
     shim_step from_str disp pretty to_str parse rpc parse_url url_str lget lput s (put_visitor v (Done out es) s)"
| waits: "visitors s v = Some x \<Longrightarrow> pending x \<noteq> None \<Longrightarrow> cache_step lget lput (shared s) c \<Longrightarrow>
     callers c v \<noteq> Idle \<Longrightarrow> callers c v \<noteq> callers (shared s) v \<Longrightarrow> builds c = builds (shared s) \<Longrightarrow>
     shim_step from_str disp pretty to_str parse rpc parse_url url_str lget lput s (with_cache c s)"
| builds: "visitors s v = Some x \<Longrightarrow> pending x = Some p \<Longrightarrow> callers (shared s) v = Building k a \<Longrightarrow>
     t = Transport k (builds (shared s)) \<Longrightarrow>
     shim_step from_str disp pretty to_str parse rpc parse_url url_str lget lput s
       (with_cache ((shared s)\<lparr>cells := (cells (shared s))(a := CellReady t), builds := Suc (builds (shared s)),
            callers := (callers (shared s))(v := caller.Returned k a (Inr t))\<rparr>)
          (s\<lparr>dialed := (dialed s)(builds (shared s) \<mapsto>
             client_config parse_url url_str (config (app s)) p (cache_loopback (app s)))\<rparr>))"
| bridged: "visitors s v = Some (Resolving pubkey p) \<Longrightarrow> callers (shared s) v = caller.Returned k a (Inr t) \<Longrightarrow>
     shim_step from_str disp pretty to_str parse rpc parse_url url_str lget lput s (put_visitor v (Bridged p t new_session) s)"
| unavailable: "visitors s v = Some (Resolving pubkey p) \<Longrightarrow> callers (shared s) v = caller.Returned k a (Inl e) \<Longrightarrow>
     shim_step from_str disp pretty to_str parse rpc parse_url url_str lget lput s
       (put_visitor v (Done None (handle_ws from_str disp order parse (\<lambda>_. Inl e :: string + transport) pubkey [])) s)"
| answers: "visitors s v = Some (Asking pubkey p accept) \<Longrightarrow> callers (shared s) v = caller.Returned k a r \<Longrightarrow>
     shim_step from_str disp pretty to_str parse rpc parse_url url_str lget lput s
       (put_visitor v (Page p r (serve_pubkey pretty to_str parse (\<lambda>_. r) rpc (config (app s)) accept pubkey)) s)"
| drops: "visitors s v = Some (Asking pubkey p accept) \<Longrightarrow> cache_step lget lput (shared s) c \<Longrightarrow>
     callers (shared s) v \<noteq> Idle \<Longrightarrow> callers c v = Idle \<Longrightarrow>
     shim_step from_str disp pretty to_str parse rpc parse_url url_str lget lput s (put_visitor v (Done None []) (with_cache c s))"
| talks: "visitors s v = Some (Bridged p t b) \<Longrightarrow> session_step from_str disp who b b' \<Longrightarrow>
     shim_step from_str disp pretty to_str parse rpc parse_url url_str lget lput s (put_visitor v (Bridged p t b') s)"

inductive shim_reachable ::
  "(string \<Rightarrow> json list option) \<Rightarrow> (json \<Rightarrow> string) \<Rightarrow> (json \<Rightarrow> string option) \<Rightarrow> ('h \<Rightarrow> string option)
   \<Rightarrow> (string \<Rightarrow> path_error + parsed_path) \<Rightarrow> (transport \<Rightarrow> string + json option)
   \<Rightarrow> (string \<Rightarrow> 'u option) \<Rightarrow> ('u \<Rightarrow> string)
   \<Rightarrow> ('m \<Rightarrow> string \<Rightarrow> nat option \<times> 'm) \<Rightarrow> ('m \<Rightarrow> string \<Rightarrow> nat \<Rightarrow> 'm) \<Rightarrow> 'm app_state
   \<Rightarrow> ('m, 'h, 'tok) shim \<Rightarrow> bool"
  for from_str disp pretty to_str parse rpc parse_url url_str lget lput st
where
  opens: "shim_reachable from_str disp pretty to_str parse rpc parse_url url_str lget lput st (new_shim st)"
| runs: "shim_reachable from_str disp pretty to_str parse rpc parse_url url_str lget lput st s \<Longrightarrow>
     shim_step from_str disp pretty to_str parse rpc parse_url url_str lget lput s s' \<Longrightarrow>
     shim_reachable from_str disp pretty to_str parse rpc parse_url url_str lget lput st s'"

section \<open>The invariant\<close>

text \<open>What a transport must be for the address of whoever holds it.\<close>

definition dialed_for :: "('m, 'h, 'tok) shim \<Rightarrow> string \<Rightarrow> transport \<Rightarrow> bool" where
  "dialed_for s k t \<longleftrightarrow>
     for_key t = k \<and> serial t < builds (shared s) \<and> (\<exists>tcfg. dialed s (serial t) = Some tcfg \<and> server_pubkey tcfg = k)"

fun visitor_ok ::
  "(string \<Rightarrow> json list option) \<Rightarrow> (json \<Rightarrow> string) \<Rightarrow> ('m, 'h, 'tok) shim \<Rightarrow> caller \<Rightarrow> ('h, 'tok) visitor \<Rightarrow> bool"
where
  "visitor_ok from_str disp s c (Resolving pubkey p) = (\<exists>a. caller_cell c = Some (hex p, a))"
| "visitor_ok from_str disp s c (Asking pubkey p accept) = (\<exists>a. caller_cell c = Some (hex p, a))"
| "visitor_ok from_str disp s c (Bridged p t b) = (dialed_for s (hex p) t \<and> session_reachable from_str disp b)"
| "visitor_ok from_str disp s c (Page p r resp) = (\<forall>t. r = Inr t \<longrightarrow> dialed_for s (hex p) t)"
| "visitor_ok from_str disp s c (Done out es) = True"

definition shim_inv ::
  "(string \<Rightarrow> json list option) \<Rightarrow> (json \<Rightarrow> string) \<Rightarrow> ('m \<Rightarrow> string \<Rightarrow> nat option \<times> 'm) \<Rightarrow> ('m \<Rightarrow> string \<Rightarrow> nat \<Rightarrow> 'm)
   \<Rightarrow> 'm \<Rightarrow> ('m, 'h, 'tok) shim \<Rightarrow> bool"
where
  "shim_inv from_str disp lget lput m s \<longleftrightarrow>
     cache_reachable lget lput m (shared s)
     \<and> (\<forall>v. visitors s v = None \<longrightarrow> callers (shared s) v = Idle)
     \<and> (\<forall>v x. visitors s v = Some x \<longrightarrow> visitor_ok from_str disp s (callers (shared s) v) x)
     \<and> (\<forall>a t. cells (shared s) a = CellReady t \<longrightarrow> dialed_for s (for_key t) t)"

text \<open>A step of the cache concerns one caller. Short of a finished build it readies no cell.\<close>

lemma cache_step_one:
  assumes "cache_step lget lput c c'" "callers c' v \<noteq> callers c v"
  shows "w \<noteq> v \<Longrightarrow> callers c' w = callers c w"
    and "callers c v \<noteq> Idle \<Longrightarrow> callers c' v \<noteq> Idle \<Longrightarrow> caller_cell (callers c' v) = caller_cell (callers c v)"
  using assms by (auto elim!: cache_stepE simp: frame_simps split: if_splits)

lemma cache_step_ready:
  assumes "cache_step lget lput c c'" "builds c' = builds c" "cells c' a = CellReady t"
  shows "cells c a = CellReady t"
  using assms by (auto elim!: cache_stepE simp: frame_simps split: if_splits)

lemma cache_step_builds: "cache_step lget lput c c' \<Longrightarrow> builds c \<le> builds c'"
  by (auto elim!: cache_stepE simp: frame_simps)

lemma visitor_ok_mono:
  assumes "visitor_ok from_str disp s c x" "\<And>k t. dialed_for s k t \<Longrightarrow> dialed_for s' k t"
  shows "visitor_ok from_str disp s' c x"
  using assms by (cases x) auto

text \<open>The invariant after a step of one visitor: only its own clauses and the cells are left to show.\<close>

lemma shim_inv_visitor:
  assumes inv: "shim_inv from_str disp lget lput m s"
    and "cache_reachable lget lput m (shared s')"
    and "\<And>w. w \<noteq> v \<Longrightarrow> visitors s' w = visitors s w \<and> callers (shared s') w = callers (shared s) w"
    and "\<And>k t. dialed_for s k t \<Longrightarrow> dialed_for s' k t"
    and "visitors s' v = Some x" "visitor_ok from_str disp s' (callers (shared s') v) x"
    and "\<And>a t. cells (shared s') a = CellReady t \<Longrightarrow> dialed_for s' (for_key t) t"
  shows "shim_inv from_str disp lget lput m s'"
  unfolding shim_inv_def
proof (intro conjI allI impI)
  fix w
  assume n: "visitors s' w = None"
  with assms(5) have "w \<noteq> v" by auto
  with n inv assms(3) show "callers (shared s') w = Idle" by (simp add: shim_inv_def)
next
  fix w y
  assume y: "visitors s' w = Some y"
  show "visitor_ok from_str disp s' (callers (shared s') w) y"
  proof (cases "w = v")
    case False
    with y assms(3) have y': "visitors s w = Some y"
      and c: "callers (shared s') w = callers (shared s) w" by simp_all
    have "visitor_ok from_str disp s (callers (shared s) w) y" using inv y' by (simp add: shim_inv_def)
    then show ?thesis unfolding c by (rule visitor_ok_mono) (rule assms(4))
  qed (use y assms(5,6) in simp)
qed (use assms(2,7) in blast)+

lemma shim_projs [simp]:
  "shared (with_cache c s) = c" "visitors (with_cache c s) = visitors s" "dialed (with_cache c s) = dialed s"
  "shared (put_visitor v x s) = shared s" "visitors (put_visitor v x s) = (visitors s)(v \<mapsto> x)"
  "dialed (put_visitor v x s) = dialed s"
  by (simp_all add: with_cache_def put_visitor_def)

lemma dialed_for_mono:
  "dialed_for s k t \<Longrightarrow> dialed s' = dialed s \<Longrightarrow> builds (shared s) \<le> builds (shared s') \<Longrightarrow> dialed_for s' k t"
  by (auto simp: dialed_for_def)

text \<open>The steps that leave the cache alone.\<close>

lemma shim_inv_put:
  assumes "shim_inv from_str disp lget lput m s" "visitor_ok from_str disp s (callers (shared s) v) x"
  shows "shim_inv from_str disp lget lput m (put_visitor v x s)"
proof -
  have d: "dialed_for (put_visitor v x s) k t \<longleftrightarrow> dialed_for s k t" for k t by (simp add: dialed_for_def)
  show ?thesis
    by (rule shim_inv_visitor [OF assms(1), where v = v and x = x])
      (use assms in \<open>auto simp: shim_inv_def d intro: visitor_ok_mono\<close>)
qed

text \<open>The steps in which one visitor moves in the cache and nothing is built.\<close>

lemma shim_inv_cache:
  assumes inv: "shim_inv from_str disp lget lput m s"
    and st: "cache_step lget lput (shared s) c" and b: "builds c = builds (shared s)"
    and w: "\<And>w. w \<noteq> v \<Longrightarrow> callers c w = callers (shared s) w"
    and x: "visitor_ok from_str disp s (callers c v) x"
  shows "shim_inv from_str disp lget lput m (put_visitor v x (with_cache c s))"
proof -
  let ?s = "put_visitor v x (with_cache c s)"
  have d: "dialed_for ?s k t \<longleftrightarrow> dialed_for s k t" for k t by (simp add: dialed_for_def b)
  have r: "cache_reachable lget lput m c"
    using cache_reachable.step [OF _ st] inv by (simp add: shim_inv_def)
  have "dialed_for s (for_key t) t" if "cells c a = CellReady t" for a t
    using cache_step_ready [OF st b that] inv by (simp add: shim_inv_def)
  then show ?thesis
    by (intro shim_inv_visitor [OF inv, where v = v and x = x])
      (use r w x in \<open>auto simp: d intro: visitor_ok_mono\<close>)
qed

lemma shim_inv_ask:
  assumes inv: "shim_inv from_str disp lget lput m s" and v: "visitors s v = None"
    and x: "\<And>c. visitor_ok from_str disp s c x = (\<exists>a. caller_cell c = Some (k, a))"
  shows "shim_inv from_str disp lget lput m (put_visitor v x (with_cache (ask_cache lget lput v k (shared s)) s))"
proof -
  obtain a c where l: "cache_lookup lget lput (shared s) k = (a, c)" by fastforce
  have i: "callers (shared s) v = Idle" using inv v by (simp add: shim_inv_def)
  have "ask_cache lget lput v k (shared s) = c\<lparr>callers := (callers c)(v := Waiting k a)\<rparr>"
    by (simp add: ask_cache_def l)
  moreover have "cache_step lget lput (shared s) (c\<lparr>callers := (callers c)(v := Waiting k a)\<rparr>)"
    by (rule cache_step.lookup [OF i l])
  ultimately show ?thesis
    by (intro shim_inv_cache [OF inv]) (simp_all add: cache_lookup_frame [OF l] x)
qed

lemma put_same: "visitors s v = Some x \<Longrightarrow> put_visitor v x (with_cache c s) = with_cache c s"
  by (simp add: put_visitor_def with_cache_def fun_upd_idem)

lemma pending_ok:
  "pending x = Some p \<Longrightarrow> visitor_ok from_str disp s c x = (\<exists>a. caller_cell c = Some (hex p, a))"
  by (cases x) auto

lemma shim_inv_ok:
  "shim_inv from_str disp lget lput m s \<Longrightarrow> visitors s v = Some x \<Longrightarrow>
     visitor_ok from_str disp s (callers (shared s) v) x"
  unfolding shim_inv_def by blast

lemma pending_cell:
  assumes "shim_inv from_str disp lget lput m s" "visitors s v = Some x" "pending x = Some p"
  shows "\<exists>a. caller_cell (callers (shared s) v) = Some (hex p, a)"
  using shim_inv_ok [OF assms(1,2)] by (simp add: pending_ok [OF assms(3)])

lemma shim_inv_wait:
  assumes inv: "shim_inv from_str disp lget lput m s"
    and x: "visitors s v = Some x" "pending x = Some p" and st: "cache_step lget lput (shared s) c"
    and c: "callers c v \<noteq> Idle" "callers c v \<noteq> callers (shared s) v" "builds c = builds (shared s)"
  shows "shim_inv from_str disp lget lput m (with_cache c s)"
proof -
  have ok: "\<exists>a. caller_cell (callers (shared s) v) = Some (hex p, a)"
    by (rule pending_cell [OF inv x])
  then have "callers (shared s) v \<noteq> Idle" by auto
  then have "caller_cell (callers c v) = caller_cell (callers (shared s) v)"
    by (rule cache_step_one(2) [OF st c(2) _ c(1)])
  with ok have "visitor_ok from_str disp s (callers c v) x" by (simp add: pending_ok [OF x(2)])
  from shim_inv_cache [OF inv st c(3) cache_step_one(1) [OF st c(2)] this]
  show ?thesis by (simp add: put_same x)
qed

lemma shim_inv_built:
  assumes inv: "shim_inv from_str disp lget lput m s"
    and x: "visitors s v = Some x" "pending x = Some p" and c: "callers (shared s) v = Building k a"
    and t: "t = Transport k (builds (shared s))"
  shows "shim_inv from_str disp lget lput m
    (with_cache ((shared s)\<lparr>cells := (cells (shared s))(a := CellReady t), builds := Suc (builds (shared s)),
            callers := (callers (shared s))(v := caller.Returned k a (Inr t))\<rparr>)
          (s\<lparr>dialed := (dialed s)(builds (shared s) \<mapsto>
             client_config parse_url url_str (config (app s)) p (cache_loopback (app s)))\<rparr>))" (is "shim_inv _ _ _ _ _ ?s")
proof -
  have kp: "k = hex p" using pending_cell [OF inv x] c by auto
  have r: "cache_reachable lget lput m (shared ?s)"
    using cache_reachable.step [OF _ cache_step.built [OF c]] inv by (simp add: shim_inv_def t)
  have mono: "dialed_for ?s k' t'" if "dialed_for s k' t'" for k' t'
    using that by (auto simp: dialed_for_def)
  have new: "dialed_for ?s k t" by (simp add: dialed_for_def t kp client_config_def)
  have cell: "dialed_for ?s (for_key t') t'" if "cells (shared ?s) b = CellReady t'" for b t'
  proof (cases "b = a")
    case True
    with that have "t' = t" by simp
    with new show ?thesis by (simp add: t)
  next
    case False
    with that have "cells (shared s) b = CellReady t'" by simp
    with inv have "dialed_for s (for_key t') t'" by (simp add: shim_inv_def)
    then show ?thesis by (rule mono)
  qed
  show ?thesis
    by (rule shim_inv_visitor [OF inv r _ mono _ _ cell, where v = v and x = x])
      (use x in \<open>simp_all add: pending_ok kp\<close>)
qed

lemma shim_inv_drop:
  assumes inv: "shim_inv from_str disp lget lput m s" and st: "cache_step lget lput (shared s) c"
    and c: "callers (shared s) v \<noteq> Idle" "callers c v = Idle"
  shows "shim_inv from_str disp lget lput m (put_visitor v (Done out es) (with_cache c s))"
proof -
  have "builds c = builds (shared s)"
    using st c by (auto elim!: cache_stepE simp: frame_simps split: if_splits)
  then show ?thesis
    using c by (intro shim_inv_cache [OF inv st] cache_step_one(1) [OF st]) auto
qed

lemma cell_inv_reachable:
  assumes "shim_inv from_str disp lget lput m s" "cell_cache lget lput entries cap" "entries m = []"
  obtains key_of where "cell_inv key_of (shared s)"
proof -
  have "cache_reachable lget lput m (shared s)" using assms(1) by (simp add: shim_inv_def)
  then obtain key_of where "cache_inv entries cap key_of (shared s)"
    using cell_cache.reachable_inv [OF assms(2) _ assms(3)] by blast
  then show ?thesis by (intro that [of key_of]) (simp add: cache_inv_iff)
qed

lemma handed_dialed:
  assumes inv: "shim_inv from_str disp lget lput m s" and em: "cell_cache lget lput entries cap" "entries m = []"
    and x: "visitors s v = Some x" "pending x = Some p" and c: "callers (shared s) v = caller.Returned k a (Inr t)"
  shows "dialed_for s (hex p) t"
proof -
  obtain key_of where ci: "cell_inv key_of (shared s)" using cell_inv_reachable [OF inv em] .
  have t: "cells (shared s) a = CellReady t" "key_of a = k" using cell_inv_caller(3,5) [OF ci c] by auto
  have "k = hex p" using pending_cell [OF inv x] c by auto
  with cell_inv_cell(1) [OF ci t(1)] t(2) have "for_key t = hex p" by simp
  moreover have "dialed_for s (for_key t) t" using inv t(1) by (simp add: shim_inv_def)
  ultimately show ?thesis by simp
qed

lemma shim_inv_step:
  assumes inv: "shim_inv from_str disp lget lput m s" and em: "cell_cache lget lput entries cap" "entries m = []"
    and st: "shim_step from_str disp pretty to_str parse rpc parse_url url_str lget lput s s'"
  shows "shim_inv from_str disp lget lput m s'"
  using st
proof cases
  case (connects v get segments up hs accept pubkey n n' p)
  then show ?thesis by (simp add: shim_inv_ask [OF inv])
next
  case (asks v pubkey p accept)
  then show ?thesis by (simp add: shim_inv_ask [OF inv])
next
  case (waits v x c)
  then obtain p where "pending x = Some p" by auto
  with waits show ?thesis by (simp add: shim_inv_wait [OF inv])
next
  case (builds v x p k a t)
  then show ?thesis using shim_inv_built [OF inv builds(2-5)] by simp
next
  case (bridged v pubkey p k a t)
  then have "dialed_for s (hex p) t" by (intro handed_dialed [OF inv em bridged(2)]) simp_all
  then show ?thesis using bridged by (simp add: shim_inv_put [OF inv] session_reachable.start)
next
  case (answers v pubkey p accept k a r)
  have "dialed_for s (hex p) t" if "r = Inr t" for t
    using answers that by (intro handed_dialed [OF inv em answers(2)]) simp_all
  then show ?thesis using answers by (simp add: shim_inv_put [OF inv])
next
  case (drops v pubkey p accept c)
  then show ?thesis by (simp add: shim_inv_drop [OF inv])
next
  case (talks v p t b who b')
  then show ?thesis using shim_inv_ok [OF inv talks(2)] by (simp add: shim_inv_put [OF inv] session_reachable.step [OF _ talks(3)])
qed (simp_all add: shim_inv_put [OF inv])

lemma shim_inv_new:
  assumes "transports st = new_cache m"
  shows "shim_inv from_str disp lget lput m (new_shim st)"
  using assms cache_reachable.fresh [of lget lput m]
  by (simp add: shim_inv_def new_shim_def new_cache_def)

lemma shim_reachable_inv:
  assumes "shim_reachable from_str disp pretty to_str parse rpc parse_url url_str lget lput st s"
    and "cell_cache lget lput entries cap" "entries m = []" "transports st = new_cache m"
  shows "shim_inv from_str disp lget lput m s"
  using assms(1)
  by induction (use assms(2-4) in \<open>auto intro: shim_inv_new shim_inv_step\<close>)

section \<open>A transport that is there is the one that serves\<close>

text \<open>A ready cell stays as it is, and so does the record of who dialed its transport.\<close>

lemma ready_keeps:
  assumes inv: "shim_inv from_str disp lget lput m s" and em: "cell_cache lget lput entries cap" "entries m = []"
    and st: "shim_step from_str disp pretty to_str parse rpc parse_url url_str lget lput s s'"
    and c: "cells (shared s) a = CellReady t"
  shows "cells (shared s') a = CellReady t \<and> dialed s' (serial t) = dialed s (serial t)"
proof -
  obtain key_of where ci: "cell_inv key_of (shared s)" using cell_inv_reachable [OF inv em] .
  have "cache_reachable lget lput m (shared s)" using inv by (simp add: shim_inv_def)
  note keep = cache_stable [OF em this c, THEN conjunct1, rule_format]
  from st show ?thesis
  proof cases
    case (connects v get segments up hs accept pubkey n n' p)
    then show ?thesis using c by (auto simp: ask_cache_def cache_lookup_def split: prod.split option.split)
  next
    case (asks v pubkey p accept)
    then show ?thesis using c by (auto simp: ask_cache_def cache_lookup_def split: prod.split option.split)
  next
    case (builds v x p k b t')
    have "serial t < cache.builds (shared s)" using cell_inv_cell(3) [OF ci c] .
    moreover have "b \<noteq> a" using cell_inv_caller(2) [OF ci builds(4)] c by auto
    ultimately show ?thesis using builds(1) c by simp
  qed (use c keep in auto)
qed

text \<open>How a visitor stands that found cell \<open>a\<close> with transport \<open>t\<close> in it.\<close>

fun bound_to :: "parsed_path \<Rightarrow> transport \<Rightarrow> ('h, 'tok) visitor \<Rightarrow> bool" where
  "bound_to p t (Resolving pubkey p') = (p' = p)"
| "bound_to p t (Asking pubkey p' accept) = (p' = p)"
| "bound_to p t (Bridged p' t' b) = (p' = p \<and> t' = t)"
| "bound_to p t (Page p' r resp) = (p' = p \<and> r = Inr t)"
| "bound_to p t (Done out es) = True"

definition joins :: "nat \<Rightarrow> parsed_path \<Rightarrow> nat \<Rightarrow> transport \<Rightarrow> ('m, 'h, 'tok) shim \<Rightarrow> bool" where
  "joins v p a t s \<longleftrightarrow>
     (\<exists>x. visitors s v = Some x \<and> bound_to p t x
       \<and> (pending x \<noteq> None \<longrightarrow> callers (shared s) v \<in> {Waiting (hex p) a, caller.Returned (hex p) a (Inr t)}))"

lemma cache_step_joins:
  assumes "cache_step lget lput c c'" "cells c a = CellReady t" "callers c' v \<noteq> Idle"
    and "callers c v \<in> {Waiting k a, caller.Returned k a (Inr t)}"
  shows "callers c' v \<in> {Waiting k a, caller.Returned k a (Inr t)}"
  using assms by (auto elim!: cache_stepE simp: frame_simps split: if_splits)

lemma joins_step:
  assumes j: "joins v p a t s" and c: "cells (shared s) a = CellReady t"
    and st: "shim_step from_str disp pretty to_str parse rpc parse_url url_str lget lput s s'"
  shows "joins v p a t s'"
proof -
  obtain x where x: "visitors s v = Some x" "bound_to p t x"
    "pending x \<noteq> None \<Longrightarrow> callers (shared s) v \<in> {Waiting (hex p) a, caller.Returned (hex p) a (Inr t)}"
    using j by (auto simp: joins_def)
  from st show ?thesis
  proof cases
    case (connects w get segments up hs accept pubkey n n' q)
    then show ?thesis using x
      by (auto simp: joins_def ask_cache_def cache_lookup_def split: prod.split option.split)
  next
    case (asks w pubkey q accept)
    then show ?thesis using x
      by (auto simp: joins_def ask_cache_def cache_lookup_def split: prod.split option.split)
  next
    case (waits w y c')
    have "callers c' v \<noteq> Idle" if "pending x \<noteq> None"
      using x(3) [OF that] waits(5) cache_step_one(1) [OF waits(4,6), of v] by (cases "w = v") auto
    then show ?thesis using x waits(1) cache_step_joins [OF waits(4) c, of v "hex p"]
      by (auto simp: joins_def)
  next
    case (builds w y q k b t')
    then show ?thesis using x by (auto simp: joins_def)
  next
    case (bridged w pubkey q k b t')
    then show ?thesis using x by (cases "w = v") (auto simp: joins_def)
  next
    case (answers w pubkey q accept k b r)
    then show ?thesis using x by (cases "w = v") (auto simp: joins_def)
  next
    case (unavailable w pubkey q k b e)
    then show ?thesis using x by (cases "w = v") (auto simp: joins_def)
  next
    case (drops w pubkey q accept c')
    have "w \<noteq> v \<Longrightarrow> callers c' v = callers (shared s) v"
      using cache_step_one(1) [OF drops(3), of w v] drops(4,5) by auto
    then show ?thesis using x drops(1) by (auto simp: joins_def)
  next
    case (talks w q t' b who b')
    then show ?thesis using x by (cases "w = v") (auto simp: joins_def)
  qed (use x in \<open>auto simp: joins_def\<close>)
qed

lemma joins_run:
  assumes "(shim_step from_str disp pretty to_str parse rpc parse_url url_str lget lput)\<^sup>*\<^sup>* s s'"
    and em: "cell_cache lget lput entries cap" "entries m = []"
    and start: "shim_inv from_str disp lget lput m s" "joins v p a t s" "cells (shared s) a = CellReady t"
  shows "shim_inv from_str disp lget lput m s' \<and> joins v p a t s' \<and> cells (shared s') a = CellReady t
    \<and> dialed s' (serial t) = dialed s (serial t)"
  using assms(1)
proof induction
  case (step s' s'')
  then have inv: "shim_inv from_str disp lget lput m s'" and j: "joins v p a t s'"
    and c: "cells (shared s') a = CellReady t" and d: "dialed s' (serial t) = dialed s (serial t)" by simp_all
  show ?case
    using shim_inv_step [OF inv em step.hyps(2)] joins_step [OF j c step.hyps(2)]
      ready_keeps [OF inv em step.hyps(2) c] d by simp
qed (use start in simp)

section \<open>An example\<close>

text \<open>Two addresses of one server, with different relay hints; the first visitor was served.\<close>

definition example_cfg :: shim_config where
  "example_cfg = \<lparr>listen_addr = ''127.0.0.1:4180'', relay_urls = [''wss://nostr.wtf''], private_key = None,
     encryption = EncOptional, connect_timeout = 15, gift_wrap = GwEphemeral, max_cached_outlays = 2,
     max_ws_message_bytes = 1048576, enable_relay = False, public_urls = []\<rparr>"

definition example_app :: "nat recency app_state" where
  "example_app =
     \<lparr>config = example_cfg, transports = new_cache example_map, cache_loopback = None, app_relay_url = None\<rparr>"

definition example_path :: "string \<Rightarrow> path_error + parsed_path" where
  "example_path pubkey = Inr \<lparr>hex = ''aa'', relay_hints = [''wss://'' @ pubkey]\<rparr>"

abbreviation example_dialed :: client_transport_config where
  "example_dialed \<equiv> client_config Some id example_cfg \<lparr>hex = ''aa'', relay_hints = [''wss://one'']\<rparr> None"

definition example_visits :: "(nat recency, unit, nat) shim" where
  "example_visits =
     \<lparr>app = example_app\<lparr>transports := example_state\<lparr>callers := (callers example_state)(3 := Waiting ''aa'' 0)\<rparr>\<rparr>,
      visitors = [7 \<mapsto> Bridged \<lparr>hex = ''aa'', relay_hints = [''wss://one'']\<rparr> (Transport ''aa'' 0) new_session,
                  3 \<mapsto> Resolving ''two'' \<lparr>hex = ''aa'', relay_hints = [''wss://two'']\<rparr>],
      dialed = [0 \<mapsto> example_dialed]\<rparr>"

lemma example_visits_reachable:
  "shim_reachable from_str disp pretty to_str example_path rpc Some id rl_get rl_put example_app example_visits"
proof -
  let ?one = "\<lparr>hex = ''aa'', relay_hints = [''wss://one'']\<rparr>"
  let ?two = "\<lparr>hex = ''aa'', relay_hints = [''wss://two'']\<rparr>"
  let ?reach = "shim_reachable from_str disp pretty to_str example_path rpc Some id rl_get rl_put example_app"
  let ?c = "\<lambda>cell w n. \<lparr>lru = \<lparr>rl_cap = 2, rl_entries = [(''aa'', 0)]\<rparr>, cells = (\<lambda>_. CellEmpty)(0 := cell),
     next_cell = 1, callers = (\<lambda>_. Idle)(7 := w), builds = n\<rparr> :: nat recency cache"
  let ?s = "\<lambda>c vs ds. \<lparr>app = example_app\<lparr>transports := c\<rparr>, visitors = vs, dialed = ds\<rparr>
     :: (nat recency, unit, nat) shim"
  let ?asked = "[7 \<mapsto> Resolving ''one'' ?one] :: nat \<Rightarrow> (unit, nat) visitor option"
  let ?t = "Transport ''aa'' 0" and ?n = "max_ws_message_bytes example_cfg"
  note eqs = example_app_def new_cache_def example_map_def ask_cache_def cache_lookup_def rl_get_def rl_put_def
    with_cache_def put_visitor_def
  note next' = shim_reachable.runs [of from_str disp pretty to_str example_path rpc Some id rl_get rl_put example_app]
  note asks = shim_step.connects [where get = "\<lambda>_. Inl []" and up = True and hs = "Inr ()" and accept = None
      and n = ?n and m = ?n]
  have "?reach (?s (?c CellEmpty (Waiting ''aa'' 0) 0) ?asked Map.empty)"
    using next' [OF shim_reachable.opens asks [where s = "new_shim example_app" and v = 7
        and segments = "[''one'']" and pubkey = "''one''" and p = ?one]]
    by (simp add: new_shim_def eqs router_def pubkey_handler_def example_path_def fun_upd_idem)
  note s1 = next' [OF this shim_step.waits [where v = 7, OF _ _ cache_step.start [where i = 7]]]
  have "?reach (?s (?c (CellBuilding 7) (Building ''aa'' 0) 0) ?asked Map.empty)"
    using s1 by (simp add: with_cache_def)
  note s2 = next' [OF this shim_step.builds [where v = 7 and t = ?t]]
  have "?reach (?s (?c (CellReady ?t) (caller.Returned ''aa'' 0 (Inr ?t)) 1) ?asked [0 \<mapsto> example_dialed])"
    using s2 by (simp add: with_cache_def example_app_def)
  note s3 = next' [OF this shim_step.bridged [where v = 7]]
  have "?reach (?s (?c (CellReady ?t) (caller.Returned ''aa'' 0 (Inr ?t)) 1)
      [7 \<mapsto> Bridged ?one ?t new_session] [0 \<mapsto> example_dialed])"
    using s3 by (simp add: put_visitor_def)
  note s4 = next' [OF this asks [where v = 3 and segments = "[''two'']" and pubkey = "''two''" and p = ?two]]
  show ?thesis
    using s4
    by (simp add: eqs router_def pubkey_handler_def example_path_def example_visits_def example_state_def)
qed

section \<open>Properties\<close>

text \<open>C18: a connection reaches the server of its own address, and so does a page. However lookups, builds,
  drops, connections and pages interleave, the transport behind a bridged connection, or behind the
  document of a page, was built with the key of that visitor's address; the bridged connection is a
  session of its own, in one of the states a session reaches; and two connections share a transport
  only when their addresses name one server.\<close>
theorem shim_own_server:
  assumes "cell_cache lget lput entries cap" and "entries m = []" and "transports st = new_cache m"
    and "shim_reachable from_str disp pretty to_str parse rpc parse_url url_str lget lput st s"
  shows "(visitors s v = Some (Bridged p t b) \<longrightarrow>
      session_reachable from_str disp b
      \<and> (\<exists>tcfg. dialed s (serial t) = Some tcfg \<and> server_pubkey tcfg = hex p)
      \<and> (visitors s w = Some (Bridged p' t b') \<longrightarrow> hex p' = hex p))
    \<and> (visitors s v = Some (Page p (Inr t) resp) \<longrightarrow>
      (\<exists>tcfg. dialed s (serial t) = Some tcfg \<and> server_pubkey tcfg = hex p))"
proof -
  note ok = shim_inv_ok [OF shim_reachable_inv [OF assms(4,1-3)]]
  show ?thesis
    by (intro conjI impI) (auto simp: dialed_for_def dest!: ok)
qed

theorem shim_own_server_witness:
  "visitors example_visits 7
     = Some (Bridged \<lparr>hex = ''aa'', relay_hints = [''wss://one'']\<rparr> (Transport ''aa'' 0) new_session)
   \<and> (\<exists>tcfg. dialed example_visits 0 = Some tcfg \<and> server_pubkey tcfg = ''aa'')"
proof -
  have e: "rl_entries example_map = []" and t: "transports example_app = new_cache example_map"
    by (simp_all add: example_map_def example_app_def)
  have v: "visitors example_visits 7
     = Some (Bridged \<lparr>hex = ''aa'', relay_hints = [''wss://one'']\<rparr> (Transport ''aa'' 0) new_session)"
    by (simp add: example_visits_def)
  show ?thesis
    using shim_own_server [OF recency_cells.cell_cache_axioms e t example_visits_reachable] v by fastforce
qed

text \<open>C19: a transport that is there is the one that serves. A connection whose lookup finds its server's
  transport ready is served by that transport or not at all, and through the relays that were
  resolved when the transport was built: relay hints in the connection's own address are not looked
  at. (The example connects with an address that names one relay and is served through another.)\<close>
theorem first_hints:
  assumes "cell_cache lget lput entries cap" and "entries m = []" and "transports st = new_cache m"
    and "shim_reachable from_str disp pretty to_str parse rpc parse_url url_str lget lput st s"
    and "visitors s v = Some (Resolving pubkey p)" and "callers (shared s) v = Waiting (hex p) a"
    and "cells (shared s) a = CellReady t"
    and "(shim_step from_str disp pretty to_str parse rpc parse_url url_str lget lput)\<^sup>*\<^sup>* s s'"
  shows "\<exists>tcfg. dialed s (serial t) = Some tcfg \<and> server_pubkey tcfg = hex p
    \<and> (visitors s' v = Some (Bridged p' t' b) \<longrightarrow> p' = p \<and> t' = t \<and> dialed s' (serial t') = Some tcfg)"
proof -
  have inv: "shim_inv from_str disp lget lput m s" by (rule shim_reachable_inv [OF assms(4,1-3)])
  have "joins v p a t s" using assms(5,6) by (simp add: joins_def)
  note run = joins_run [OF assms(8,1,2) inv this assms(7)]
  have "for_key t = hex p \<and> dialed_for s (for_key t) t"
  proof -
    obtain key_of where ci: "cell_inv key_of (shared s)" using cell_inv_reachable [OF inv assms(1,2)] .
    have "dialed_for s (for_key t) t" using inv assms(7) by (simp add: shim_inv_def)
    then show ?thesis using cell_inv_caller(1) [OF ci assms(6)] cell_inv_cell(1) [OF ci assms(7)] by simp
  qed
  then show ?thesis using run by (auto simp: dialed_for_def joins_def)
qed

theorem first_hints_witness:
  "\<exists>s :: (nat recency, unit, nat) shim.
     visitors s 3 = Some (Bridged \<lparr>hex = ''aa'', relay_hints = [''wss://two'']\<rparr> (Transport ''aa'' 0) new_session)
     \<and> resolve_relay_urls Some id example_cfg \<lparr>hex = ''aa'', relay_hints = [''wss://two'']\<rparr> None = [''wss://two'']
     \<and> (\<exists>tcfg. dialed s 0 = Some tcfg \<and> ct_relay_urls tcfg = [''wss://one''])"
proof -
  let ?step = "shim_step (\<lambda>_. None) (\<lambda>_. []) (\<lambda>_. None) (\<lambda>_. None) example_path (\<lambda>_. Inr None) Some id rl_get rl_put"
  let ?two = "\<lparr>hex = ''aa'', relay_hints = [''wss://two'']\<rparr>" and ?t = "Transport ''aa'' 0"
  let ?handed = "caller.Returned ''aa'' 0 (Inr ?t)"
  let ?c = "example_state\<lparr>callers := (callers example_state)(3 := ?handed)\<rparr>"
  have e: "rl_entries example_map = []" and t: "transports example_app = new_cache example_map"
    by (simp_all add: example_map_def example_app_def)
  have now: "visitors example_visits 3 = Some (Resolving ''two'' ?two)"
    "callers (shared example_visits) 3 = Waiting (hex ?two) 0" "cells (shared example_visits) 0 = CellReady ?t"
    by (simp_all add: example_visits_def example_state_def)
  have "cache_step rl_get rl_put (shared example_visits) ?c"
    using cache_step.join [OF now(2,3), of rl_get rl_put] by (simp add: example_visits_def)
  moreover have "callers ?c 3 \<noteq> callers (shared example_visits) 3" "builds ?c = builds (shared example_visits)"
    by (simp add: now(2)) (simp add: example_visits_def)
  ultimately have j: "?step example_visits (with_cache ?c example_visits)"
    by (intro shim_step.waits [OF now(1)]) simp_all
  have "?step (with_cache ?c example_visits)
      (put_visitor 3 (Bridged ?two ?t new_session) (with_cache ?c example_visits))"
    by (rule shim_step.bridged [where k = "''aa''" and a = 0]) (simp_all add: now)
  with j have "?step\<^sup>*\<^sup>* example_visits (put_visitor 3 (Bridged ?two ?t new_session) (with_cache ?c example_visits))"
    by simp
  note run = first_hints [OF recency_cells.cell_cache_axioms e t example_visits_reachable now this]
  have d: "dialed example_visits 0 = Some example_dialed" by (simp add: example_visits_def)
  show ?thesis
    by (rule exI [of _ "put_visitor 3 (Bridged ?two ?t new_session) (with_cache ?c example_visits)"])
      (use run [of ?two ?t new_session] d in
        \<open>auto simp: client_config_def resolve_relay_urls_def substitute_self_def\<close>)
qed

end
