(* ===== verification/Deadlines.thy ===== *)
theory Deadlines
  imports Proxy Transport
begin

text \<open>
  The deadlines of \<open>outlay/src/proxy.rs\<close> and of \<open>build_client\<close> (\<open>outlay-shim/src/transport.rs\<close>), with time in
  milliseconds. \<open>Proxy\<close> and \<open>Transport\<close> take the answer of a timed call as an input; here it is
  computed from when the call would complete, and when the function answers is part of its result.
\<close>

section \<open>Futures\<close>

text \<open>When a future is ready and with what; \<open>None\<close> never is.\<close>

type_synonym 'a future = "(nat \<times> 'a) option"

text \<open>
  A future under a deadline, as with \<open>tokio::time::timeout\<close>: when it is decided, and the value if the
  future was ready. When both fall together the first that is polled wins; \<open>tie\<close> says whether that
  is the future.
\<close>

fun timeout :: "bool \<Rightarrow> nat \<Rightarrow> 'a future \<Rightarrow> nat \<times> 'a option" where
  "timeout tie d None = (d, None)"
| "timeout tie d (Some (t, x)) = (if t < d \<or> t = d \<and> tie then (t, Some x) else (d, None))"

definition in_time :: "bool \<Rightarrow> nat \<Rightarrow> 'a future \<Rightarrow> bool" where
  "in_time tie d f \<longleftrightarrow> snd (timeout tie d f) \<noteq> None"

lemma in_time_simps [simp]:
  "in_time tie d None \<longleftrightarrow> False"
  "in_time tie d (Some (t, x)) \<longleftrightarrow> t < d \<or> t = d \<and> tie"
  by (simp_all add: in_time_def)

lemma timeout_bound: "fst (timeout tie d f) \<le> d"
  by (cases "(tie, d, f)" rule: timeout.cases) auto

lemma timeout_cases:
  "timeout tie d f = (if in_time tie d f then (fst (the f), Some (snd (the f))) else (d, None))"
  by (cases "(tie, d, f)" rule: timeout.cases) auto

section \<open>The proxy\<close>

definition publish_timeout :: nat where
  "publish_timeout = 15 * 1000"

definition relay_info_timeout :: nat where
  "relay_info_timeout = 10 * 1000"

text \<open>\<open>Proxy::publish_event\<close>; \<open>send\<close> is \<open>send_event\<close>: an error, or the two sets of its output.\<close>

definition publish_event_at ::
  "bool \<Rightarrow> string \<Rightarrow> (string + string list \<times> (string \<times> string) list) future
   \<Rightarrow> nat \<times> (proxy_error + publish_outcome)"
where
  "publish_event_at tie eid send =
     (let (t, output) = timeout tie publish_timeout send in
      (t, publish_event eid
            (case output of
               None \<Rightarrow> SendElapsed
             | Some (Inl e) \<Rightarrow> SendError e
             | Some (Inr (success, failed)) \<Rightarrow> SendOutput success failed)))"

text \<open>
  A GET by the client of \<open>Proxy::new\<close>, whose timeout covers the request up to the end of the body.
  \<open>head\<close> is the arrival of the status; \<open>body\<close>, counted from there, that of the body, as JSON if it
  is. The body is waited for only when the status is a success.
\<close>

definition http_get :: "bool \<Rightarrow> (string + nat) future \<Rightarrow> json option future \<Rightarrow> nat \<times> http_result" where
  "http_get tie head body =
     (case timeout tie relay_info_timeout head of
        (t, None) \<Rightarrow> (t, HttpError ''operation timed out'')
      | (t, Some (Inl e)) \<Rightarrow> (t, HttpError e)
      | (t, Some (Inr code)) \<Rightarrow>
          (if is_success code
           then (let (t', doc) = timeout tie (relay_info_timeout - t) body in
                 (t + t', HttpResponse code (case doc of Some d \<Rightarrow> d | None \<Rightarrow> None)))
           else (t, HttpResponse code None)))"

text \<open>\<open>Proxy::relay_info\<close>; a URL without an origin is refused before any request.\<close>

definition relay_info_at ::
  "bool \<Rightarrow> string \<Rightarrow> (string + nat) future \<Rightarrow> json option future \<Rightarrow> nat \<times> (proxy_error + json) option"
where
  "relay_info_at tie url head body =
     (let (t, response) = http_get tie head body in
      (if nip11_origin url = None then 0 else t, relay_info url (\<lambda>_. response)))"

section \<open>The shim's transport\<close>

text \<open>
  \<open>build_client\<close>. The constructor of the transport is awaited without a deadline, so the whole may
  never return; \<open>serve\<close>, counted from there, has \<open>connect_timeout\<close> seconds.
\<close>

definition build_client_at ::
  "bool \<Rightarrow> (string \<Rightarrow> 'u option) \<Rightarrow> ('u \<Rightarrow> string) \<Rightarrow> (string \<Rightarrow> string + 'key) \<Rightarrow> 'key
   \<Rightarrow> ('key \<Rightarrow> client_transport_config \<Rightarrow> (string + 'tr) future) \<Rightarrow> ('tr \<Rightarrow> 'handle)
   \<Rightarrow> ('tr \<Rightarrow> (string + 'c) future) \<Rightarrow> shim_config \<Rightarrow> parsed_path \<Rightarrow> string option
   \<Rightarrow> (string + 'c \<times> 'handle) future"
where
  "build_client_at tie parse_url url_str from_sk generated new_transport open_handle serve cfg parsed loopback =
     (let tcfg = client_config parse_url url_str cfg parsed loopback in
      case (case private_key cfg of Some k \<Rightarrow> from_sk k | None \<Rightarrow> Inr generated) of
        Inl e \<Rightarrow> Some (0, Inl e)
      | Inr signer \<Rightarrow>
          (case new_transport signer tcfg of
             None \<Rightarrow> None
           | Some (t, Inl e) \<Rightarrow> Some (t, Inl e)
           | Some (t, Inr tr) \<Rightarrow>
               (let handle = open_handle tr;
                    (t', r) = timeout tie (1000 * unat (connect_timeout cfg)) (serve tr)
                in Some (t + t',
                     case r of
                       None \<Rightarrow> Inl ''client transport startup timed out''
                     | Some (Inl e) \<Rightarrow> Inl e
                     | Some (Inr client) \<Rightarrow> Inr (client, handle)))))"

text \<open>What the untimed \<open>build_client\<close> is given as the answer of \<open>serve\<close>.\<close>

definition timed_serve :: "bool \<Rightarrow> nat \<Rightarrow> (string + 'c) future \<Rightarrow> 'c serve_result" where
  "timed_serve tie d f =
     (case snd (timeout tie d f) of
        None \<Rightarrow> ServeTimeout
      | Some (Inl e) \<Rightarrow> ServeError e
      | Some (Inr client) \<Rightarrow> Served client)"

section \<open>Lemmas\<close>

lemma http_get_bound: "fst (http_get tie head body) \<le> relay_info_timeout"
proof -
  have t: "fst (timeout tie relay_info_timeout head) \<le> relay_info_timeout" by (rule timeout_bound)
  have b: "fst (timeout tie (relay_info_timeout - n) body) \<le> relay_info_timeout - n" for n by (rule timeout_bound)
  show ?thesis
    using t b [of "fst (timeout tie relay_info_timeout head)"]
    by (auto simp: http_get_def Let_def split: prod.splits option.split sum.split)
qed

text \<open>The response a fetch ends with, told from when its parts arrive.\<close>

lemma http_get_response:
  "snd (http_get tie head body) = HttpResponse code (Some doc) \<longleftrightarrow>
     is_success code \<and> (\<exists>t t'. head = Some (t, Inr code) \<and> body = Some (t', Some doc)
       \<and> in_time tie relay_info_timeout head \<and> in_time tie (relay_info_timeout - t) body)"
  by (cases head; cases body)
    (auto simp: http_get_def timeout_cases Let_def split: prod.splits option.splits sum.splits if_splits)

lemma relay_info_at_doc:
  assumes "nip11_origin url \<noteq> None"
  shows "snd (relay_info_at tie url head body) =
    (if \<exists>t code t' doc. head = Some (t, Inr code) \<and> is_success code \<and> in_time tie 10000 head
         \<and> body = Some (t', Some doc) \<and> is_object doc \<and> in_time tie (10000 - t) body
     then map_option Inr (overlay_proxy_info (the (snd (the body))))
     else Some (Inr synthesized_proxy_info))"
proof -
  obtain origin where o: "nip11_origin url = Some origin" using assms by blast
  have "relay_info_timeout = 10000" by (simp add: relay_info_timeout_def)
  note resp = http_get_response [of tie head body, unfolded this]
  show ?thesis
  proof (cases "snd (http_get tie head body)")
    case (HttpError e)
    then have "\<not> (\<exists>code doc. snd (http_get tie head body) = HttpResponse code (Some doc))" by simp
    then show ?thesis using HttpError o unfolding resp
      by (auto simp: relay_info_at_def relay_info_def case_prod_beta)
  next
    case (HttpResponse code d)
    then show ?thesis using o resp [of code "the d"] resp
      by (auto simp: relay_info_at_def relay_info_def case_prod_beta split: option.split)
  qed
qed

text \<open>Once the transport is there, a client is built within the configured time, or the build fails; it
  is what \<open>build_client\<close> makes of the same answers.\<close>

lemma build_in_time:
  assumes "(case private_key cfg of Some k \<Rightarrow> from_sk k | None \<Rightarrow> Inr generated) = Inr signer"
    and "new_transport signer (client_config parse_url url_str cfg parsed loopback) = Some (t0, Inr tr)"
  shows "\<exists>t r. build_client_at tie parse_url url_str from_sk generated new_transport open_handle serve cfg parsed loopback
        = Some (t, r)
      \<and> t0 \<le> t \<and> t \<le> t0 + 1000 * unat (connect_timeout cfg)
      \<and> r = build_client parse_url url_str from_sk generated (\<lambda>k c. snd (the (new_transport k c))) open_handle
          (\<lambda>tr. timed_serve tie (1000 * unat (connect_timeout cfg)) (serve tr)) cfg parsed loopback"
  using assms timeout_bound [of tie "1000 * unat (connect_timeout cfg)" "serve tr"]
  by (auto simp: build_client_at_def build_client_def timed_serve_def Let_def case_prod_beta
      split: option.split sum.split)

section \<open>Properties\<close>

text \<open>C24: outlay answers in bounded time, whatever the upstream does. A publish is answered within 15
  seconds: with what the upstream sent if it sent it by then, at the moment it did, and with the
  timeout error exactly when it sent nothing. The relay document is answered within 10 seconds and is
  never missing: the overlay of the upstream's document exactly when status and body both came in
  time and are a success and an object, otherwise outlay's own; and a URL that is no WebSocket URL is
  refused at once.\<close>
theorem answers_in_time:
  "fst (publish_event_at tie eid send) \<le> 15000
   \<and> (snd (publish_event_at tie eid send) = Inl PublishTimeout \<longleftrightarrow> \<not> in_time tie 15000 send)
   \<and> (send = Some (t, Inr (success, failed)) \<and> in_time tie 15000 send \<longrightarrow>
        publish_event_at tie eid send = (t, publish_event eid (SendOutput success failed)))
   \<and> fst (relay_info_at tie url head body) \<le> 10000
   \<and> (nip11_origin url = None \<longrightarrow>
        relay_info_at tie url head body
          = (0, Some (Inl (RelayInfo (''upstream URL must be ws:// or wss://, got: '' @ url)))))
   \<and> (nip11_origin url \<noteq> None \<longrightarrow>
        snd (relay_info_at tie url head body) =
          (if \<exists>t code t' doc. head = Some (t, Inr code) \<and> is_success code \<and> in_time tie 10000 head
               \<and> body = Some (t', Some doc) \<and> is_object doc \<and> in_time tie (10000 - t) body
           then map_option Inr (overlay_proxy_info (the (snd (the body))))
           else Some (Inr synthesized_proxy_info)))"
proof -
  have p: "publish_timeout = 15000" "relay_info_timeout = 10000"
    by (simp_all add: publish_timeout_def relay_info_timeout_def)
  have pub: "fst (publish_event_at tie eid send) \<le> 15000"
    using timeout_bound [of tie 15000 send] by (simp add: publish_event_at_def p case_prod_beta)
  have err: "snd (publish_event_at tie eid send) = Inl PublishTimeout \<longleftrightarrow> \<not> in_time tie 15000 send"
    by (simp add: publish_event_at_def p timeout_cases publish_event_def Let_def case_prod_beta split: sum.split)
  show ?thesis
    using pub err relay_info_at_doc http_get_bound [of tie head body]
    by (auto simp: publish_event_at_def relay_info_at_def relay_info_def p case_prod_beta)
qed

theorem answers_in_time_witness:
  "publish_event_at True ''id'' (Some (15001, Inr ([''wss://up''], []))) = (15000, Inl PublishTimeout)
   \<and> snd (publish_event_at True ''id'' (Some (15000, Inr ([''wss://up''], [])))) \<noteq> Inl PublishTimeout
   \<and> snd (relay_info_at True ''ws://up'' (Some (3000, Inr 200)) (Some (8000, Some (JObject []))))
       = Some (Inr synthesized_proxy_info)
   \<and> snd (relay_info_at True ''ws://up'' (Some (3000, Inr 200)) (Some (7000, Some (JObject []))))
       = map_option Inr (overlay_proxy_info (JObject []))"
proof -
  have late: "publish_event_at True ''id'' (Some (15001, Inr ([''wss://up''], []))) = (15000, Inl PublishTimeout)"
    by (simp add: publish_event_at_def publish_timeout_def publish_event_def)
  have sent: "snd (publish_event_at True ''id'' (Some (15000, Inr ([''wss://up''], [])))) \<noteq> Inl PublishTimeout"
    using answers_in_time [of True "''id''" "Some (15000, Inr ([''wss://up''], []))",
      THEN conjunct2, THEN conjunct1] by simp
  have o: "nip11_origin ''ws://up'' \<noteq> None" by (simp add: nip11_origin_None_iff starts_with_def)
  note doc = answers_in_time [of True "''id''" None 0 "[]" "[]" "''ws://up''" "Some (3000, Inr 200)",
      THEN conjunct2, THEN conjunct2, THEN conjunct2, THEN conjunct2, THEN conjunct2, rule_format, OF o]
  show ?thesis
    using late sent doc [of "Some (8000, Some (JObject []))"] doc [of "Some (7000, Some (JObject []))"]
    by (simp add: is_success_def)
qed

end
