(* ===== verification/Spec2Isabelle.thy ===== *)
theory Spec2Isabelle
  imports End_To_End Session_End Live Pool_Poll Shim_System Deadlines
begin

text \<open>
  A verification development for outlay, a Nostr relay that is served over ContextVM, and for
  outlay-shim, the bridge that lets ordinary NIP-01 clients talk to it. The three crates lie under
  \<open>src/crates/\<close>.

  \<^bold>\<open>The programs.\<close> A client opens a WebSocket to the shim at \<open>/<server-key>\<close>
  (\<open>outlay-shim/src/server.rs\<close>). The shim parses the key (\<open>path.rs\<close>), takes the shared transport of
  that server from its cache (\<open>transport.rs\<close>), and turns each NIP-01 frame into a tool call
  (\<open>translate.rs\<close>, \<open>conn.rs\<close>). On the other side outlay's tool handler (\<open>outlay/src/handler.rs\<close>) takes
  the arguments apart and drives the proxy (\<open>proxy.rs\<close>), which subscribes and publishes at the
  upstream relay and streams NIP-01 frames back as chunks. Over plain HTTP the shim serves the
  server's NIP-11 document (\<open>nip11.rs\<close>). Both programs can start a memoryless relay in-process
  (\<open>outlay-relay/src/lib.rs\<close>); the shim pipes WebSockets of its root path to it (\<open>relay.rs\<close>).

  \<^bold>\<open>The theories\<close>, from the bottom up. Definitions have the names of the functions and types they
  translate, with a prefix where two crates use one name.

  \<^item> \<^theory_text>\<open>Rust_Str\<close>: the prelude. The string and integer operations of Rust's standard library the
    sources call (prefixes, splitting, trimming, parsing and printing of unsigned integers, checked
    addition), lists of results, and the collections of hints.
  \<^item> \<^theory_text>\<open>Json_Value\<close>: \<open>serde_json::Value\<close> with its accessors, objects as entries ordered by key.
  \<^item> \<^theory_text>\<open>Runs\<close>: the interface of a system that settles, as a locale, and the load of a system of many
    parts; the outbound channel, the connection and the subscribe calls interpret it.
  \<^item> \<^theory_text>\<open>Env_Reader\<close>, \<^theory_text>\<open>Config\<close>, \<^theory_text>\<open>Shim_Config\<close>: the two \<open>config.rs\<close>. Their shared contract is the locale
    \<open>env_reader\<close>, interpreted on the reader of either crate. Shown: well-formed results, every error
    with its precedence, the round trip through an environment.
  \<^item> \<^theory_text>\<open>Proxy\<close>, \<^theory_text>\<open>Handler\<close>, \<^theory_text>\<open>Outlay_Main\<close>: \<open>proxy.rs\<close>, \<open>handler.rs\<close> and \<open>main.rs\<close> of outlay. Shown: the
    order of the effects of a subscribe call and its clean-up on every branch, that a subscription
    sees its own messages only, that the relay document is total and what it holds, and that the
    server does not panic.
  \<^item> \<^theory_text>\<open>Pool\<close>, \<^theory_text>\<open>Pool_Poll\<close>, \<^theory_text>\<open>Pool_End\<close>: the subscribe calls of a server together. They share the relay pool, whose
    broadcast reaches the receiver of every call; calls, upstream, clients and the clock interleave in
    any order, and a call takes the iterations of \<^theory_text>\<open>Proxy\<close>'s loop one at a time. Shown: each call is a
    run of the function it executes, no upstream subscription leaks or is shared, nothing is missed by
    a call that keeps up, when the poll finds a client that dropped, and when it does not, and, in
    runs in which no call is left waiting, that all calls return once the relay pool has hung up. The stages of a call, like the phases of a task
    of \<^theory_text>\<open>Session_End\<close>, are an instance of the library's orders: no step moves back in them.
  \<^item> \<^theory_text>\<open>Deadlines\<close>: the timed calls of \<open>proxy.rs\<close> and \<open>build_client\<close>, with the time an answer takes as part
    of the result. Shown: publishing and the relay document are answered in bounded time.
  \<^item> \<^theory_text>\<open>Bundled_Relay\<close>: \<open>outlay-relay/src/lib.rs\<close>. The port scan on 16-bit ports, the memoryless database.
  \<^item> \<^theory_text>\<open>Path\<close>, \<^theory_text>\<open>Translate\<close>, \<^theory_text>\<open>Nip11\<close>, \<^theory_text>\<open>Relay_Pipe\<close>, \<^theory_text>\<open>Server\<close>: the files of these names in the shim, and its
    \<open>main.rs\<close>. Shown: which segments are keys and when two are one key, which frames are messages,
    that no document can inject markup into a page, that the pipe is verbatim, and what is served.
  \<^item> \<^theory_text>\<open>Transport\<close>, \<^theory_text>\<open>Transport_Cache\<close>: \<open>transport.rs\<close>. The relay URLs to dial, the construction of a
    client; the cache as a step relation over any number of concurrent callers, on the contract of
    the bounded map (locales \<open>lru_cache\<close> and \<open>cell_cache\<close>, interpreted on a recency list). Shown: a
    caller gets the transport of its own key, once built it is shared, hot keys stay, nobody is stuck.
  \<^item> \<^theory_text>\<open>Conn\<close>, \<^theory_text>\<open>Outbound\<close>, \<^theory_text>\<open>Session\<close>, \<^theory_text>\<open>Session_End\<close>: \<open>conn.rs\<close>. \<open>Conn\<close> has the main loop and the tasks as
    functions, each from what it receives to what it does; \<open>Outbound\<close> the bounded channel with its
    writer; \<open>Session\<close> puts them together as one step relation in which the main loop, all tasks and
    the writer interleave in any order. Shown: the interleaved system refines the functions, no task
    is orphaned, every frame is answered, order is kept, and the connection ends.
  \<^item> \<^theory_text>\<open>Shim_System\<close>: the whole shim, any number of visitors on the one cache, with \<^theory_text>\<open>Server\<close>'s dispatch,
    \<^theory_text>\<open>Transport_Cache\<close>'s steps and a \<^theory_text>\<open>Session\<close> for each connection. Shown: everyone is served by the
    server of their own address, and by whose relays.
  \<^item> \<^theory_text>\<open>End_To_End\<close> and this theory: the composition of both programs, for publishing, subscribing and
    the relay document.
  \<^item> \<^theory_text>\<open>Live\<close>: \<^theory_text>\<open>Session\<close> and \<^theory_text>\<open>Pool\<close> as one system, joined by a transport that routes tool calls
    and delivers the chunks of a call in order. Shown: what a client holds of a subscription is a part
    from the start of its own upstream messages, and all of them once nothing is in flight; tasks and
    calls only move forward.

  \<^bold>\<open>How effects are modelled.\<close> A function that acts returns the list of what it does, in order, next
  to its result. What the outside answers is an argument: a function for a call whose answer depends
  on its arguments, a list for a sequence of events (frames of a client, notifications of the relay
  pool, what wins each \<open>select!\<close>). Since these arguments are arbitrary, a statement holds for every
  behaviour of the outside and every choice of the scheduler. Loops are recursions over these lists,
  so there is no fuel; a list that ends stands for a loop that is still waiting. A panic is the value
  \<open>None\<close> of an outer option, an error is on the left of a sum. Integers of the sources that can
  overflow are words: ports have 16 bits, configuration numbers 64.

  \<^bold>\<open>Bounds.\<close> The outbound channel holds at most 256 frames, a cache at least one transport, the scan
  tries the 50 ports from 8086 to 8135, the poll of a subscribe call has a period of 1000 ms, a
  publish is given 15 seconds and the relay document 10. These are the
  constants of the sources. The capacity of the relay pool's broadcast is an argument.

  \<^bold>\<open>What is assumed\<close> of code that is not under \<open>src/\<close>. The JSON printer and parser, the key and
  NIP-19 codecs, URL normalisation, HTTP, the relay pool and the MCP transport are arguments without
  assumptions, unless a theorem names one. The step relations state documented behaviour: a
  \<open>tokio::sync::mpsc\<close> channel is a bounded queue that preserves order and refuses once its receiver is
  gone, a \<open>broadcast\<close> channel gives every receiver what is sent after it was made and drops the oldest
  values of one that falls behind, a \<open>subscribe_with_id\<close> that answers an error has opened nothing
  upstream, the open stream takes a chunk without delay, \<open>Notify\<close> stores one permit, a \<open>OnceCell\<close> is
  built by one caller at a time and stays empty after a failed build, the \<open>lru\<close> map keeps the most recently used keys. A
  \<open>HashMap\<close> is visited in an arbitrary permutation of its entries.

  \<^bold>\<open>Not modelled.\<close> Logging; the delivery of signals, while what \<open>shutdown_signal\<close> makes of them is in
  \<^theory_text>\<open>Outlay_Main\<close> and \<^theory_text>\<open>Server\<close>; the parsing of \<open>.env\<close> files and of HTTP requests, which \<open>dotenvy\<close> and
  \<open>axum\<close> do; the dispatch of a tool call by its name, which the \<open>rmcp\<close> macros generate; the lock of the
  transport cache, which is held for single lookups only and whose poisoning the code ignores; the
  branch of \<open>build_client\<close> under the feature \<open>test-utils\<close>; the tests. Time passes in \<^theory_text>\<open>Pool\<close> and
  \<^theory_text>\<open>Deadlines\<close>; elsewhere it appears only as the choice of the branch that timed out.
\<close>

section \<open>The interface\<close>

text \<open>C29: the programs agree on their interface. Whatever a task of the shim calls is a tool the server
  offers under that name, the names are distinct, and the server's deserialiser gets back exactly
  what the shim put in: the subscription id and the filters, or the event.\<close>
theorem calls_offered:
  assumes "CallTool name a \<in> set (subscribe_loop disp i fs opened evs :: 'tok task_effect list)
      \<or> CallTool name a \<in> set (publish_once disp event answer :: 'tok task_effect list)"
  shows "name \<in> tool_name ` set tool_router \<and> distinct (map tool_name tool_router) \<and> tools_enabled get_info
    \<and> (name = ''subscribe'' \<and> subscribe_params_of a = Some \<lparr>subscription_id = i, param_filters = fs\<rparr>
       \<or> name = ''publish_event'' \<and> publish_event_params_of a = Some event)"
  using assms
  by (auto simp: tool_router_def get_info_def subscribe_params_roundtrip publish_params_roundtrip
      dest!: subscribe_loop_calls publish_once_calls)

theorem calls_offered_witness:
  "''subscribe'' \<in> tool_name ` set tool_router"
proof -
  have "CallTool ''subscribe'' (subscribe_args ''s'' [JNull])
      \<in> set (subscribe_loop (\<lambda>_. []) ''s'' [JNull] (SetupOk 0) [] :: nat task_effect list)"
    by (simp add: subscribe_loop_def)
  then show ?thesis using calls_offered [OF disjI1, THEN conjunct1] by blast
qed

section \<open>Publishing over both programs\<close>

text \<open>C14: publishing an event through shim and outlay gives the client exactly one OK frame, and it
  mirrors the upstream: accepted exactly when the upstream took the event, with the upstream's text
  when it did not. An event that does not parse, an upstream that does not answer and a failed send
  are refusals of the client's own id with the error's text; no failure is ever reported as
  accepted.\<close>
theorem publish_end_to_end:
  "\<exists>f. published disp rpc event_of event_id send bad_params event =
      [CallTool ''publish_event'' [(''event'', event)], TaskSend f :: 'tok task_effect]
    \<and> f = (case event_of event of
         Inl e \<Rightarrow> ok_frame disp (client_event_id event) False (rpc e)
       | Inr ev \<Rightarrow>
           (case send ev of
              SendElapsed \<Rightarrow> ok_frame disp (client_event_id event) False
                (rpc ''upstream did not acknowledge the event within timeout'')
            | SendError e \<Rightarrow> ok_frame disp (client_event_id event) False (rpc (''upstream publish failed: '' @ e))
            | SendOutput success failed \<Rightarrow>
                ok_frame disp (event_id ev) (success \<noteq> [])
                  (if success \<noteq> [] then []
                   else case failed of [] \<Rightarrow> ''error: upstream did not accept the event'' | x # _ \<Rightarrow> snd x)))"
proof -
  have call: "args (json_object [(''event'', event)]) = [(''event'', event)]"
    by (simp add: json_object_def)
  have out: "jget (outcome_json out) ''ok'' = Some (JBool (outcome_ok out))"
    "json_str (outcome_json out) ''event_id'' = Some (outcome_event_id out)"
    "json_str (outcome_json out) ''message'' = Some (outcome_message out)" for out
    by (simp_all add: outcome_json_def json_str_def jget_json_object)
  have frame: "publish_frame disp event (Inr (Some (outcome_json out))) =
      ok_frame disp (outcome_event_id out) (outcome_ok out) (outcome_message out)" for out
    by (simp add: publish_frame_def Let_def out)
  have err: "publish_frame disp event (Inl e) = ok_frame disp (client_event_id event) False e" for e
    by (simp add: publish_frame_def client_event_id_def)
  show ?thesis
    unfolding published_def publish_once_def call
    by (auto simp: publish_event_tool_def publish_event_params_of_def rpc_answer_def err frame structured_def
        publish_event_def proxy_error_data_def Let_def split: sum.split send_result.split list.split)
qed

section \<open>Subscribing over both programs\<close>

text \<open>C13: a REQ survives the way to outlay: the client's subscription id and all its filters, in order
  and unchanged, are the parameters of the tool. Whatever outlay then streams, the client gets the
  chunks verbatim, and every one is an EVENT, EOSE or CLOSED frame with the client's own id: no frame
  of another subscription can reach it. When the call starts and the stream is healthy, they are
  the frames of the subscription's own upstream messages, all of them and in order.\<close>
theorem subscribe_end_to_end:
  assumes "ext \<noteq> None" and "fs \<noteq> []" and "map filter_of fs = map Inr gs" and "list_all healthy its"
  shows "subscribe_params_of (subscribe_args i fs) = Some \<lparr>subscription_id = i, param_filters = fs\<rparr>
    \<and> relayed disp i fs tok (streamed ser evj filter_of bad_params i fs ext uid (Inr ()) its fin)
        = stream_spec ser evj uid i (received its)
    \<and> list_all (labelled ser i)
        (relayed disp i fs tok (streamed ser evj filter_of bad_params i fs ext' uid' sub_res its' fin'))"
  using streamed_healthy [OF assms] streamed_cases
  by (auto simp: relayed_chunks subscribe_params_roundtrip list_all_iff)

theorem subscribe_end_to_end_witness:
  "relayed (\<lambda>_. []) ''s'' [JNull] (0 :: nat)
     (streamed (\<lambda>v. Some (if v = JArray [JString ''EOSE'', JString ''s''] then ''eose'' else ''other'')) (\<lambda>v. v)
        (\<lambda>f. Inr ()) [] ''s'' [JNull] (Some ()) ''up'' (Inr ())
        [\<lparr>sel = Recv (NMessage ''u'' (REndOfStoredEvents ''up'')), write_ok = True, active = True\<rparr>,
         \<lparr>sel = Recv (NMessage ''u'' (REndOfStoredEvents ''foreign'')), write_ok = True, active = True\<rparr>] True)
   = [''eose'']"
proof -
  let ?its = "[\<lparr>sel = Recv (NMessage ''u'' (REndOfStoredEvents ''up'')), write_ok = True, active = True\<rparr>,
         \<lparr>sel = Recv (NMessage ''u'' (REndOfStoredEvents ''foreign'')), write_ok = True, active = True\<rparr>]"
  let ?ser = "\<lambda>v. Some (if v = JArray [JString ''EOSE'', JString ''s''] then ''eose'' else ''other'')"
  have m: "map (\<lambda>f. Inr ()) [JNull] = map Inr [()]" by simp
  have h: "list_all healthy ?its" by (simp add: healthy_def)
  have "relayed (\<lambda>_. []) ''s'' [JNull] (0 :: nat) (streamed ?ser (\<lambda>v. v) (\<lambda>f. Inr ()) [] ''s'' [JNull]
      (Some ()) ''up'' (Inr ()) ?its True) = stream_spec ?ser (\<lambda>v. v) ''up'' ''s'' (received ?its)"
    by (rule subscribe_end_to_end [THEN conjunct2, THEN conjunct1, OF _ _ m h]) simp_all
  then show ?thesis by (simp add: chunk_def)
qed

section \<open>The relay document over both programs\<close>

text \<open>C22: what a client reads at the page of a server. When outlay's upstream URL is no WebSocket URL it
  is a 502 with that reason. In every other case the shim serves a document with exactly these
  fields, in the format the client asked for: when the upstream answers with an object, its fields
  with outlay's identity laid over them, otherwise outlay's own document.\<close>
theorem nip11_end_to_end:
  assumes "parse pubkey = Inr p" and "get p = Inr peer" and "relay_info_tool url fetch = Some r"
    and "call peer = rpc_answer rpc r"
  shows "case nip11_origin url of
      None \<Rightarrow> serve_pubkey pretty to_str parse get call cfg accept pubkey =
        plain 502 (''relay_info: '' @ rpc (''relay_info: upstream URL must be ws:// or wss://, got: '' @ url))
    | Some origin \<Rightarrow> \<exists>doc. jget doc = served_field (fetch origin)
        \<and> serve_pubkey pretty to_str parse get call cfg accept pubkey =
            render pretty to_str doc accept (map_option (\<lambda>u. u @ ''/'' @ hex p) (public_url cfg))"
proof (cases "nip11_origin url")
  case None
  then have "r = Inl (''relay_info: upstream URL must be ws:// or wss://, got: '' @ url)"
    using assms(3) by (auto simp: relay_info_tool_def relay_info_def proxy_error_data_def)
  then show ?thesis
    using None assms(1,2,4) by (simp add: serve_pubkey_def fetch_nip11_def rpc_answer_def)
next
  case (Some origin)
  then obtain doc where doc: "relay_info url fetch = Some (Inr doc)" "jget doc = served_field (fetch origin)"
    using relay_info_fields by blast
  then have "r = Inr (structured doc)" using assms(3) by (auto simp: relay_info_tool_def)
  then show ?thesis
    using doc(2) assms(1,2,4) unfolding Some option.case
    by (intro exI [of _ doc]) (simp add: serve_pubkey_def fetch_nip11_def rpc_answer_def structured_def Let_def)
qed

theorem nip11_end_to_end_witness:
  "\<exists>r. relay_info_tool ''wss://u'' (\<lambda>_. HttpResponse 200 (Some (JObject [(''name'', JString ''n'')]))) = Some r
     \<and> (\<forall>cfg. \<exists>doc. jget doc ''name'' = Some (JString ''n'') \<and> jget doc ''software'' = Some (JString ''outlay'')
          \<and> serve_pubkey (\<lambda>_. None) Some (\<lambda>s. Inr \<lparr>hex = s, relay_hints = []\<rparr>) (\<lambda>_. Inr ())
                (\<lambda>_. rpc_answer (\<lambda>e. e) r) cfg None ''ab''
              = render (\<lambda>_. None) Some doc None (map_option (\<lambda>u. u @ ''/'' @ ''ab'') (public_url cfg)))"
proof -
  let ?fetch = "\<lambda>_. HttpResponse 200 (Some (JObject [(''name'', JString ''n'')]))"
  let ?parse = "\<lambda>s. Inr \<lparr>hex = s, relay_hints = []\<rparr> :: path_error + parsed_path"
  let ?p = "\<lparr>hex = ''ab'', relay_hints = []\<rparr>"
  have url: "nip11_origin ''wss://u'' = Some ''https://u''" by (simp add: nip11_origin_def)
  obtain d where "relay_info ''wss://u'' ?fetch = Some (Inr d)" using relay_info_fields [OF url] by blast
  then have r: "relay_info_tool ''wss://u'' ?fetch = Some (Inr (structured d))" by (simp add: relay_info_tool_def)
  have "\<exists>doc. jget doc = served_field (?fetch ''https://u'')
      \<and> serve_pubkey (\<lambda>_. None) Some ?parse (\<lambda>_. Inr ()) (\<lambda>_. rpc_answer (\<lambda>e. e) (Inr (structured d))) cfg None ''ab''
        = render (\<lambda>_. None) Some doc None (map_option (\<lambda>u. u @ ''/'' @ ''ab'') (public_url cfg))" for cfg
    using nip11_end_to_end [of ?parse "''ab''" ?p "\<lambda>_. Inr ()" "()", OF _ _ r, of "\<lambda>_. rpc_answer (\<lambda>e. e) (Inr (structured d))"
        "\<lambda>e. e" "\<lambda>_. None" Some cfg None]
    unfolding url option.case by simp
  moreover have "served_field (?fetch ''https://u'') ''name'' = Some (JString ''n'')"
    "served_field (?fetch ''https://u'') ''software'' = Some (JString ''outlay'')"
    by (simp_all add: served_field_def is_success_def overlaid_def)
  ultimately show ?thesis using r by (intro exI [of _ "Inr (structured d)"]) metis
qed

section \<open>The JSON of both programs\<close>

text \<open>Every JSON value the programs build is one: keys of objects are distinct and in order, at every
  depth, as long as the values they are given are. This holds of the arguments of every tool call,
  of every tool result, and of the documents the shim serves.\<close>

lemma json_values_wellformed:
  assumes "\<And>origin code d. fetch origin = HttpResponse code (Some d) \<Longrightarrow> json_ok d"
    and "json_ok event" and "list_all json_ok fs"
  shows "json_ok (JObject (subscribe_args i fs))
    \<and> json_ok (JObject (args (json_object [(''event'', event)])))
    \<and> (relay_info_tool url fetch = Some (Inr r) \<longrightarrow> (\<exists>doc. structured_content r = Some doc \<and> json_ok doc))
    \<and> (publish_event_tool event_of event_id send bad_params m = Inr r' \<longrightarrow>
         (\<exists>doc. structured_content r' = Some doc \<and> json_ok doc))
    \<and> (subscribe_tool ser evj filter_of bad_params m ext uid sub_res its fin = (es, Some (Inr r'')) \<longrightarrow>
         (\<exists>doc. structured_content r'' = Some doc \<and> json_ok doc))
    \<and> json_ok synth_root"
proof -
  have args: "json_ok (JObject (args (json_object kvs)))" if "list_all (\<lambda>e. json_ok (snd e)) kvs" for kvs
    using json_ok_object [OF that] by (simp add: json_object_def)
  have "\<exists>doc. structured_content r = Some doc \<and> json_ok doc" if tool: "relay_info_tool url fetch = Some (Inr r)"
  proof (cases "nip11_origin url")
    case None
    then show ?thesis using tool by (simp add: relay_info_tool_def relay_info_def)
  next
    case (Some origin)
    then obtain doc where "relay_info url fetch = Some (Inr doc)" "json_ok doc"
      using relay_info_fields assms(1) by blast
    then show ?thesis using tool by (auto simp: relay_info_tool_def structured_def)
  qed
  moreover have "json_ok (outcome_json out)" for out
    unfolding outcome_json_def by (rule json_ok_object) simp
  then have "\<exists>doc. structured_content r' = Some doc \<and> json_ok doc"
    if "publish_event_tool event_of event_id send bad_params m = Inr r'"
    using that by (auto simp: publish_event_tool_def structured_def split: option.splits sum.splits)
  moreover have out: "json_ok subscribe_output"
    unfolding subscribe_output_def by (rule json_ok_object) simp
  have "\<exists>doc. structured_content r'' = Some doc \<and> json_ok doc"
    if "subscribe_tool ser evj filter_of bad_params m ext uid sub_res its fin = (es, Some (Inr r''))"
    using that out
    by (auto simp: subscribe_tool_def structured_def Let_def split: option.splits sum.splits prod.splits)
      (metis old.unit.exhaust sum.exhaust)
  moreover have "json_ok synth_root"
    unfolding synth_root_def by (rule json_ok_object) (simp add: json_ok_object)
  ultimately show ?thesis
    using args [of "[(''event'', event)]"] args [of "[(''subscription_id'', JString i), (''filters'', JArray fs)]"] assms(2,3)
    by (simp add: subscribe_args_def del: json_ok.simps) (simp del: json_ok.simps add: json_ok.simps(1,6))
qed

section \<open>Deployments\<close>

text \<open>The two programs meet without any configuration: outlay listens on the relays the shim dials
  for a server it knows by key alone, both use the same kind of gift wraps, encryption is optional on
  both ends, and open streams are on. With a colocated relay the shim reaches these relays over its
  loopback address instead.\<close>

lemma default_ends_meet:
  "\<exists>c s. read_server_config True (\<lambda>_. None) = Inr c \<and> read_shim_config (\<lambda>_. None) = Inr s
     \<and> st_relay_urls (build_transport_config c) = resolve_relay_urls parse_url url_str s \<lparr>hex = k, relay_hints = []\<rparr> None
     \<and> st_gift_wrap (build_transport_config c) = ct_gift_wrap (client_config parse_url url_str s p loopback)
     \<and> st_encryption_optional (build_transport_config c)
     \<and> ct_encryption (client_config parse_url url_str s p loopback) = EncOptional
     \<and> st_open_stream (build_transport_config c) \<and> ct_open_stream (client_config parse_url url_str s p loopback)"
proof -
  obtain c where c: "read_server_config True (\<lambda>_. None) = Inr c" "cvm_relay_urls c = [''wss://nostr.wtf'']"
    "server_gift_wrap c = GwEphemeral"
    by (simp add: read_server_config_def read_gift_wrap_def opt_bool_def opt_string_def read_cvm_relay_urls_def
        default_cvm_relay_urls_def)
  obtain s where s: "read_shim_config (\<lambda>_. None) = Inr s" "relay_urls s = [''wss://nostr.wtf'']"
    "gift_wrap s = GwEphemeral" "encryption s = EncOptional"
    by (simp add: read_shim_config_def read_encryption_def read_shim_gift_wrap_def opt_bool_env_def
        shim_opt_string_def read_relay_urls_def default_relay_urls_def)
  show ?thesis
    using c s by (intro exI [of _ c] exI [of _ s])
      (simp add: build_transport_config_def client_config_def resolve_relay_urls_alt candidate_urls_def)
qed

text \<open>The pages both programs print are web links. The scheme swap of outlay and of the shim is the
  same function; it always gives an HTTP or HTTPS URL, keeps everything behind the scheme, and leaves
  web links alone. With any configuration that is read, outlay has a page: its first relay's.\<close>

lemma page_links:
  assumes "read_server_config f env = Inr c"
  shows "https_url u = shim_https_url u
   \<and> (starts_with (https_url u) ''https://'' \<or> starts_with (https_url u) ''http://'')
   \<and> https_url (https_url u) = https_url u
   \<and> https_url (''wss://'' @ h) = ''https://'' @ h \<and> https_url (''ws://'' @ h) = ''http://'' @ h
   \<and> (\<exists>r rs. cvm_relay_urls c = r # rs \<and> url_entry r \<and> page_url k c = Some (https_url r @ ''/'' @ k))"
proof -
  have "\<exists>rest. https_url u = ''https://'' @ rest \<or> https_url u = ''http://'' @ rest"
    by (rule https_url_http)
  then have "starts_with (https_url u) ''https://'' \<or> starts_with (https_url u) ''http://''"
    by (auto simp: starts_with_iff)
  moreover have "https_url u = shim_https_url u"
    by (simp add: https_url_def shim_https_url_def)
  moreover have "https_url (''wss://'' @ h) = ''https://'' @ h" "https_url (''ws://'' @ h) = ''http://'' @ h"
    unfolding https_url_def by (simp_all add: strip_prefix_append)
  moreover have "https_url (https_url u) = https_url u" by (rule https_url_idem)
  moreover have "cvm_relay_urls c = read_cvm_relay_urls env"
    using assms by (auto simp: read_server_config_def Let_def split: sum.splits if_splits)
  then obtain r rs where "cvm_relay_urls c = r # rs" "url_entry r"
    using read_cvm_relay_urls_ok [of env] by (cases "read_cvm_relay_urls env") auto
  moreover from this have "page_url k c = Some (https_url r @ ''/'' @ k)" by (simp add: page_url_def)
  ultimately show ?thesis by blast
qed

end
